(* ===== verification/Prelude.thy ===== *)
theory Prelude imports Main "HOL-Library.Word" "HOL-Library.AList" "HOL-Library.Multiset" begin

text \<open>
  The vocabulary the component theories share: machine integers and byte strings, the outcome of a
  fallible Rust function, decoders that consume a slice from the front, the loop
  \<open>while !buf.is_empty()\<close> of the codec, and the facts on association lists (the model of
  \<open>HashMap\<close>) that the components use.
\<close>

unbundle bit_operations_syntax

section \<open>Machine integers and strings\<close>

type_synonym u8 = "8 word"
type_synonym u16 = "16 word"
type_synonym u32 = "32 word"
type_synonym u64 = "64 word"

lemma unat_u8_less: "unat (b :: u8) < 256"
  using unsigned_less [of b] by simp

lemma unat_u16_less: "unat (w :: u16) < 65536"
  using unsigned_less [of w] by simp

text \<open>
  A slice \<open>&[u8]\<close> and a \<open>Vec<u8>\<close> are lists of bytes. A Rust string is the list of its UTF-8
  bytes; that it is well-formed UTF-8 is an invariant, proved where strings are made.
\<close>

type_synonym bytes = "u8 list"
type_synonym rstr = "u8 list"

text \<open>A string literal of the source.\<close>

definition lit :: "string \<Rightarrow> rstr" where
  "lit s = map of_char s"

lemma lit_simps [simp]:
  "lit [] = []"
  "lit (c # cs) = of_char c # lit cs"
  by (simp_all add: lit_def)

section \<open>Outcomes\<close>

text \<open>
  \<open>Result<T, E>\<close> with a third case: a panic (a slice index out of range, an overflow check).
  It is kept apart from the errors, because no caller of the program can match on it.
\<close>

datatype ('a, 'e) outcome = Ok 'a | Err 'e | Panic

text \<open>The \<open>?\<close> operator: go on with the value, or return the error.\<close>

fun and_then :: "('a, 'e) outcome \<Rightarrow> ('a \<Rightarrow> ('b, 'e) outcome) \<Rightarrow> ('b, 'e) outcome" where
  "and_then (Ok x) f = f x"
| "and_then (Err e) f = Err e"
| "and_then Panic f = Panic"

lemma and_then_Ok_iff: "and_then r f = Ok y \<longleftrightarrow> (\<exists>x. r = Ok x \<and> f x = Ok y)"
  by (cases r) auto

lemma and_then_Panic_iff: "and_then r f = Panic \<longleftrightarrow> r = Panic \<or> (\<exists>x. r = Ok x \<and> f x = Panic)"
  by (cases r) auto

lemma and_then_cong [fundef_cong]:
  "r = r' \<Longrightarrow> (\<And>x. r' = Ok x \<Longrightarrow> f x = g x) \<Longrightarrow> and_then r f = and_then r' g"
  by (cases r') auto

lemma and_then_assoc: "and_then (and_then r f) g = and_then r (\<lambda>x. and_then (f x) g)"
  by (cases r) auto

section \<open>Association lists\<close>

text \<open>
  A \<open>HashMap\<close> is an association list with distinct keys: \<open>get\<close> is \<open>map_of\<close>, \<open>insert\<close> is
  \<open>AList.update\<close>, \<open>remove\<close> is \<open>AList.delete\<close>. Its iteration order is not specified by Rust, so a
  fact about an iteration is stated up to order, over \<open>over\<close>: the sum, in a commutative monoid, of
  what each pair contributes.
\<close>

abbreviation distinct_keys :: "('k \<times> 'v) list \<Rightarrow> bool" where
  "distinct_keys m \<equiv> distinct (map fst m)"

definition over :: "('k \<Rightarrow> 'v \<Rightarrow> 'm::comm_monoid_add) \<Rightarrow> ('k \<times> 'v) list \<Rightarrow> 'm" where
  "over F m = (\<Sum>(k, v)\<leftarrow>m. F k v)"

named_theorems alist "how the map operations change a sum over a map and its lookups"

lemma over_simps [simp]:
  "over F [] = 0"
  "over F ((k, v) # m) = F k v + over F m"
  by (simp_all add: over_def)

lemma over_append [simp]: "over F (m @ m') = over F m + over F m'"
  by (simp add: over_def)

lemma over_delete: "over F (AList.delete k m) = over (\<lambda>k' v. if k' = k then 0 else F k' v) m"
  by (induction m) auto

lemma over_cong: "(\<And>k v. (k, v) \<in> set m \<Longrightarrow> F k v = G k v) \<Longrightarrow> over F m = over G m"
  by (induction m) auto

lemma over_zero: "(\<And>k v. (k, v) \<in> set m \<Longrightarrow> F k v = 0) \<Longrightarrow> over F m = 0"
  by (induction m) auto

lemma over_split:
  assumes "distinct_keys m"
  shows "over F m = over (\<lambda>k' v. if k' = k then 0 else F k' v) m
    + (case map_of m k of None \<Rightarrow> 0 | Some v \<Rightarrow> F k v)"
  using assms
proof (induction m)
  case (Cons kv m)
  obtain k' v where kv: "kv = (k', v)" by (cases kv)
  show ?case
  proof (cases "k' = k")
    case True
    with Cons kv have "map_of m k = None" by (simp add: map_of_eq_None_iff)
    with Cons kv True show ?thesis by (simp add: add.commute)
  qed (use Cons kv in \<open>simp add: add.assoc\<close>)
qed simp

lemma over_update:
  assumes "distinct_keys m"
  shows "over F (AList.update k v m) = over (\<lambda>k' v. if k' = k then 0 else F k' v) m + F k v"
proof -
  have "distinct_keys (AList.update k v m)" using assms by (rule distinct_update)
  from over_split [OF this, of F k]
  have "over F (AList.update k v m) =
      over (\<lambda>k' v. if k' = k then 0 else F k' v) (AList.update k v m) + F k v"
    by (simp add: update_conv)
  moreover have "over (\<lambda>k' v. if k' = k then 0 else F k' v) (AList.update k v m) =
      over (\<lambda>k' v. if k' = k then 0 else F k' v) m"
    by (induction m) auto
  ultimately show ?thesis by simp
qed

lemmas [alist] = update_conv' delete_conv' map_of_eq_None_iff

lemma in_set_update:
  "(k', v') \<in> set (AList.update k v m) \<Longrightarrow> (k' = k \<and> v' = v) \<or> (k', v') \<in> set m"
  by (induction m) (auto split: if_splits)

lemma in_set_delete: "(k', v') \<in> set (AList.delete k m) \<longleftrightarrow> k' \<noteq> k \<and> (k', v') \<in> set m"
  by (induction m) auto

lemma in_set_map_of: "distinct_keys m \<Longrightarrow> (k, v) \<in> set m \<longleftrightarrow> map_of m k = Some v"
  by (simp add: map_of_eq_Some_iff)

lemma update_nonempty [simp]: "AList.update k v m \<noteq> []"
  by (cases m) auto

end
