(* ===== verification/Utf8.thy ===== *)
theory Utf8 imports Prelude begin

text \<open>
  What the codec uses of Rust's \<open>str\<close>: the check \<open>std::str::from_utf8\<close> and the lossy conversion
  \<open>String::from_utf8_lossy\<close> of \<open>core::str\<close>, one character at a time, and the reference they are
  proved against: a byte string is accepted exactly when it is the concatenation of the UTF-8
  encodings of Unicode scalar values.
\<close>

section \<open>The scanner of the standard library\<close>

text \<open>Width of a character from its first byte, 0 for a byte that starts none.\<close>

definition utf8_char_width :: "u8 \<Rightarrow> nat" where
  "utf8_char_width b =
     (let n = unat b in
      if n < 128 then 1
      else if n < 194 then 0
      else if n < 224 then 2
      else if n < 240 then 3
      else if n < 245 then 4
      else 0)"

definition is_cont :: "u8 \<Rightarrow> bool" where
  "is_cont b \<longleftrightarrow> 128 \<le> unat b \<and> unat b < 192"

text \<open>
  The second byte is narrower after four first bytes: no overlong form (\<open>E0\<close>, \<open>F0\<close>), no surrogate
  (\<open>ED\<close>), nothing above \<open>10FFFF\<close> (\<open>F4\<close>).
\<close>

definition second_ok :: "u8 \<Rightarrow> u8 \<Rightarrow> bool" where
  "second_ok b0 b1 \<longleftrightarrow>
     (let n = unat b1 in
      if unat b0 = 224 then 160 \<le> n \<and> n < 192
      else if unat b0 = 237 then 128 \<le> n \<and> n < 160
      else if unat b0 = 240 then 144 \<le> n \<and> n < 192
      else if unat b0 = 244 then 128 \<le> n \<and> n < 144
      else is_cont b1)"

text \<open>A byte past the end reads as 0, which is no continuation byte.\<close>

definition safe_get :: "bytes \<Rightarrow> nat \<Rightarrow> u8" where
  "safe_get bs i = (if i < length bs then bs ! i else 0)"

text \<open>
  One step: is there a character at the front, and how many bytes it has (or, when there is none,
  how many bytes the maximal invalid prefix has).
\<close>

fun utf8_next :: "bytes \<Rightarrow> bool \<times> nat" where
  "utf8_next [] = (True, 0)"
| "utf8_next (b0 # bs) =
     (let w = utf8_char_width b0 in
      if w = 1 then (True, 1)
      else if w = 0 then (False, 1)
      else if \<not> second_ok b0 (safe_get bs 0) then (False, 1)
      else if w = 2 then (True, 2)
      else if \<not> is_cont (safe_get bs 1) then (False, 2)
      else if w = 3 then (True, 3)
      else if \<not> is_cont (safe_get bs 2) then (False, 3)
      else (True, 4))"

lemma utf8_next_pos: "bs \<noteq> [] \<Longrightarrow> 0 < snd (utf8_next bs)"
  by (cases bs) (auto simp: Let_def)

lemma utf8_next_decreases: "bs \<noteq> [] \<Longrightarrow> length bs - snd (utf8_next bs) < length bs"
  using utf8_next_pos by (simp add: diff_less)

function utf8_valid :: "bytes \<Rightarrow> bool" where
  "utf8_valid bs =
     (if bs = [] then True
      else if fst (utf8_next bs) then utf8_valid (drop (snd (utf8_next bs)) bs)
      else False)"
  by pat_completeness auto
termination
  by (relation "measure length") (auto simp: utf8_next_decreases)

declare utf8_valid.simps [simp del]

text \<open>\<open>String::from_utf8_lossy\<close>: every maximal invalid prefix becomes U+FFFD.\<close>

function from_utf8_lossy :: "bytes \<Rightarrow> rstr" where
  "from_utf8_lossy bs =
     (if bs = [] then []
      else (if fst (utf8_next bs) then take (snd (utf8_next bs)) bs else [0xEF, 0xBF, 0xBD])
           @ from_utf8_lossy (drop (snd (utf8_next bs)) bs))"
  by pat_completeness auto
termination
  by (relation "measure length") (auto simp: utf8_next_decreases)

declare from_utf8_lossy.simps [simp del]

section \<open>The reference: encodings of scalar values\<close>

definition scalar :: "nat \<Rightarrow> bool" where
  "scalar c \<longleftrightarrow> c < 0xD800 \<or> (0xE000 \<le> c \<and> c < 0x110000)"

definition byte_of :: "nat \<Rightarrow> u8" where
  "byte_of n = of_nat n"

definition utf8_encode :: "nat \<Rightarrow> bytes" where
  "utf8_encode c =
     (if c < 0x80 then [byte_of c]
      else if c < 0x800 then [byte_of (0xC0 + c div 64), byte_of (0x80 + c mod 64)]
      else if c < 0x10000 then
        [byte_of (0xE0 + c div 4096), byte_of (0x80 + c div 64 mod 64), byte_of (0x80 + c mod 64)]
      else
        [byte_of (0xF0 + c div 262144), byte_of (0x80 + c div 4096 mod 64),
         byte_of (0x80 + c div 64 mod 64), byte_of (0x80 + c mod 64)])"

lemma unat_byte_of: "n < 256 \<Longrightarrow> unat (byte_of n) = n"
  by (simp add: byte_of_def unat_of_nat)

lemma byte_of_unat: "byte_of (unat b) = b"
  by (simp add: byte_of_def)

lemmas utf8_scan_defs = utf8_char_width_def second_ok_def is_cont_def Let_def

lemma utf8_encode_nonempty: "utf8_encode c \<noteq> []"
  by (simp add: utf8_encode_def)

declare utf8_next.simps [simp del]

lemma utf8_next_2:
  assumes "194 \<le> x" "x < 224" "128 \<le> y" "y < 192"
  shows "utf8_next (byte_of x # byte_of y # rest) = (True, 2)"
  using assms by (simp add: utf8_next.simps utf8_scan_defs unat_byte_of safe_get_def)

lemma utf8_next_3:
  assumes "224 \<le> x" "x < 240" "128 \<le> y" "y < 192" "128 \<le> z" "z < 192"
    and "x = 224 \<Longrightarrow> 160 \<le> y" "x = 237 \<Longrightarrow> y < 160"
  shows "utf8_next (byte_of x # byte_of y # byte_of z # rest) = (True, 3)"
  using assms by (simp add: utf8_next.simps utf8_scan_defs unat_byte_of safe_get_def)

lemma utf8_next_4:
  assumes "240 \<le> x" "x < 245" "128 \<le> y" "y < 192" "128 \<le> z" "z < 192" "128 \<le> w" "w < 192"
    and "x = 240 \<Longrightarrow> 144 \<le> y" "x = 244 \<Longrightarrow> y < 144"
  shows "utf8_next (byte_of x # byte_of y # byte_of z # byte_of w # rest) = (True, 4)"
  using assms by (simp add: utf8_next.simps utf8_scan_defs unat_byte_of safe_get_def numeral_3_eq_3 numeral_2_eq_2)

text \<open>A scalar value's encoding is one character for the scanner, whatever follows.\<close>

lemma utf8_next_encode:
  assumes "scalar c"
  shows "utf8_next (utf8_encode c @ rest) = (True, length (utf8_encode c))"
proof -
  consider "c < 0x80" | "0x80 \<le> c" "c < 0x800" | "0x800 \<le> c" "c < 0x10000"
    | "0x10000 \<le> c" "c < 0x110000"
    using assms by (fastforce simp: scalar_def)
  then show ?thesis
  proof cases
    case 1
    then show ?thesis by (simp add: utf8_next.simps utf8_encode_def utf8_scan_defs unat_byte_of)
  next
    case 2
    then have "utf8_next (byte_of (0xC0 + c div 64) # byte_of (0x80 + c mod 64) # rest) = (True, 2)"
      by (intro utf8_next_2) auto
    with 2 show ?thesis by (simp add: utf8_encode_def)
  next
    case 3
    have sum: "c = 4096 * (c div 4096) + 64 * (c div 64 mod 64) + c mod 64"
      using mod_mult2_eq [of c 64 64] mult_div_mod_eq [of 4096 c] by auto
    have e0: "32 \<le> c div 64 mod 64" if "c div 4096 = 0"
      using that 3 sum by linarith
    have ed: "c div 64 mod 64 < 32" if "c div 4096 = 13"
      using that assms sum by (auto simp: scalar_def)
    have "utf8_next (byte_of (0xE0 + c div 4096) # byte_of (0x80 + c div 64 mod 64)
            # byte_of (0x80 + c mod 64) # rest) = (True, 3)"
      using 3 e0 ed by (intro utf8_next_3) auto
    with 3 show ?thesis by (simp add: utf8_encode_def)
  next
    case 4
    have sum: "c = 262144 * (c div 262144) + 4096 * (c div 4096 mod 64) + c mod 4096"
      using mod_mult2_eq [of c 4096 64] mult_div_mod_eq [of 262144 c] by auto
    have "c mod 4096 < 4096" by simp
    with 4 sum have f0: "16 \<le> c div 4096 mod 64" if "c div 262144 = 0"
      using that by linarith
    from 4 sum have f4: "c div 4096 mod 64 < 16" if "c div 262144 = 4"
      using that by linarith
    have "utf8_next (byte_of (0xF0 + c div 262144) # byte_of (0x80 + c div 4096 mod 64)
            # byte_of (0x80 + c div 64 mod 64) # byte_of (0x80 + c mod 64) # rest) = (True, 4)"
      using 4 f0 f4 by (intro utf8_next_4) auto
    with 4 show ?thesis by (simp add: utf8_encode_def)
  qed
qed

text \<open>And a character for the scanner is the encoding of a scalar value.\<close>

lemma utf8_char_width_1: "utf8_char_width b0 = 1 \<Longrightarrow> unat b0 < 128"
  and utf8_char_width_2: "utf8_char_width b0 = 2 \<Longrightarrow> 194 \<le> unat b0 \<and> unat b0 < 224"
  and utf8_char_width_3: "utf8_char_width b0 = 3 \<Longrightarrow> 224 \<le> unat b0 \<and> unat b0 < 240"
  and utf8_char_width_4: "utf8_char_width b0 = 4 \<Longrightarrow> 240 \<le> unat b0 \<and> unat b0 < 245"
  by (simp_all add: utf8_char_width_def Let_def split: if_splits)

lemma utf8_next_cases:
  assumes "utf8_next (b0 # r) = (True, n)"
  obtains (one) "n = 1" "unat b0 < 128"
  | (two) b1 r' where "n = 2" "r = b1 # r'" "194 \<le> unat b0" "unat b0 < 224" "is_cont b1"
  | (three) b1 b2 r' where "n = 3" "r = b1 # b2 # r'" "224 \<le> unat b0" "unat b0 < 240"
      "second_ok b0 b1" "is_cont b2"
  | (four) b1 b2 b3 r' where "n = 4" "r = b1 # b2 # b3 # r'" "240 \<le> unat b0" "unat b0 < 245"
      "second_ok b0 b1" "is_cont b2" "is_cont b3"
proof -
  have z: "\<not> is_cont 0" "\<not> second_ok b0 0"
    by (auto simp: utf8_scan_defs)
  have g: "\<exists>b1 r'. r = b1 # r' \<and> second_ok b0 b1" if "second_ok b0 (safe_get r 0)"
    using that z by (cases r) (auto simp: safe_get_def)
  have g2: "\<exists>b1 b2 r'. r = b1 # b2 # r' \<and> second_ok b0 b1 \<and> is_cont b2"
    if "second_ok b0 (safe_get r 0)" "is_cont (safe_get r 1)"
    using that z by (cases r; cases "tl r") (auto simp: safe_get_def)
  have g3: "\<exists>b1 b2 b3 r'. r = b1 # b2 # b3 # r' \<and> second_ok b0 b1 \<and> is_cont b2 \<and> is_cont b3"
    if "second_ok b0 (safe_get r 0)" "is_cont (safe_get r 1)" "is_cont (safe_get r 2)"
    using that z by (cases r; cases "tl r"; cases "tl (tl r)") (auto simp: safe_get_def)
  have "utf8_char_width b0 \<in> {0, 1, 2, 3, 4}" by (simp add: utf8_char_width_def Let_def)
  then consider "utf8_char_width b0 = 0" | "utf8_char_width b0 = 1" | "utf8_char_width b0 = 2"
    | "utf8_char_width b0 = 3" | "utf8_char_width b0 = 4" by auto
  then have "utf8_char_width b0 = 1 \<and> n = 1
    \<or> utf8_char_width b0 = 2 \<and> n = 2 \<and> second_ok b0 (safe_get r 0)
    \<or> utf8_char_width b0 = 3 \<and> n = 3 \<and> second_ok b0 (safe_get r 0) \<and> is_cont (safe_get r 1)
    \<or> utf8_char_width b0 = 4 \<and> n = 4 \<and> second_ok b0 (safe_get r 0) \<and> is_cont (safe_get r 1)
      \<and> is_cont (safe_get r 2)"
    using assms by cases (simp_all add: utf8_next.simps split: if_splits)
  then consider "utf8_char_width b0 = 1" "n = 1"
    | "utf8_char_width b0 = 2" "n = 2" "\<exists>b1 r'. r = b1 # r' \<and> second_ok b0 b1"
    | "utf8_char_width b0 = 3" "n = 3"
      "\<exists>b1 b2 r'. r = b1 # b2 # r' \<and> second_ok b0 b1 \<and> is_cont b2"
    | "utf8_char_width b0 = 4" "n = 4"
      "\<exists>b1 b2 b3 r'. r = b1 # b2 # b3 # r' \<and> second_ok b0 b1 \<and> is_cont b2 \<and> is_cont b3"
    using g g2 g3 by blast
  then show thesis
  proof cases
    case 1
    then show thesis using one utf8_char_width_1 by blast
  next
    case 2
    then obtain b1 r' where r: "r = b1 # r'" and b1: "second_ok b0 b1" by blast
    from 2 have w: "194 \<le> unat b0 \<and> unat b0 < 224" using utf8_char_width_2 by blast
    with b1 have "is_cont b1" by (simp add: second_ok_def Let_def)
    with 2 r w show thesis using two by blast
  next
    case 3
    then show thesis using three utf8_char_width_3 by blast
  next
    case 4
    then show thesis using four utf8_char_width_4 by blast
  qed
qed

lemma second_ok_cont: "second_ok b0 b1 \<Longrightarrow> 128 \<le> unat b1 \<and> unat b1 < 192"
  by (auto simp: second_ok_def is_cont_def Let_def split: if_splits)

text \<open>
  The code point a character of two, three or four bytes stands for, and that encoding it gives the
  bytes back: the three lemmas are arithmetic on the bytes' values.
\<close>

lemma base64_digits: "(64 * a + r) div 64 = a" "(64 * a + r) mod 64 = r" if "r < 64" for a r :: nat
  using that by simp_all

lemma utf8_encode_2:
  assumes "2 \<le> a" "a < 32" "y < 64"
  shows "\<exists>c. scalar c \<and> utf8_encode c = [byte_of (0xC0 + a), byte_of (0x80 + y)]"
proof -
  let ?c = "64 * a + y"
  have "128 \<le> ?c" "?c < 0x800" using assms by linarith+
  then have "scalar ?c" "utf8_encode ?c = [byte_of (0xC0 + a), byte_of (0x80 + y)]"
    using assms by (simp_all add: utf8_encode_def scalar_def)
  then show ?thesis by blast
qed

lemma utf8_encode_3:
  assumes "a < 16" "y < 64" "z < 64" and "a = 0 \<longrightarrow> 32 \<le> y" "a = 13 \<longrightarrow> y < 32"
  shows "\<exists>c. scalar c \<and> utf8_encode c = [byte_of (0xE0 + a), byte_of (0x80 + y), byte_of (0x80 + z)]"
proof -
  let ?c = "64 * (64 * a + y) + z"
  have m: "?c div 64 = 64 * a + y" "?c mod 64 = z" "(64 * a + y) mod 64 = y" "(64 * a + y) div 64 = a"
    by (rule base64_digits [OF assms(3)] base64_digits [OF assms(2)])+
  have t: "?c div 4096 = a" using m div_mult2_eq [of ?c 64 64] by simp
  have "32 \<le> y \<or> 1 \<le> a" using assms(4) by auto
  then have lo: "0x800 \<le> ?c" by (elim disjE) simp_all
  have hi: "?c < 0x10000" using assms(1-3) by simp
  with lo have "utf8_encode ?c = [byte_of (0xE0 + a), byte_of (0x80 + y), byte_of (0x80 + z)]"
    using m t by (simp only: utf8_encode_def) simp
  moreover have "a < 13 \<or> a = 13 \<and> y < 32 \<or> 14 \<le> a" using assms(5) by auto
  then have "?c < 0xD800 \<or> 0xE000 \<le> ?c" using assms(2,3) by (elim disjE conjE) simp_all
  ultimately show ?thesis using hi by (intro exI [of _ ?c]) (simp add: scalar_def)
qed

lemma utf8_encode_4:
  assumes "a < 5" "y < 64" "z < 64" "w < 64" and "a = 0 \<longrightarrow> 16 \<le> y" "a = 4 \<longrightarrow> y < 16"
  shows "\<exists>c. scalar c \<and>
    utf8_encode c = [byte_of (0xF0 + a), byte_of (0x80 + y), byte_of (0x80 + z), byte_of (0x80 + w)]"
proof -
  let ?e = "64 * a + y"
  let ?c = "64 * (64 * ?e + z) + w"
  have m: "?c div 64 = 64 * ?e + z" "?c mod 64 = w" "(64 * ?e + z) mod 64 = z"
    "(64 * ?e + z) div 64 = ?e" "?e mod 64 = y" "?e div 64 = a"
    by (rule base64_digits [OF assms(4)] base64_digits [OF assms(3)] base64_digits [OF assms(2)])+
  have t: "?c div 4096 = ?e" using m div_mult2_eq [of ?c 64 64] by simp
  have u: "?c div 262144 = a" using m t div_mult2_eq [of ?c 4096 64] by simp
  have "16 \<le> y \<or> 1 \<le> a" using assms(5) by auto
  then have lo: "0x10000 \<le> ?c" by (elim disjE) simp_all
  have "a < 4 \<or> a = 4 \<and> y < 16" using assms(1,6) by auto
  then have hi: "?c < 0x110000" using assms(2-4) by (elim disjE conjE) simp_all
  with lo have "utf8_encode ?c =
      [byte_of (0xF0 + a), byte_of (0x80 + y), byte_of (0x80 + z), byte_of (0x80 + w)]"
    using m t u by (simp only: utf8_encode_def) simp
  moreover have "scalar ?c" using lo hi by (simp add: scalar_def)
  ultimately show ?thesis by blast
qed

lemma utf8_next_decode:
  assumes "bs \<noteq> []" "fst (utf8_next bs)"
  shows "\<exists>c. scalar c \<and> take (snd (utf8_next bs)) bs = utf8_encode c"
proof -
  obtain b0 r where bs: "bs = b0 # r" using assms by (cases bs) auto
  obtain n where n: "utf8_next (b0 # r) = (True, n)"
    using assms(2) by (cases "utf8_next (b0 # r)") (simp add: bs)
  have "\<exists>c. scalar c \<and> utf8_encode c = take n (b0 # r)"
    using n
  proof (cases rule: utf8_next_cases)
    case one
    then show ?thesis
      by (intro exI [of _ "unat b0"]) (simp add: scalar_def utf8_encode_def byte_of_unat)
  next
    case (two b1 r')
    then have "2 \<le> unat b0 - 192" "unat b0 - 192 < 32" "unat b1 - 128 < 64"
      by (auto simp: is_cont_def)
    from utf8_encode_2 [OF this] two show ?thesis by (simp add: is_cont_def byte_of_unat)
  next
    case (three b1 b2 r')
    then show ?thesis
      using utf8_encode_3 [of "unat b0 - 224" "unat b1 - 128" "unat b2 - 128"] second_ok_cont [of b0 b1]
      by (auto simp: is_cont_def byte_of_unat second_ok_def Let_def split: if_splits)
  next
    case (four b1 b2 b3 r')
    then show ?thesis
      using utf8_encode_4 [of "unat b0 - 240" "unat b1 - 128" "unat b2 - 128" "unat b3 - 128"]
        second_ok_cont [of b0 b1]
      by (auto simp: is_cont_def byte_of_unat second_ok_def Let_def split: if_splits)
  qed
  with n show ?thesis by (auto simp: bs)
qed

section \<open>Acceptance is being an encoding\<close>

lemma utf8_valid_Nil [simp]: "utf8_valid []"
  by (simp add: utf8_valid.simps)

lemma utf8_valid_encode_append:
  assumes "scalar c"
  shows "utf8_valid (utf8_encode c @ rest) = utf8_valid rest"
  by (subst utf8_valid.simps) (simp add: utf8_next_encode assms utf8_encode_nonempty)

lemma utf8_valid_encodings:
  "\<forall>c \<in> set cs. scalar c \<Longrightarrow> utf8_valid (concat (map utf8_encode cs))"
  by (induction cs) (auto simp: utf8_valid_encode_append)

lemma utf8_valid_decode:
  "utf8_valid bs \<Longrightarrow> \<exists>cs. (\<forall>c \<in> set cs. scalar c) \<and> bs = concat (map utf8_encode cs)"
proof (induction bs rule: utf8_valid.induct)
  case (1 bs)
  show ?case
  proof (cases "bs = []")
    case True
    then show ?thesis by (intro exI [of _ "[]"]) simp
  next
    case False
    with "1.prems" have f: "fst (utf8_next bs)" and v: "utf8_valid (drop (snd (utf8_next bs)) bs)"
      by (auto simp: utf8_valid.simps [of bs] split: if_splits)
    with False "1.IH" obtain cs where cs: "\<forall>c \<in> set cs. scalar c"
      "drop (snd (utf8_next bs)) bs = concat (map utf8_encode cs)" by blast
    from utf8_next_decode [OF False f] obtain c
      where c: "scalar c" "take (snd (utf8_next bs)) bs = utf8_encode c" by blast
    have "bs = concat (map utf8_encode (c # cs))"
      using append_take_drop_id [of "snd (utf8_next bs)" bs] by (simp add: c cs)
    with c cs show ?thesis by (intro exI [of _ "c # cs"]) auto
  qed
qed

lemma utf8_valid_iff:
  "utf8_valid bs \<longleftrightarrow> (\<exists>cs. (\<forall>c \<in> set cs. scalar c) \<and> bs = concat (map utf8_encode cs))"
  using utf8_valid_decode utf8_valid_encodings by blast

lemma utf8_valid_append [simp]: "utf8_valid a \<Longrightarrow> utf8_valid (a @ b) = utf8_valid b"
proof -
  assume "utf8_valid a"
  then obtain cs where "\<forall>c \<in> set cs. scalar c" "a = concat (map utf8_encode cs)"
    using utf8_valid_iff by blast
  then show ?thesis
    by (induction cs arbitrary: a) (simp_all add: utf8_valid_encode_append)
qed

lemma utf8_valid_ascii: "\<forall>b \<in> set bs. unat b < 128 \<Longrightarrow> utf8_valid bs"
proof (induction bs)
  case (Cons b bs)
  then have "utf8_next (b # bs) = (True, 1)" by (simp add: utf8_next.simps utf8_char_width_def)
  with Cons show ?case by (simp add: utf8_valid.simps [of "b # bs"])
qed simp

text \<open>The lossy conversion returns a string, and leaves a string as it is.\<close>

lemma from_utf8_lossy_valid: "utf8_valid (from_utf8_lossy bs)"
proof (induction bs rule: from_utf8_lossy.induct)
  case (1 bs)
  show ?case
  proof (cases "bs = []")
    case False
    have rep: "utf8_valid [0xEF, 0xBF, 0xBD]"
      by (simp add: utf8_valid.simps [of "[0xEF, 0xBF, 0xBD]"] utf8_next.simps utf8_scan_defs safe_get_def)
    have "utf8_valid (if fst (utf8_next bs) then take (snd (utf8_next bs)) bs else [0xEF, 0xBF, 0xBD])"
      using utf8_next_decode [OF False] rep utf8_valid_encode_append [of _ "[]"] by force
    with False "1.IH" show ?thesis by (simp add: from_utf8_lossy.simps [of bs])
  qed (simp add: from_utf8_lossy.simps)
qed

lemma from_utf8_lossy_id: "utf8_valid bs \<Longrightarrow> from_utf8_lossy bs = bs"
proof (induction bs rule: from_utf8_lossy.induct)
  case (1 bs)
  then show ?case
    by (cases "bs = []")
      (auto simp: from_utf8_lossy.simps [of "[]"] from_utf8_lossy.simps [of bs] utf8_valid.simps [of bs] split: if_splits)
qed

end
