(* ===== verification/Primitives.thy ===== *)
theory Primitives imports Utf8 begin

text \<open>
  The leaf readers and writers of \<open>src/codec.rs\<close> (\<open>read_u8\<close> to \<open>read_bytes\<close>, the variable byte
  integer, \<open>write_u16\<close> to \<open>write_bytes\<close>), and the interface \<open>field_codec\<close> between a field's writer
  and its reader, on which every record and packet of the codec is built.

  A reader takes \<open>buf: &mut &[u8]\<close>: the model is given the slice and returns the value with the
  slice left over. What a failing reader leaves in \<open>buf\<close> is not observable, since every caller
  returns the error with \<open>?\<close>. A writer appends to a vector: the model is the bytes it appends.
\<close>

section \<open>Errors and decoders\<close>

datatype codec_error =
    Incomplete
  | InvalidVarint
  | MalformedPacket
  | UnsupportedProtocolVersion u8

type_synonym 'a decoder = "bytes \<Rightarrow> ('a \<times> bytes, codec_error) outcome"

text \<open>The slice expression \<open>&buf[n..]\<close>, which panics out of range.\<close>

definition slice_from :: "nat \<Rightarrow> bytes \<Rightarrow> (bytes, codec_error) outcome" where
  "slice_from n buf = (if n \<le> length buf then Ok (drop n buf) else Panic)"

text \<open>Arithmetic on \<open>u32\<close> with the overflow check of a debug build.\<close>

definition add_u32 :: "u32 \<Rightarrow> u32 \<Rightarrow> (u32, codec_error) outcome" where
  "add_u32 a b = (if unat a + unat b < 2 ^ 32 then Ok (a + b) else Panic)"

definition mul_u32 :: "u32 \<Rightarrow> u32 \<Rightarrow> (u32, codec_error) outcome" where
  "mul_u32 a b = (if unat a * unat b < 2 ^ 32 then Ok (a * b) else Panic)"

section \<open>Readers\<close>

definition read_u8 :: "u8 decoder" where
  "read_u8 buf = (case buf of [] \<Rightarrow> Err Incomplete | b # rest \<Rightarrow> Ok (b, rest))"

definition u16_from_be_bytes :: "u8 \<Rightarrow> u8 \<Rightarrow> u16" where
  "u16_from_be_bytes a b = push_bit 8 (ucast a) OR ucast b"

definition u32_from_be_bytes :: "u8 \<Rightarrow> u8 \<Rightarrow> u8 \<Rightarrow> u8 \<Rightarrow> u32" where
  "u32_from_be_bytes a b c d =
     push_bit 24 (ucast a) OR push_bit 16 (ucast b) OR push_bit 8 (ucast c) OR ucast d"

definition read_u16 :: "u16 decoder" where
  "read_u16 buf =
     (if length buf < 2 then Err Incomplete
      else Ok (u16_from_be_bytes (buf ! 0) (buf ! 1), drop 2 buf))"

definition read_u32 :: "u32 decoder" where
  "read_u32 buf =
     (if length buf < 4 then Err Incomplete
      else Ok (u32_from_be_bytes (buf ! 0) (buf ! 1) (buf ! 2) (buf ! 3), drop 4 buf))"

definition read_str :: "rstr decoder" where
  "read_str buf =
     and_then (read_u16 buf) (\<lambda>(n, buf).
       if length buf < unat n then Err Incomplete
       else if \<not> utf8_valid (take (unat n) buf) then Err MalformedPacket
       else Ok (take (unat n) buf, drop (unat n) buf))"

definition read_bytes :: "bytes decoder" where
  "read_bytes buf =
     and_then (read_u16 buf) (\<lambda>(n, buf).
       if length buf < unat n then Err Incomplete
       else Ok (take (unat n) buf, drop (unat n) buf))"

text \<open>The \<open>for\<close> loop of \<open>decode_varint\<close> with its three variables.\<close>

fun decode_varint_loop :: "u32 \<Rightarrow> u32 \<Rightarrow> nat \<Rightarrow> bytes \<Rightarrow> (u32 \<times> nat, codec_error) outcome" where
  "decode_varint_loop multiplier value bytes_read [] = Err Incomplete"
| "decode_varint_loop multiplier value bytes_read (byte # buf) =
     and_then (mul_u32 (ucast (byte AND 127)) multiplier) (\<lambda>d.
     and_then (add_u32 value d) (\<lambda>value.
       if byte AND 128 = 0 then Ok (value, bytes_read + 1)
       else if 128 * 128 * 128 \<le> multiplier then Err InvalidVarint
       else and_then (mul_u32 multiplier 128) (\<lambda>multiplier.
         decode_varint_loop multiplier value (bytes_read + 1) buf)))"

definition decode_varint :: "bytes \<Rightarrow> (u32 \<times> nat, codec_error) outcome" where
  "decode_varint buf = decode_varint_loop 1 0 0 buf"

text \<open>The idiom \<open>let (v, read) = decode_varint(buf)?; buf = &buf[read..];\<close>\<close>

definition take_varint :: "u32 decoder" where
  "take_varint buf =
     and_then (decode_varint buf) (\<lambda>(v, read).
     and_then (slice_from read buf) (\<lambda>buf. Ok (v, buf)))"

section \<open>Writers\<close>

definition u16_to_be_bytes :: "u16 \<Rightarrow> bytes" where
  "u16_to_be_bytes v = [ucast (drop_bit 8 v), ucast v]"

definition u32_to_be_bytes :: "u32 \<Rightarrow> bytes" where
  "u32_to_be_bytes v =
     [ucast (drop_bit 24 v), ucast (drop_bit 16 v), ucast (drop_bit 8 v), ucast v]"

definition write_u16 :: "u16 \<Rightarrow> bytes" where
  "write_u16 v = u16_to_be_bytes v"

definition write_u32 :: "u32 \<Rightarrow> bytes" where
  "write_u32 v = u32_to_be_bytes v"

text \<open>\<open>s.len() as u16\<close> truncates; \<open>of_nat\<close> into a 16-bit word does the same.\<close>

definition write_str :: "rstr \<Rightarrow> bytes" where
  "write_str s = write_u16 (of_nat (length s)) @ s"

definition write_bytes :: "bytes \<Rightarrow> bytes" where
  "write_bytes data = write_u16 (of_nat (length data)) @ data"

function encode_varint :: "u32 \<Rightarrow> bytes" where
  "encode_varint val =
     (let byte = ucast (val mod 128); val = val div 128 in
      if 0 < val then (byte OR 128) # encode_varint val else [byte])"
  by pat_completeness auto
termination
proof (relation "measure unat")
  fix val v :: u32 and byte :: u8
  assume v: "v = val div 128" and pos: "0 < v"
  have "0 < unat val"
    using v pos by (cases "unat val = 0") (auto simp: unat_eq_0 unat_gt_0)
  then have "unat val div 128 < unat val" by simp
  then show "(v, val) \<in> measure unat" by (simp add: v unat_div)
qed simp

declare encode_varint.simps [simp del]

section \<open>Big-endian integers\<close>

lemma u16_be_roundtrip: "u16_from_be_bytes (ucast (drop_bit 8 v)) (ucast v) = v"
  unfolding u16_from_be_bytes_def
  by (rule bit_word_eqI) (auto simp: bit_simps)

lemma u32_be_roundtrip:
  "u32_from_be_bytes (ucast (drop_bit 24 v)) (ucast (drop_bit 16 v)) (ucast (drop_bit 8 v)) (ucast v) = v"
proof (rule bit_word_eqI)
  fix n
  assume "n < LENGTH(32)"
  then consider "n < 8" | "8 \<le> n" "n < 16" | "16 \<le> n" "n < 24" | "24 \<le> n" "n < 32"
    by fastforce
  then show "bit (u32_from_be_bytes (ucast (drop_bit 24 v)) (ucast (drop_bit 16 v))
      (ucast (drop_bit 8 v)) (ucast v)) n = bit v n"
    by cases (auto simp: u32_from_be_bytes_def bit_simps)
qed

lemma bit_u8_ge: "8 \<le> n \<Longrightarrow> \<not> bit (b :: u8) n"
  using bit_imp_le_length [of b n] by auto

lemma u16_to_from: "u16_to_be_bytes (u16_from_be_bytes a b) = [a, b]"
  unfolding u16_to_be_bytes_def u16_from_be_bytes_def
  by (auto intro!: bit_word_eqI simp: bit_simps bit_u8_ge)

lemma u32_to_from: "u32_to_be_bytes (u32_from_be_bytes a b c d) = [a, b, c, d]"
  unfolding u32_to_be_bytes_def u32_from_be_bytes_def
  by (auto intro!: bit_word_eqI simp: bit_simps bit_u8_ge)

lemma length_write [simp]:
  "length (u16_to_be_bytes v) = 2" "length (u32_to_be_bytes w) = 4"
  "length (write_u16 v) = 2" "length (write_u32 w) = 4"
  "length (write_str s) = 2 + length s" "length (write_bytes s) = 2 + length s"
  by (simp_all add: u16_to_be_bytes_def u32_to_be_bytes_def write_u16_def write_u32_def
      write_str_def write_bytes_def)

section \<open>Each reader undoes its writer\<close>

lemma read_u8_Cons [simp]: "read_u8 (b # rest) = Ok (b, rest)"
  by (simp add: read_u8_def)

lemma read_u8_Nil [simp]: "read_u8 [] = Err Incomplete"
  by (simp add: read_u8_def)

lemma read_u16_write [simp]: "read_u16 (write_u16 v @ rest) = Ok (v, rest)"
  by (simp add: read_u16_def write_u16_def u16_to_be_bytes_def u16_be_roundtrip)

lemma read_u32_write [simp]: "read_u32 (write_u32 v @ rest) = Ok (v, rest)"
  by (simp add: read_u32_def write_u32_def u32_to_be_bytes_def u32_be_roundtrip numeral_3_eq_3
      numeral_2_eq_2)

lemma unat_length_u16: "n < 2 ^ 16 \<Longrightarrow> unat (of_nat n :: u16) = n"
  by (simp add: unat_of_nat)

lemma read_str_write:
  assumes "utf8_valid s" "length s < 2 ^ 16"
  shows "read_str (write_str s @ rest) = Ok (s, rest)"
  using assms by (simp add: read_str_def write_str_def unat_length_u16)

lemma read_bytes_write:
  assumes "length s < 2 ^ 16"
  shows "read_bytes (write_bytes s @ rest) = Ok (s, rest)"
  using assms by (simp add: read_bytes_def write_bytes_def unat_length_u16)

section \<open>Each writer undoes its reader\<close>

lemma read_u8_Ok: "read_u8 buf = Ok (b, rest) \<longleftrightarrow> buf = b # rest"
  by (cases buf) auto

lemma read_u16_Ok: "read_u16 buf = Ok (v, rest) \<longleftrightarrow> buf = write_u16 v @ rest"
proof
  assume *: "read_u16 buf = Ok (v, rest)"
  then obtain a b r where "buf = a # b # r"
    by (cases buf; cases "tl buf") (auto simp: read_u16_def)
  with * show "buf = write_u16 v @ rest"
    using u16_to_from [of a b] by (auto simp: read_u16_def write_u16_def)
qed simp

lemma read_u32_Ok: "read_u32 buf = Ok (v, rest) \<longleftrightarrow> buf = write_u32 v @ rest"
proof
  assume *: "read_u32 buf = Ok (v, rest)"
  then have "4 \<le> length buf" by (auto simp: read_u32_def split: if_splits)
  then obtain a b c d r where "buf = a # b # c # d # r"
    by (auto simp: numeral_eq_Suc Suc_le_length_iff)
  with * show "buf = write_u32 v @ rest"
    using u32_to_from [of a b c d] by (auto simp: read_u32_def write_u32_def numeral_3_eq_3 numeral_2_eq_2)
qed simp

lemma of_nat_length_take: "unat (n :: u16) \<le> length buf \<Longrightarrow> of_nat (length (take (unat n) buf)) = n"
  by (simp add: min_absorb2)

lemma read_str_Ok:
  "read_str buf = Ok (s, rest) \<longleftrightarrow> buf = write_str s @ rest \<and> utf8_valid s \<and> length s < 2 ^ 16"
proof
  assume "read_str buf = Ok (s, rest)"
  then obtain n r where "read_u16 buf = Ok (n, r)" "unat n \<le> length r"
    "s = take (unat n) r" "rest = drop (unat n) r" "utf8_valid s"
    by (auto simp: read_str_def and_then_Ok_iff split: if_splits)
  then show "buf = write_str s @ rest \<and> utf8_valid s \<and> length s < 2 ^ 16"
    using unat_u16_less [of n] by (auto simp: read_u16_Ok write_str_def min_absorb2)
qed (simp add: read_str_write)

lemma read_bytes_Ok:
  "read_bytes buf = Ok (s, rest) \<longleftrightarrow> buf = write_bytes s @ rest \<and> length s < 2 ^ 16"
proof
  assume "read_bytes buf = Ok (s, rest)"
  then obtain n r where "read_u16 buf = Ok (n, r)" "unat n \<le> length r"
    "s = take (unat n) r" "rest = drop (unat n) r"
    by (auto simp: read_bytes_def and_then_Ok_iff split: if_splits)
  then show "buf = write_bytes s @ rest \<and> length s < 2 ^ 16"
    using unat_u16_less [of n] by (auto simp: read_u16_Ok write_bytes_def min_absorb2)
qed (simp add: read_bytes_write)

end
