(* ===== verification/Varint.thy ===== *)
theory Varint imports Primitives begin

text \<open>
  The variable byte integer. \<open>decode_varint\<close> is characterised on every input: its result is a
  function of the leading run of bytes with the continuation bit set, the value is the base-128 number
  those bytes spell over unbounded naturals, and no \<open>u32\<close> operation of the loop overflows.
\<close>

section \<open>Bytes of a variable byte integer\<close>

definition has_more :: "u8 \<Rightarrow> bool" where
  "has_more byte \<longleftrightarrow> byte AND 128 \<noteq> 0"

text \<open>The number a group of bytes spells, least significant group of seven bits first.\<close>

fun varint_nat :: "bytes \<Rightarrow> nat" where
  "varint_nat [] = 0"
| "varint_nat (b # bs) = unat b mod 128 + 128 * varint_nat bs"

lemma and_127_take_bit: "byte AND 127 = take_bit 7 byte" for byte :: u8
proof -
  have "(127 :: u8) = mask 7" by (simp add: mask_eq_exp_minus_1)
  then show ?thesis by (simp add: take_bit_eq_mask)
qed

lemma unat_and_127: "unat (byte AND 127) = unat byte mod 128" for byte :: u8
  by (simp add: and_127_take_bit take_bit_eq_mod unat_mod)

lemma has_more_bit: "has_more byte \<longleftrightarrow> bit byte 7"
  using and_exp_eq_0_iff_not_bit [of byte 7] by (simp add: has_more_def)

lemma ucast_group: "(ucast (byte AND 127) :: u32) = of_nat (unat byte mod 128)" for byte :: u8
  by (metis unat_and_127 of_nat_unat)

lemma varint_nat_less: "varint_nat bs < 128 ^ length bs"
proof (induction bs)
  case (Cons b bs)
  have "unat b mod 128 < 128" by simp
  with Cons show ?case by simp
qed simp

lemma unat_pow128: "k < 4 \<Longrightarrow> unat (128 ^ k :: u32) = 128 ^ k"
proof -
  assume "k < 4"
  then consider "k = 0" | "k = 1" | "k = 2" | "k = 3" by linarith
  then show ?thesis by cases simp_all
qed

section \<open>Decoding\<close>

text \<open>One turn of the loop: neither the product nor the sum overflows.\<close>

lemma varint_turn:
  fixes acc x :: u32
  assumes "k < 4" and "unat acc < 128 ^ k" and "unat x < 128"
  shows "mul_u32 x (128 ^ k) = Ok (x * 128 ^ k)" and "add_u32 acc (x * 128 ^ k) = Ok (acc + x * 128 ^ k)"
    and "unat (acc + x * 128 ^ k) < 128 ^ Suc k"
proof -
  have "(128::nat) ^ k \<le> 128 ^ 3" using assms(1) by (intro power_increasing) auto
  then have k3: "(128::nat) ^ k \<le> 2097152" by simp
  have prod: "unat x * 128 ^ k \<le> 127 * 128 ^ k" using assms(3) by (intro mult_le_mono1) simp
  have "unat acc + unat x * 128 ^ k < 128 ^ k + 127 * 128 ^ k"
    using assms(2) prod by (rule add_less_le_mono)
  then have sum: "unat acc + unat x * 128 ^ k < 128 ^ Suc k" by simp
  also have "\<dots> \<le> 128 * 2097152" using k3 by simp
  finally have small: "unat acc + unat x * 128 ^ k < 2 ^ 32" by simp
  then show "mul_u32 x (128 ^ k) = Ok (x * 128 ^ k)"
    using assms(1) by (simp add: mul_u32_def unat_pow128)
  have uprod: "unat (x * 128 ^ k) = unat x * 128 ^ k"
    using small assms(1) by (simp add: unat_word_ariths unat_pow128)
  show "add_u32 acc (x * 128 ^ k) = Ok (acc + x * 128 ^ k)"
    using small by (simp add: add_u32_def uprod)
  show "unat (acc + x * 128 ^ k) < 128 ^ Suc k"
    using sum small by (simp add: unat_word_ariths(1) uprod)
qed

lemma varint_last_turn: "k < 4 \<Longrightarrow> 128 * 128 * 128 \<le> (128 ^ k :: u32) \<longleftrightarrow> k = 3"
proof -
  assume "k < 4"
  then consider "k = 0" | "k = 1" | "k = 2" | "k = 3" by linarith
  then show ?thesis by cases (simp_all add: word_le_nat_alt)
qed

lemma varint_next_turn: "Suc k < 4 \<Longrightarrow> mul_u32 (128 ^ k) 128 = Ok (128 ^ Suc k)"
proof -
  assume "Suc k < 4"
  then have "(128::nat) ^ k \<le> 128 ^ 2" by (intro power_increasing) auto
  with \<open>Suc k < 4\<close> show ?thesis by (simp add: mul_u32_def unat_pow128 mult.commute)
qed

lemma decode_varint_loop_spec:
  assumes "k < 4" and "unat acc < 128 ^ k"
  shows "decode_varint_loop (128 ^ k) acc n b =
    (let p = takeWhile has_more b in
     if 4 - k \<le> length p then Err InvalidVarint
     else if length p = length b then Err Incomplete
     else Ok (acc + of_nat (varint_nat (take (Suc (length p)) b)) * 128 ^ k, n + Suc (length p)))"
  using assms
proof (induction b arbitrary: k acc n)
  case Nil
  then show ?case by simp
next
  case (Cons byte b)
  define x :: u32 where "x = ucast (byte AND 127)"
  have ux: "unat x = unat byte mod 128"
    by (simp add: x_def ucast_group unat_of_nat)
  then have "unat x < 128" by simp
  note turn = varint_turn [OF Cons.prems this] and le = varint_last_turn [OF Cons.prems(1)]
  show ?case
  proof (cases "has_more byte")
    case False
    then show ?thesis using Cons.prems(1) turn(1,2) ux
      by (simp add: x_def [symmetric] has_more_def) (simp add: x_def ucast_group)
  next
    case True
    show ?thesis
    proof (cases "k = 3")
      case True
      with \<open>has_more byte\<close> show ?thesis using turn(1,2) le
        by (simp add: x_def [symmetric] has_more_def Let_def)
    next
      case False
      with Cons.prems(1) have k2: "Suc k < 4" by simp
      have "x = of_nat (unat byte mod 128)" by (simp add: x_def ucast_group)
      with varint_next_turn [OF k2] show ?thesis
        using \<open>has_more byte\<close> False turn(1,2) le Cons.IH [OF k2 turn(3), of "Suc n"] k2
        by (simp add: x_def [symmetric] has_more_def Let_def)
          (auto simp: algebra_simps)
    qed
  qed
qed

text \<open>The whole function, on every buffer.\<close>

definition varint_spec :: "bytes \<Rightarrow> (u32 \<times> nat, codec_error) outcome" where
  "varint_spec buf =
     (let p = takeWhile has_more buf in
      if 4 \<le> length p then Err InvalidVarint
      else if length p = length buf then Err Incomplete
      else Ok (of_nat (varint_nat (take (Suc (length p)) buf)), Suc (length p)))"

lemma decode_varint_spec: "decode_varint buf = varint_spec buf"
  using decode_varint_loop_spec [of 0 0 0 buf]
  by (simp add: decode_varint_def varint_spec_def Let_def)

lemma varint_nat_small: "length bs \<le> 4 \<Longrightarrow> varint_nat bs < 2 ^ 28"
proof -
  assume "length bs \<le> 4"
  then have "(128::nat) ^ length bs \<le> 128 ^ 4" by (intro power_increasing) auto
  with varint_nat_less [of bs] show ?thesis by simp
qed

lemma decode_varint_Ok:
  assumes "decode_varint buf = Ok (v, n)"
  shows "0 < n" "n \<le> 4" "n \<le> length buf" "unat v = varint_nat (take n buf)" "unat v < 2 ^ 28"
proof -
  let ?p = "takeWhile has_more buf"
  from assms have len: "length ?p < 4" "length ?p \<noteq> length buf" "n = Suc (length ?p)"
    and v: "v = of_nat (varint_nat (take n buf))"
    by (auto simp: decode_varint_spec varint_spec_def Let_def split: if_splits)
  have "length ?p \<le> length buf" by (rule length_takeWhile_le)
  with len show n: "0 < n" "n \<le> 4" "n \<le> length buf" by auto
  from n have "varint_nat (take n buf) < 2 ^ 28" by (intro varint_nat_small) simp
  then show "unat v = varint_nat (take n buf)" "unat v < 2 ^ 28"
    by (simp_all add: v unat_of_nat)
qed

lemma decode_varint_no_panic [simp]: "decode_varint buf \<noteq> Panic"
  by (auto simp: decode_varint_spec varint_spec_def Let_def)

text \<open>Bytes after the integer do not change it; with fewer bytes it is incomplete.\<close>

lemma decode_varint_append: "decode_varint buf = Ok (v, n) \<Longrightarrow> decode_varint (buf @ rest) = Ok (v, n)"
proof -
  assume *: "decode_varint buf = Ok (v, n)"
  then have "length (takeWhile has_more buf) < length buf"
    using length_takeWhile_le [of has_more buf]
    by (auto simp: decode_varint_spec varint_spec_def Let_def split: if_splits)
  then have "takeWhile has_more (buf @ rest) = takeWhile has_more buf"
    by (metis takeWhile_eq_all_conv takeWhile_append1 less_irrefl)
  with * \<open>length (takeWhile has_more buf) < length buf\<close> show ?thesis
    by (auto simp: decode_varint_spec varint_spec_def Let_def split: if_splits)
qed

lemma decode_varint_prefix:
  assumes "decode_varint buf = Ok (v, n)" and "n \<le> m"
  shows "decode_varint (take m buf) = Ok (v, n)"
proof -
  let ?p = "takeWhile has_more buf"
  from assms have n: "n = Suc (length ?p)" and l: "length ?p < length buf"
    using length_takeWhile_le [of has_more buf]
    by (auto simp: decode_varint_spec varint_spec_def Let_def split: if_splits)
  have t: "take n buf = ?p @ [buf ! length ?p]"
    using takeWhile_eq_take [of has_more buf] l by (simp add: n take_Suc_conv_app_nth)
  have "\<not> has_more (buf ! length ?p)" using l by (rule nth_length_takeWhile)
  then have "takeWhile has_more (take n buf) = ?p"
    unfolding t by (simp add: takeWhile_append)
  with assms(1) n l have "decode_varint (take n buf) = Ok (v, n)"
    by (auto simp: decode_varint_spec varint_spec_def Let_def min_absorb2 split: if_splits)
  moreover have "take m buf = take n buf @ take (m - n) (drop n buf)"
    using assms(2) by (metis le_add_diff_inverse take_add)
  ultimately show ?thesis using decode_varint_append by metis
qed

lemma take_varint_alt:
  "take_varint buf = and_then (decode_varint buf) (\<lambda>(v, n). Ok (v, drop n buf))"
  using decode_varint_Ok(3) [of buf]
  by (cases "decode_varint buf") (auto simp: take_varint_def slice_from_def)

lemma take_varint_no_panic [simp]: "take_varint buf \<noteq> Panic"
  by (auto simp: take_varint_alt and_then_Panic_iff)

lemma take_varint_shrinks: "take_varint buf = Ok (v, rest) \<Longrightarrow> length rest < length buf"
  using decode_varint_Ok(1,3) by (fastforce simp: take_varint_alt and_then_Ok_iff)

lemma take_varint_bound: "take_varint buf = Ok (v, rest) \<Longrightarrow> unat v < 2 ^ 28"
  using decode_varint_Ok(5) by (fastforce simp: take_varint_alt and_then_Ok_iff)

section \<open>Encoding\<close>

lemma unat_div128: "unat (v div 128 :: u32) = unat v div 128"
  by (simp add: unat_div)

lemma unat_group: "unat (ucast (v mod 128 :: u32) :: u8) = unat v mod 128"
  by (simp add: unsigned_ucast_eq unat_mod take_bit_eq_mod)

text \<open>Setting bit 7 of a byte below 128 keeps its value and marks it.\<close>

lemma group_or_128:
  assumes "unat b < 128"
  shows "has_more (b OR 128)" "unat (b OR 128) mod 128 = unat b" "\<not> has_more b"
proof -
  have p: "(128 :: u8) = 2 ^ 7" by simp
  have b7: "take_bit 7 b = b"
    using assms by (simp add: word_unat_eq_iff take_bit_eq_mod unat_mod)
  moreover have "\<not> bit (take_bit 7 b) 7" by (simp add: bit_simps)
  ultimately have "\<not> bit b 7" by simp
  then show "\<not> has_more b" by (simp add: has_more_bit)
  show "has_more (b OR 128)"
    unfolding has_more_bit p by (simp add: bit_simps)
  have "take_bit 7 (b OR 128) = take_bit 7 b"
    unfolding p by (rule bit_word_eqI) (auto simp: bit_simps)
  then have "unat (take_bit 7 (b OR 128)) = unat (take_bit 7 b)" by simp
  then show "unat (b OR 128) mod 128 = unat b"
    using assms by (simp add: take_bit_eq_mod unat_mod)
qed

lemma div128_pos: "0 < (v div 128 :: u32) \<longleftrightarrow> 128 \<le> unat v"
  by (simp add: word_less_nat_alt unat_div128 div_greater_zero_iff)

lemma encode_varint_small:
  "unat v < 128 \<Longrightarrow> encode_varint v = [ucast (v mod 128)]"
  by (subst encode_varint.simps) (simp add: div128_pos Let_def)

lemma encode_varint_big:
  "128 \<le> unat v \<Longrightarrow> encode_varint v = (ucast (v mod 128) OR 128) # encode_varint (v div 128)"
  by (subst encode_varint.simps) (simp add: div128_pos Let_def)

lemma encode_varint_induct [case_names small big]:
  assumes "\<And>v. unat v < 128 \<Longrightarrow> P v" and "\<And>v. 128 \<le> unat v \<Longrightarrow> P (v div 128) \<Longrightarrow> P v"
  shows "P (v :: u32)"
proof (induction "unat v" arbitrary: v rule: less_induct)
  case less
  show ?case
  proof (cases "unat v < 128")
    case False
    then have "unat (v div 128) < unat v" by (simp add: unat_div128)
    then have "P (v div 128)" by (rule less)
    with False show ?thesis by (intro assms(2) [of v]) auto
  qed (simp add: assms(1))
qed

text \<open>Every byte but the last is marked, and the bytes spell the value.\<close>

lemma encode_varint_shape:
  "\<exists>p l. encode_varint v = p @ [l] \<and> (\<forall>b \<in> set p. has_more b) \<and> \<not> has_more l
     \<and> varint_nat (encode_varint v) = unat v"
proof (induction v rule: encode_varint_induct)
  case (small v)
  then show ?case
    using group_or_128(3) [of "ucast (v mod 128)"]
    by (intro exI [of _ "[]"]) (simp add: encode_varint_small unat_group)
next
  case (big v)
  then obtain p l where *: "encode_varint (v div 128) = p @ [l]" "\<forall>b \<in> set p. has_more b" "\<not> has_more l"
    "varint_nat (encode_varint (v div 128)) = unat (v div 128)" by blast
  let ?b = "ucast (v mod 128) :: u8"
  have "unat ?b < 128" by (simp add: unat_group)
  note b = group_or_128 [OF this]
  from big * b show ?case
    by (intro exI [of _ "(?b OR 128) # p"] exI [of _ l])
      (simp add: encode_varint_big unat_group unat_div128)
qed

lemma length_encode_varint_le:
  "0 < k \<Longrightarrow> length (encode_varint v) \<le> k \<longleftrightarrow> unat v < 128 ^ k"
proof (induction v arbitrary: k rule: encode_varint_induct)
  case (small v)
  then have "(128::nat) ^ 1 \<le> 128 ^ k" by (intro power_increasing) auto
  with small show ?case by (simp add: encode_varint_small)
next
  case (big v)
  show ?case
  proof (cases "k = 1")
    case True
    with big show ?thesis by (simp add: encode_varint_big) (auto simp: encode_varint.simps Let_def)
  next
    case False
    with big.prems obtain j where k: "k = Suc j" "0 < j" by (cases k) auto
    have "unat v div 128 < 128 ^ j \<longleftrightarrow> unat v < 128 ^ Suc j"
      by (simp add: div_less_iff_less_mult mult.commute)
    with big k show ?thesis by (simp add: encode_varint_big unat_div128)
  qed
qed

lemma encode_varint_nonempty [simp]: "encode_varint v \<noteq> []"
  using encode_varint_shape [of v] by auto

lemma takeWhile_encode_varint:
  "length (takeWhile has_more (encode_varint v @ rest)) = length (encode_varint v) - 1"
  using encode_varint_shape [of v] by (auto simp: takeWhile_append2)

lemma decode_encode_varint:
  "decode_varint (encode_varint v @ rest) =
     (if unat v < 2 ^ 28 then Ok (v, length (encode_varint v)) else Err InvalidVarint)"
proof -
  let ?e = "encode_varint v"
  have len: "Suc (length (takeWhile has_more (?e @ rest))) = length ?e"
    using takeWhile_encode_varint [of v rest] by (simp add: Suc_diff_1)
  have "length ?e \<le> 4 \<longleftrightarrow> unat v < 2 ^ 28"
    using length_encode_varint_le [of 4 v] by simp
  moreover have "varint_nat (take (length ?e) (?e @ rest)) = unat v"
    using encode_varint_shape [of v] by auto
  ultimately show ?thesis
    using len by (auto simp: decode_varint_spec varint_spec_def Let_def)
qed

lemma take_encode_varint: "unat v < 2 ^ 28 \<Longrightarrow> take_varint (encode_varint v @ rest) = Ok (v, rest)"
  by (simp add: take_varint_alt decode_encode_varint)

end
