(* ===== verification/Field_Codec.thy ===== *)
theory Field_Codec imports Varint begin

text \<open>
  How the codec puts fields together: the loop \<open>while !buf.is_empty()\<close>, the interface between the
  writer and the reader of one field, and the framing that all seven property records share (a
  length as a variable byte integer, then the properties, each an identifier byte and a value).
\<close>

section \<open>The loop over a slice\<close>

text \<open>
  The loop of the source has no bound: it runs while the slice is not empty. A body that did not
  shrink the slice would run for ever; the model answers \<open>Panic\<close> there, to be total, and
  \<open>loop_body\<close> shows that for every body of the codec that branch is never taken
  (\<open>loop_unfold\<close> is the source's loop, without it).
\<close>

function dloop :: "('s \<Rightarrow> bytes \<Rightarrow> ('s \<times> bytes, 'e) outcome) \<Rightarrow> 's \<Rightarrow> bytes \<Rightarrow> ('s, 'e) outcome" where
  "dloop body s buf =
     (if buf = [] then Ok s
      else and_then (body s buf) (\<lambda>(s', buf').
        if length buf' < length buf then dloop body s' buf' else Panic))"
  by pat_completeness auto
termination
  by (relation "measure (\<lambda>(_, _, buf). length buf)") auto

declare dloop.simps [simp del]

lemma dloop_Nil [simp]: "dloop body s [] = Ok s"
  by (simp add: dloop.simps)

locale loop_body =
  fixes body :: "'s \<Rightarrow> bytes \<Rightarrow> ('s \<times> bytes, 'e) outcome"
  assumes shrinks: "body s buf = Ok (s', buf') \<Longrightarrow> length buf' < length buf"
    and no_panic: "body s buf \<noteq> Panic"
begin

lemma loop_unfold:
  "dloop body s buf =
     (if buf = [] then Ok s else and_then (body s buf) (\<lambda>(s', buf'). dloop body s' buf'))"
  using shrinks by (subst dloop.simps) (auto intro!: and_then_cong)

lemma loop_step:
  assumes "body s (chunk @ rest) = Ok (s', rest)"
  shows "dloop body s (chunk @ rest) = dloop body s' rest"
proof -
  have "chunk @ rest \<noteq> []" using shrinks [OF assms] by auto
  then have "dloop body s (chunk @ rest) =
      and_then (body s (chunk @ rest)) (\<lambda>(s', buf'). dloop body s' buf')"
    by (simp only: loop_unfold [of s "chunk @ rest"] if_False)
  with assms show ?thesis by simp
qed

lemma loop_induct [case_names Nil step]:
  assumes "\<And>s. P s []"
    and "\<And>s buf. buf \<noteq> [] \<Longrightarrow> (\<And>s' buf'. body s buf = Ok (s', buf') \<Longrightarrow> P s' buf') \<Longrightarrow> P s buf"
  shows "P s buf"
proof (induction "length buf" arbitrary: s buf rule: less_induct)
  case less
  show ?case
  proof (cases "buf = []")
    case False
    show ?thesis using less shrinks by (intro assms(2) [OF False]) blast
  qed (simp add: assms(1))
qed

lemma loop_no_panic: "dloop body s buf \<noteq> Panic"
proof (induction s buf rule: loop_induct)
  case (step s buf)
  with no_panic [of s buf] show ?case
    by (subst loop_unfold) (auto simp: and_then_Panic_iff)
qed simp

text \<open>
  Whatever a pass keeps of the state and the slice left over, the loop keeps: \<open>loop_invariant\<close> is
  the rule for the loop's result.
\<close>

lemma loop_invariant:
  assumes "dloop body s buf = Ok r" and "I s buf"
    and "\<And>s buf s' buf'. body s buf = Ok (s', buf') \<Longrightarrow> I s buf \<Longrightarrow> I s' buf'"
  shows "I r []"
  using assms(1,2)
proof (induction s buf rule: loop_induct)
  case (step s buf)
  from step.prems(1) step.hyps obtain s' buf'
    where "body s buf = Ok (s', buf')" "dloop body s' buf' = Ok r"
    by (subst (asm) loop_unfold) (auto simp: and_then_Ok_iff)
  with step assms(3) show ?case by blast
qed simp

end

section \<open>A field and its reader\<close>

text \<open>
  What the records rely on: on the values a field may hold, reading undoes writing and leaves the rest
  of the slice alone; a value that was read may be written; a reader takes at least one byte and never
  panics; and what it writes is no longer than what it read (a variable byte integer may be read from
  more bytes than it is written to).
\<close>

locale field_codec =
  fixes enc :: "'a \<Rightarrow> bytes" and dec :: "'a decoder" and ok :: "'a \<Rightarrow> bool"
  assumes dec_enc: "ok x \<Longrightarrow> dec (enc x @ rest) = Ok (x, rest)"
    and dec_ok: "dec buf = Ok (x, rest) \<Longrightarrow> ok x"
    and dec_shrinks: "dec buf = Ok (x, rest) \<Longrightarrow> length rest < length buf"
    and dec_no_panic: "dec buf \<noteq> Panic"
    and dec_length: "dec buf = Ok (x, rest) \<Longrightarrow> length (enc x) + length rest \<le> length buf"
begin

lemma enc_nonempty: "enc x \<noteq> []" if "ok x"
proof
  assume "enc x = []"
  with dec_enc [OF that, of "[]"] have "dec [] = Ok (x, [])" by simp
  from dec_shrinks [OF this] show False by simp
qed

text \<open>No encoding is a prefix of another one.\<close>

lemma enc_prefix_free:
  assumes "ok x" "ok y" "enc x @ r = enc y @ t"
  shows "x = y \<and> r = t"
proof -
  have "Ok (x, r) = dec (enc y @ t)" unfolding assms(3) [symmetric] dec_enc [OF assms(1)] ..
  also have "\<dots> = Ok (y, t)" by (rule dec_enc [OF assms(2)])
  finally show ?thesis by simp
qed

end

text \<open>Where a value has one encoding only, a successful read says exactly what was in the slice.\<close>

locale exact_codec = field_codec +
  assumes dec_exact: "dec buf = Ok (x, rest) \<Longrightarrow> buf = enc x @ rest"
begin

lemma dec_iff: "dec buf = Ok (x, rest) \<longleftrightarrow> ok x \<and> buf = enc x @ rest"
  using dec_enc dec_ok dec_exact by blast

end

text \<open>The strings and byte strings that a 16-bit length can announce.\<close>

definition str_ok :: "rstr \<Rightarrow> bool" where
  "str_ok s \<longleftrightarrow> utf8_valid s \<and> length s < 2 ^ 16"

definition bytes_ok :: "bytes \<Rightarrow> bool" where
  "bytes_ok s \<longleftrightarrow> length s < 2 ^ 16"

definition varint_ok :: "u32 \<Rightarrow> bool" where
  "varint_ok v \<longleftrightarrow> unat v < 2 ^ 28"

lemma read_no_panic [simp]:
  "read_u8 buf \<noteq> Panic" "read_u16 buf \<noteq> Panic" "read_u32 buf \<noteq> Panic"
  "read_str buf \<noteq> Panic" "read_bytes buf \<noteq> Panic"
proof -
  show u16: "read_u16 buf \<noteq> Panic" for buf by (simp add: read_u16_def)
  show "read_u8 buf \<noteq> Panic" "read_u32 buf \<noteq> Panic"
    by (simp_all add: read_u8_def read_u32_def split: list.splits)
  show "read_str buf \<noteq> Panic" "read_bytes buf \<noteq> Panic"
    using u16 by (auto simp: read_str_def read_bytes_def and_then_Panic_iff)
qed

interpretation u8_field: exact_codec "\<lambda>b. [b]" read_u8 "\<lambda>_. True"
  by unfold_locales (auto simp: read_u8_Ok)

interpretation u16_field: exact_codec write_u16 read_u16 "\<lambda>_. True"
  by unfold_locales (auto simp: read_u16_Ok)

interpretation u32_field: exact_codec write_u32 read_u32 "\<lambda>_. True"
  by unfold_locales (auto simp: read_u32_Ok)

interpretation str_field: exact_codec write_str read_str str_ok
  by unfold_locales (auto simp: read_str_Ok str_ok_def)

interpretation bytes_field: exact_codec write_bytes read_bytes bytes_ok
  by unfold_locales (auto simp: read_bytes_Ok bytes_ok_def)

lemma encode_varint_shortest:
  assumes "decode_varint buf = Ok (v, n)"
  shows "length (encode_varint v) \<le> n"
proof -
  have "unat v < 128 ^ n"
    using decode_varint_Ok [OF assms] varint_nat_less [of "take n buf"] by (simp add: min_absorb2)
  then show ?thesis using length_encode_varint_le decode_varint_Ok(1) [OF assms] by blast
qed

interpretation varint_field: field_codec encode_varint take_varint varint_ok
proof unfold_locales
  fix buf v rest
  assume *: "take_varint buf = Ok (v, rest)"
  then obtain n where n: "decode_varint buf = Ok (v, n)" "rest = drop n buf"
    by (auto simp: take_varint_alt and_then_Ok_iff)
  then show "length (encode_varint v) + length rest \<le> length buf"
    using encode_varint_shortest [OF n(1)] decode_varint_Ok(3) [OF n(1)] by simp
  show "varint_ok v" "length rest < length buf"
    using * take_varint_bound take_varint_shrinks by (auto simp: varint_ok_def)
qed (simp_all add: varint_ok_def take_encode_varint)

text \<open>Two fields in a row, as in \<open>let key = read_str(..)?; let val = read_str(..)?;\<close>\<close>

definition read_pair :: "'a decoder \<Rightarrow> 'b decoder \<Rightarrow> ('a \<times> 'b) decoder" where
  "read_pair dec1 dec2 buf =
     and_then (dec1 buf) (\<lambda>(x, buf). and_then (dec2 buf) (\<lambda>(y, buf). Ok ((x, y), buf)))"

definition write_pair :: "('a \<Rightarrow> bytes) \<Rightarrow> ('b \<Rightarrow> bytes) \<Rightarrow> 'a \<times> 'b \<Rightarrow> bytes" where
  "write_pair enc1 enc2 xy = enc1 (fst xy) @ enc2 (snd xy)"

definition pair_ok :: "('a \<Rightarrow> bool) \<Rightarrow> ('b \<Rightarrow> bool) \<Rightarrow> 'a \<times> 'b \<Rightarrow> bool" where
  "pair_ok ok1 ok2 xy \<longleftrightarrow> ok1 (fst xy) \<and> ok2 (snd xy)"

locale pair_codec = a: field_codec enc1 dec1 ok1 + b: field_codec enc2 dec2 ok2
  for enc1 :: "'a \<Rightarrow> bytes" and dec1 ok1 and enc2 :: "'b \<Rightarrow> bytes" and dec2 ok2

sublocale pair_codec \<subseteq> pair: field_codec "write_pair enc1 enc2" "read_pair dec1 dec2" "pair_ok ok1 ok2"
proof unfold_locales
  fix x :: "'a \<times> 'b" and buf rest
  show "pair_ok ok1 ok2 x \<Longrightarrow> read_pair dec1 dec2 (write_pair enc1 enc2 x @ rest) = Ok (x, rest)"
    by (simp add: pair_ok_def read_pair_def write_pair_def a.dec_enc b.dec_enc)
  show "read_pair dec1 dec2 buf \<noteq> Panic"
    using a.dec_no_panic b.dec_no_panic by (auto simp: read_pair_def and_then_Panic_iff)
  assume "read_pair dec1 dec2 buf = Ok (x, rest)"
  then obtain b1 where 1: "dec1 buf = Ok (fst x, b1)" and 2: "dec2 b1 = Ok (snd x, rest)"
    by (cases x) (auto simp: read_pair_def and_then_Ok_iff)
  show "pair_ok ok1 ok2 x" using a.dec_ok [OF 1] b.dec_ok [OF 2] by (simp add: pair_ok_def)
  show "length rest < length buf" using a.dec_shrinks [OF 1] b.dec_shrinks [OF 2] by simp
  show "length (write_pair enc1 enc2 x) + length rest \<le> length buf"
    using a.dec_length [OF 1] b.dec_length [OF 2] by (simp add: write_pair_def)
qed

interpretation user_property: pair_codec write_str read_str str_ok write_str read_str str_ok
  by unfold_locales

section \<open>One property of a record\<close>

text \<open>\<open>props.f = Some(read_x(&mut prop_slice)?)\<close>: read a value and store it.\<close>

definition read_into :: "'a decoder \<Rightarrow> ('a \<Rightarrow> 's) \<Rightarrow> 's decoder" where
  "read_into dec store buf = and_then (dec buf) (\<lambda>(v, buf). Ok (store v, buf))"

text \<open>\<open>if let Some(val) = self.f { temp_buf.push(id); write_x(val, &mut temp_buf); }\<close>\<close>

definition opt_prop :: "u8 \<Rightarrow> ('a \<Rightarrow> bytes) \<Rightarrow> 'a option \<Rightarrow> bytes" where
  "opt_prop tag write v = (case v of None \<Rightarrow> [] | Some val \<Rightarrow> tag # write val)"

text \<open>The loop that writes the user properties, identifier \<open>0x26\<close>.\<close>

fun write_user_properties :: "(rstr \<times> rstr) list \<Rightarrow> bytes" where
  "write_user_properties [] = []"
| "write_user_properties (kv # kvs) = 0x26 # write_pair write_str write_str kv @ write_user_properties kvs"

definition user_properties_ok :: "(rstr \<times> rstr) list \<Rightarrow> bool" where
  "user_properties_ok kvs \<longleftrightarrow> (\<forall>kv \<in> set kvs. pair_ok str_ok str_ok kv)"

lemma opt_prop_simps [simp]: "opt_prop tag write None = []" "opt_prop tag write (Some v) = tag # write v"
  by (simp_all add: opt_prop_def)

lemma write_user_properties_append [simp]:
  "write_user_properties (kvs @ kvs') = write_user_properties kvs @ write_user_properties kvs'"
  by (induction kvs) auto

lemma read_into_Ok:
  "read_into dec store buf = Ok (s, rest) \<longleftrightarrow> (\<exists>v. dec buf = Ok (v, rest) \<and> s = store v)"
  by (auto simp: read_into_def and_then_Ok_iff)

lemma read_into_Panic: "read_into dec store buf = Panic \<longleftrightarrow> dec buf = Panic"
  by (auto simp: read_into_def and_then_Panic_iff)

text \<open>
  What the loop does on the bytes of one optional property: it stores the value the record had,
  whatever it is, and goes on after them. \<open>store\<close> is the record with the field replaced.
\<close>

context field_codec
begin

lemma opt_chunk:
  assumes "loop_body body" and "pred_option ok v" and "store None = s"
    and "\<And>buf. body s (tag # buf) = read_into dec (\<lambda>x. store (Some x)) buf"
  shows "dloop body s (opt_prop tag enc v @ rest) = dloop body (store v) rest"
proof (cases v)
  case None
  with assms show ?thesis by simp
next
  case (Some x)
  from Some assms have "body s ((tag # enc x) @ rest) = Ok (store v, rest)"
    by (simp add: read_into_def dec_enc)
  from loop_body.loop_step [OF assms(1) this] Some show ?thesis by simp
qed

end

text \<open>The same for the user properties, which the reader appends one at a time.\<close>

lemma user_properties_chunk:
  assumes "loop_body body" and "user_properties_ok kvs"
    and "\<And>kvs buf. body (store kvs) (0x26 # buf) =
      read_into (read_pair read_str read_str) (\<lambda>kv. store (kvs @ [kv])) buf"
  shows "dloop body (store pre) (write_user_properties kvs @ rest) = dloop body (store (pre @ kvs)) rest"
  using assms(2)
proof (induction kvs arbitrary: pre)
  case (Cons kv kvs)
  let ?chunk = "0x26 # write_pair write_str write_str kv"
  from Cons.prems have ok: "pair_ok str_ok str_ok kv" and kvs: "user_properties_ok kvs"
    by (auto simp: user_properties_ok_def)
  have "body (store pre) (?chunk @ (write_user_properties kvs @ rest)) =
      Ok (store (pre @ [kv]), write_user_properties kvs @ rest)"
    using assms(3) [of pre] by (simp add: read_into_def user_property.pair.dec_enc [OF ok])
  from loop_body.loop_step [OF assms(1) this] Cons.IH [OF kvs, of "pre @ [kv]"] show ?case by simp
qed simp

section \<open>A property record\<close>

text \<open>
  The frame of the seven \<open>decode\<close> functions (their text is the same up to the \<open>match\<close>): an empty
  slice is the default record; otherwise a length, and the loop over that many bytes.
\<close>

definition decode_properties ::
  "('p \<Rightarrow> bytes \<Rightarrow> ('p \<times> bytes, codec_error) outcome) \<Rightarrow> 'p \<Rightarrow> 'p decoder" where
  "decode_properties step init buf =
     (if buf = [] then Ok (init, buf)
      else
        and_then (decode_varint buf) (\<lambda>(prop_len, read).
        and_then (slice_from read buf) (\<lambda>buf.
          if length buf < unat prop_len then Err Incomplete
          else
            and_then (dloop step init (take (unat prop_len) buf)) (\<lambda>props.
              Ok (props, drop (unat prop_len) buf)))))"

text \<open>The frame of the seven \<open>encode\<close> functions.\<close>

definition encode_properties :: "('p \<Rightarrow> bytes) \<Rightarrow> 'p \<Rightarrow> bytes" where
  "encode_properties body p =
     (let temp_buf = body p in encode_varint (of_nat (length temp_buf)) @ temp_buf)"

lemma decode_properties_alt:
  "decode_properties step init buf =
     (if buf = [] then Ok (init, [])
      else and_then (take_varint buf) (\<lambda>(prop_len, buf).
        if length buf < unat prop_len then Err Incomplete
        else and_then (dloop step init (take (unat prop_len) buf)) (\<lambda>props.
          Ok (props, drop (unat prop_len) buf))))"
  by (auto simp: decode_properties_def take_varint_def and_then_assoc split_def intro!: and_then_cong)

text \<open>
  What makes a record's two functions fit: the loop reads back what \<open>body\<close> writes, a pass keeps the
  record's strings and lengths within what the format can carry, and it never makes the record's
  encoding longer than the bytes it consumed.
\<close>

locale property_record = loop_body step
  for step :: "'p \<Rightarrow> bytes \<Rightarrow> ('p \<times> bytes, codec_error) outcome" +
  fixes init :: "'p" and body :: "'p \<Rightarrow> bytes" and wf :: "'p \<Rightarrow> bool"
  assumes body_loop: "wf p \<Longrightarrow> dloop step init (body p) = Ok p"
    and init_wf: "wf init"
    and init_body: "body init = []"
    and step_wf: "step p buf = Ok (p', buf') \<Longrightarrow> wf p \<Longrightarrow> wf p'"
    and step_length: "step p buf = Ok (p', buf') \<Longrightarrow>
      length (body p') + length buf' \<le> length (body p) + length buf"
begin

lemma decode_encode:
  assumes "wf p" and "length (body p) < 2 ^ 28"
  shows "decode_properties step init (encode_properties body p @ rest) = Ok (p, rest)"
proof -
  have n: "unat (of_nat (length (body p)) :: u32) = length (body p)"
    using assms(2) by (simp add: unat_of_nat)
  have "take_varint (encode_varint (of_nat (length (body p))) @ body p @ rest) =
      Ok (of_nat (length (body p)), body p @ rest)"
    using assms(2) by (intro take_encode_varint) (simp add: n)
  then show ?thesis
    by (simp add: decode_properties_alt encode_properties_def Let_def n body_loop [OF assms(1)])
qed

lemma decode_encode_le:
  assumes "wf p" and "length (encode_properties body p) \<le> n" and "n < 2 ^ 28"
  shows "decode_properties step init (encode_properties body p @ rest) = Ok (p, rest)"
  using assms by (intro decode_encode) (auto simp: encode_properties_def Let_def)

lemma decode_Ok:
  assumes "decode_properties step init buf = Ok (p, rest)"
  shows "wf p" and "length (body p) < 2 ^ 28"
    and "buf = [] \<Longrightarrow> p = init \<and> rest = []"
    and "buf \<noteq> [] \<Longrightarrow> length rest < length buf"
    and "buf \<noteq> [] \<Longrightarrow> length (encode_properties body p) + length rest \<le> length buf"
proof -
  have "wf p \<and> length (body p) < 2 ^ 28 \<and> (buf = [] \<longrightarrow> p = init \<and> rest = []) \<and>
    (buf \<noteq> [] \<longrightarrow> length rest < length buf \<and>
      length (encode_properties body p) + length rest \<le> length buf)"
  proof (cases "buf = []")
    case True
    with assms init_wf init_body show ?thesis by (auto simp: decode_properties_alt)
  next
    case False
    with assms obtain l b1 where l: "take_varint buf = Ok (l, b1)" "unat l \<le> length b1"
      and p: "dloop step init (take (unat l) b1) = Ok p" and rest: "rest = drop (unat l) b1"
      by (auto simp: decode_properties_alt and_then_Ok_iff not_less split: if_splits)
    define I :: "'p \<Rightarrow> bytes \<Rightarrow> bool" where "I q b \<longleftrightarrow> wf q \<and> length (body q) + length b \<le> unat l" for q b
    have "I p []"
      using p
    proof (rule loop_invariant)
      show "I init (take (unat l) b1)" using l by (simp add: I_def init_wf init_body)
      show "I q' b'" if "step q b = Ok (q', b')" "I q b" for q b q' b'
        using step_wf [OF that(1)] step_length [OF that(1)] that(2) by (simp add: I_def)
    qed
    then have wf: "wf p" and len: "length (body p) \<le> unat l" by (simp_all add: I_def)
    have l28: "unat l < 2 ^ 28" using l(1) take_varint_bound by blast
    with len have u: "unat (of_nat (length (body p)) :: u32) = length (body p)"
      by (simp add: unat_of_nat)
    have "length (encode_varint (of_nat (length (body p)))) \<le> length (encode_varint l)"
    proof -
      have "unat l < 128 ^ length (encode_varint l)"
        using length_encode_varint_le [of "length (encode_varint l)" l] by simp
      then show ?thesis
        using length_encode_varint_le [of "length (encode_varint l)" "of_nat (length (body p))"] len u
        by simp
    qed
    moreover have "length rest + unat l = length b1" using rest l(2) by simp
    ultimately show ?thesis
      using varint_field.dec_length [OF l(1)] varint_field.dec_shrinks [OF l(1)] len wf l28 False
      by (simp add: encode_properties_def Let_def)
  qed
  then show "wf p" and "length (body p) < 2 ^ 28" and "buf = [] \<Longrightarrow> p = init \<and> rest = []"
    and "buf \<noteq> [] \<Longrightarrow> length rest < length buf"
    and "buf \<noteq> [] \<Longrightarrow> length (encode_properties body p) + length rest \<le> length buf"
    by simp_all
qed

lemma decode_no_panic: "decode_properties step init buf \<noteq> Panic"
  using loop_no_panic
  by (auto simp: decode_properties_alt and_then_Panic_iff split: if_splits prod.splits)

end

end
