(* ===== verification/Property_Records.thy ===== *)
theory Property_Records imports Field_Codec begin

text \<open>
  The seven property records of \<open>src/codec.rs\<close>, each with the loop body of its \<open>decode\<close> (the \<open>match\<close> on
  the identifier byte), the fields its \<open>encode\<close> writes, in the source's order, and the proof that
  the two fit (\<open>property_record\<close>). Field names carry a prefix for their record, since the records
  share names.
\<close>

text \<open>Facts on the field readers, in the form the records' proofs use them.\<close>

lemmas field_ok =
  str_field.dec_ok bytes_field.dec_ok varint_field.dec_ok user_property.pair.dec_ok

lemmas field_shrinks =
  u8_field.dec_shrinks u16_field.dec_shrinks u32_field.dec_shrinks str_field.dec_shrinks
  bytes_field.dec_shrinks varint_field.dec_shrinks user_property.pair.dec_shrinks

lemmas field_length =
  u8_field.dec_length u16_field.dec_length u32_field.dec_length str_field.dec_length
  bytes_field.dec_length varint_field.dec_length user_property.pair.dec_length

lemmas field_no_panic =
  u8_field.dec_no_panic u16_field.dec_no_panic u32_field.dec_no_panic str_field.dec_no_panic
  bytes_field.dec_no_panic varint_field.dec_no_panic user_property.pair.dec_no_panic

lemmas field_chunk =
  u8_field.opt_chunk u16_field.opt_chunk u32_field.opt_chunk str_field.opt_chunk
  bytes_field.opt_chunk varint_field.opt_chunk

lemmas step_Ok = and_then_Ok_iff read_u8_Ok read_into_Ok

lemmas step_Panic = and_then_Panic_iff read_into_Panic field_no_panic

lemma pred_option_True [simp]: "pred_option (\<lambda>_. True) v"
  by (cases v) auto

lemma user_properties_ok_snoc [simp]:
  "user_properties_ok (kvs @ [kv]) \<longleftrightarrow> user_properties_ok kvs \<and> pair_ok str_ok str_ok kv"
  by (auto simp: user_properties_ok_def)

lemma user_properties_ok_Nil [simp]: "user_properties_ok []"
  by (simp add: user_properties_ok_def)

section \<open>\<open>ConnectProperties\<close>\<close>

record connect_properties =
  cp_session_expiry_interval :: "u32 option"
  cp_receive_maximum :: "u16 option"
  cp_max_packet_size :: "u32 option"
  cp_topic_alias_maximum :: "u16 option"
  cp_request_response_info :: "u8 option"
  cp_request_problem_info :: "u8 option"
  cp_user_properties :: "(rstr \<times> rstr) list"
  cp_auth_method :: "rstr option"
  cp_auth_data :: "bytes option"

definition connect_properties_default :: connect_properties where
  "connect_properties_default =
    \<lparr>cp_session_expiry_interval = None,
     cp_receive_maximum = None,
     cp_max_packet_size = None,
     cp_topic_alias_maximum = None,
     cp_request_response_info = None,
     cp_request_problem_info = None,
     cp_user_properties = [],
     cp_auth_method = None,
     cp_auth_data = None\<rparr>"

definition connect_properties_step :: "connect_properties \<Rightarrow> connect_properties decoder" where
  "connect_properties_step props buf =
     and_then (read_u8 buf) (\<lambda>(prop_id, buf).
       if prop_id = 0x11 then
         read_into read_u32 (\<lambda>v. props\<lparr>cp_session_expiry_interval := Some v\<rparr>) buf
       else if prop_id = 0x21 then
         read_into read_u16 (\<lambda>v. props\<lparr>cp_receive_maximum := Some v\<rparr>) buf
       else if prop_id = 0x27 then
         read_into read_u32 (\<lambda>v. props\<lparr>cp_max_packet_size := Some v\<rparr>) buf
       else if prop_id = 0x22 then
         read_into read_u16 (\<lambda>v. props\<lparr>cp_topic_alias_maximum := Some v\<rparr>) buf
       else if prop_id = 0x19 then
         read_into read_u8 (\<lambda>v. props\<lparr>cp_request_response_info := Some v\<rparr>) buf
       else if prop_id = 0x17 then
         read_into read_u8 (\<lambda>v. props\<lparr>cp_request_problem_info := Some v\<rparr>) buf
       else if prop_id = 0x26 then
         read_into (read_pair read_str read_str)
           (\<lambda>kv. props\<lparr>cp_user_properties := cp_user_properties props @ [kv]\<rparr>) buf
       else if prop_id = 0x15 then
         read_into read_str (\<lambda>v. props\<lparr>cp_auth_method := Some v\<rparr>) buf
       else if prop_id = 0x16 then
         read_into read_bytes (\<lambda>v. props\<lparr>cp_auth_data := Some v\<rparr>) buf
       else Err MalformedPacket)"

definition connect_properties_body :: "connect_properties \<Rightarrow> bytes" where
  "connect_properties_body props =
     opt_prop 0x11 write_u32 (cp_session_expiry_interval props) @
     opt_prop 0x21 write_u16 (cp_receive_maximum props) @
     opt_prop 0x27 write_u32 (cp_max_packet_size props) @
     opt_prop 0x22 write_u16 (cp_topic_alias_maximum props) @
     opt_prop 0x19 (\<lambda>b. [b]) (cp_request_response_info props) @
     opt_prop 0x17 (\<lambda>b. [b]) (cp_request_problem_info props) @
     write_user_properties (cp_user_properties props) @
     opt_prop 0x15 write_str (cp_auth_method props) @
     opt_prop 0x16 write_bytes (cp_auth_data props)"

definition connect_properties_decode :: "connect_properties decoder" where
  "connect_properties_decode = decode_properties connect_properties_step connect_properties_default"

definition connect_properties_encode :: "connect_properties \<Rightarrow> bytes" where
  "connect_properties_encode = encode_properties connect_properties_body"

definition wf_connect_properties :: "connect_properties \<Rightarrow> bool" where
  "wf_connect_properties props \<longleftrightarrow>
     user_properties_ok (cp_user_properties props) \<and>
     pred_option str_ok (cp_auth_method props) \<and>
     pred_option bytes_ok (cp_auth_data props)"

interpretation connect_loop: loop_body connect_properties_step
  by unfold_locales
    (auto simp: connect_properties_step_def step_Ok step_Panic split: if_splits dest!: field_shrinks)

lemma connect_chunk_session_expiry_interval:
  "cp_session_expiry_interval s = None \<Longrightarrow>
    dloop connect_properties_step s (opt_prop 0x11 write_u32 v @ rest) =
    dloop connect_properties_step (s\<lparr>cp_session_expiry_interval := v\<rparr>) rest"
  by (rule u32_field.opt_chunk [OF connect_loop.loop_body_axioms,
        where store = "\<lambda>v. s\<lparr>cp_session_expiry_interval := v\<rparr>"])
    (cases s; simp add: connect_properties_step_def)+

lemma connect_chunk_receive_maximum:
  "cp_receive_maximum s = None \<Longrightarrow>
    dloop connect_properties_step s (opt_prop 0x21 write_u16 v @ rest) =
    dloop connect_properties_step (s\<lparr>cp_receive_maximum := v\<rparr>) rest"
  by (rule u16_field.opt_chunk [OF connect_loop.loop_body_axioms,
        where store = "\<lambda>v. s\<lparr>cp_receive_maximum := v\<rparr>"])
    (cases s; simp add: connect_properties_step_def)+

lemma connect_chunk_max_packet_size:
  "cp_max_packet_size s = None \<Longrightarrow>
    dloop connect_properties_step s (opt_prop 0x27 write_u32 v @ rest) =
    dloop connect_properties_step (s\<lparr>cp_max_packet_size := v\<rparr>) rest"
  by (rule u32_field.opt_chunk [OF connect_loop.loop_body_axioms,
        where store = "\<lambda>v. s\<lparr>cp_max_packet_size := v\<rparr>"])
    (cases s; simp add: connect_properties_step_def)+

lemma connect_chunk_topic_alias_maximum:
  "cp_topic_alias_maximum s = None \<Longrightarrow>
    dloop connect_properties_step s (opt_prop 0x22 write_u16 v @ rest) =
    dloop connect_properties_step (s\<lparr>cp_topic_alias_maximum := v\<rparr>) rest"
  by (rule u16_field.opt_chunk [OF connect_loop.loop_body_axioms,
        where store = "\<lambda>v. s\<lparr>cp_topic_alias_maximum := v\<rparr>"])
    (cases s; simp add: connect_properties_step_def)+

lemma connect_chunk_request_response_info:
  "cp_request_response_info s = None \<Longrightarrow>
    dloop connect_properties_step s (opt_prop 0x19 (\<lambda>b. [b]) v @ rest) =
    dloop connect_properties_step (s\<lparr>cp_request_response_info := v\<rparr>) rest"
  by (rule u8_field.opt_chunk [OF connect_loop.loop_body_axioms,
        where store = "\<lambda>v. s\<lparr>cp_request_response_info := v\<rparr>"])
    (cases s; simp add: connect_properties_step_def)+

lemma connect_chunk_request_problem_info:
  "cp_request_problem_info s = None \<Longrightarrow>
    dloop connect_properties_step s (opt_prop 0x17 (\<lambda>b. [b]) v @ rest) =
    dloop connect_properties_step (s\<lparr>cp_request_problem_info := v\<rparr>) rest"
  by (rule u8_field.opt_chunk [OF connect_loop.loop_body_axioms,
        where store = "\<lambda>v. s\<lparr>cp_request_problem_info := v\<rparr>"])
    (cases s; simp add: connect_properties_step_def)+

lemma connect_chunk_user_properties:
  "user_properties_ok kvs \<Longrightarrow> cp_user_properties s = [] \<Longrightarrow>
    dloop connect_properties_step s (write_user_properties kvs @ rest) =
    dloop connect_properties_step (s\<lparr>cp_user_properties := kvs\<rparr>) rest"
  using user_properties_chunk [OF connect_loop.loop_body_axioms,
      where store = "\<lambda>v. s\<lparr>cp_user_properties := v\<rparr>" and pre = "[]"]
  by (cases s) (simp add: connect_properties_step_def)

lemma connect_chunk_auth_method:
  "pred_option str_ok v \<Longrightarrow> cp_auth_method s = None \<Longrightarrow>
    dloop connect_properties_step s (opt_prop 0x15 write_str v @ rest) =
    dloop connect_properties_step (s\<lparr>cp_auth_method := v\<rparr>) rest"
  by (rule str_field.opt_chunk [OF connect_loop.loop_body_axioms,
        where store = "\<lambda>v. s\<lparr>cp_auth_method := v\<rparr>"])
    (cases s; simp add: connect_properties_step_def)+

lemma connect_chunk_auth_data:
  "pred_option bytes_ok v \<Longrightarrow> cp_auth_data s = None \<Longrightarrow>
    dloop connect_properties_step s (opt_prop 0x16 write_bytes v @ rest) =
    dloop connect_properties_step (s\<lparr>cp_auth_data := v\<rparr>) rest"
  by (rule bytes_field.opt_chunk [OF connect_loop.loop_body_axioms,
        where store = "\<lambda>v. s\<lparr>cp_auth_data := v\<rparr>"])
    (cases s; simp add: connect_properties_step_def)+

lemmas connect_chunks =
  connect_chunk_session_expiry_interval
  connect_chunk_receive_maximum
  connect_chunk_max_packet_size
  connect_chunk_topic_alias_maximum
  connect_chunk_request_response_info
  connect_chunk_request_problem_info
  connect_chunk_user_properties
  connect_chunk_auth_method
  connect_chunk_auth_data

lemma connect_body_loop:
  "wf_connect_properties p \<Longrightarrow> dloop connect_properties_step connect_properties_default (connect_properties_body p @ rest) = dloop connect_properties_step p rest"
  by (cases p) (simp add: connect_properties_body_def wf_connect_properties_def connect_properties_default_def connect_chunks)

interpretation connect_record: property_record connect_properties_step connect_properties_default connect_properties_body wf_connect_properties
proof unfold_locales
  show "dloop connect_properties_step connect_properties_default (connect_properties_body p) = Ok p" if "wf_connect_properties p" for p
    using connect_body_loop [OF that, of "[]"] by simp
  show "wf_connect_properties connect_properties_default" "connect_properties_body connect_properties_default = []"
    by (simp_all add: wf_connect_properties_def connect_properties_default_def connect_properties_body_def)
  fix p p' :: connect_properties and buf buf'
  assume *: "connect_properties_step p buf = Ok (p', buf')"
  then show "wf_connect_properties p \<Longrightarrow> wf_connect_properties p'"
    by (auto simp: connect_properties_step_def wf_connect_properties_def step_Ok split: if_splits dest: field_ok)
  from * show "length (connect_properties_body p') + length buf' \<le> length (connect_properties_body p) + length buf"
    by (auto simp: connect_properties_step_def connect_properties_body_def step_Ok split: if_splits dest!: field_length)
qed

section \<open>\<open>ConnAckProperties\<close>\<close>

record connack_properties =
  cap_session_expiry_interval :: "u32 option"
  cap_receive_maximum :: "u16 option"
  cap_max_qos :: "u8 option"
  cap_retain_available :: "u8 option"
  cap_maximum_packet_size :: "u32 option"
  cap_assigned_client_identifier :: "rstr option"
  cap_topic_alias_maximum :: "u16 option"
  cap_reason_string :: "rstr option"
  cap_user_properties :: "(rstr \<times> rstr) list"
  cap_wildcard_subscription_available :: "u8 option"
  cap_subscription_identifiers_available :: "u8 option"
  cap_shared_subscription_available :: "u8 option"
  cap_server_keep_alive :: "u16 option"
  cap_response_information :: "rstr option"
  cap_server_reference :: "rstr option"
  cap_authentication_method :: "rstr option"
  cap_authentication_data :: "bytes option"

definition connack_properties_default :: connack_properties where
  "connack_properties_default =
    \<lparr>cap_session_expiry_interval = None,
     cap_receive_maximum = None,
     cap_max_qos = None,
     cap_retain_available = None,
     cap_maximum_packet_size = None,
     cap_assigned_client_identifier = None,
     cap_topic_alias_maximum = None,
     cap_reason_string = None,
     cap_user_properties = [],
     cap_wildcard_subscription_available = None,
     cap_subscription_identifiers_available = None,
     cap_shared_subscription_available = None,
     cap_server_keep_alive = None,
     cap_response_information = None,
     cap_server_reference = None,
     cap_authentication_method = None,
     cap_authentication_data = None\<rparr>"

definition connack_properties_step :: "connack_properties \<Rightarrow> connack_properties decoder" where
  "connack_properties_step props buf =
     and_then (read_u8 buf) (\<lambda>(prop_id, buf).
       if prop_id = 0x11 then
         read_into read_u32 (\<lambda>v. props\<lparr>cap_session_expiry_interval := Some v\<rparr>) buf
       else if prop_id = 0x21 then
         read_into read_u16 (\<lambda>v. props\<lparr>cap_receive_maximum := Some v\<rparr>) buf
       else if prop_id = 0x24 then
         read_into read_u8 (\<lambda>v. props\<lparr>cap_max_qos := Some v\<rparr>) buf
       else if prop_id = 0x25 then
         read_into read_u8 (\<lambda>v. props\<lparr>cap_retain_available := Some v\<rparr>) buf
       else if prop_id = 0x27 then
         read_into read_u32 (\<lambda>v. props\<lparr>cap_maximum_packet_size := Some v\<rparr>) buf
       else if prop_id = 0x12 then
         read_into read_str (\<lambda>v. props\<lparr>cap_assigned_client_identifier := Some v\<rparr>) buf
       else if prop_id = 0x22 then
         read_into read_u16 (\<lambda>v. props\<lparr>cap_topic_alias_maximum := Some v\<rparr>) buf
       else if prop_id = 0x1F then
         read_into read_str (\<lambda>v. props\<lparr>cap_reason_string := Some v\<rparr>) buf
       else if prop_id = 0x26 then
         read_into (read_pair read_str read_str)
           (\<lambda>kv. props\<lparr>cap_user_properties := cap_user_properties props @ [kv]\<rparr>) buf
       else if prop_id = 0x28 then
         read_into read_u8 (\<lambda>v. props\<lparr>cap_wildcard_subscription_available := Some v\<rparr>) buf
       else if prop_id = 0x29 then
         read_into read_u8 (\<lambda>v. props\<lparr>cap_subscription_identifiers_available := Some v\<rparr>) buf
       else if prop_id = 0x2A then
         read_into read_u8 (\<lambda>v. props\<lparr>cap_shared_subscription_available := Some v\<rparr>) buf
       else if prop_id = 0x13 then
         read_into read_u16 (\<lambda>v. props\<lparr>cap_server_keep_alive := Some v\<rparr>) buf
       else if prop_id = 0x1A then
         read_into read_str (\<lambda>v. props\<lparr>cap_response_information := Some v\<rparr>) buf
       else if prop_id = 0x1C then
         read_into read_str (\<lambda>v. props\<lparr>cap_server_reference := Some v\<rparr>) buf
       else if prop_id = 0x15 then
         read_into read_str (\<lambda>v. props\<lparr>cap_authentication_method := Some v\<rparr>) buf
       else if prop_id = 0x16 then
         read_into read_bytes (\<lambda>v. props\<lparr>cap_authentication_data := Some v\<rparr>) buf
       else Err MalformedPacket)"

definition connack_properties_body :: "connack_properties \<Rightarrow> bytes" where
  "connack_properties_body props =
     opt_prop 0x11 write_u32 (cap_session_expiry_interval props) @
     opt_prop 0x21 write_u16 (cap_receive_maximum props) @
     opt_prop 0x24 (\<lambda>b. [b]) (cap_max_qos props) @
     opt_prop 0x25 (\<lambda>b. [b]) (cap_retain_available props) @
     opt_prop 0x27 write_u32 (cap_maximum_packet_size props) @
     opt_prop 0x12 write_str (cap_assigned_client_identifier props) @
     opt_prop 0x22 write_u16 (cap_topic_alias_maximum props) @
     opt_prop 0x1F write_str (cap_reason_string props) @
     write_user_properties (cap_user_properties props) @
     opt_prop 0x28 (\<lambda>b. [b]) (cap_wildcard_subscription_available props) @
     opt_prop 0x29 (\<lambda>b. [b]) (cap_subscription_identifiers_available props) @
     opt_prop 0x2A (\<lambda>b. [b]) (cap_shared_subscription_available props) @
     opt_prop 0x13 write_u16 (cap_server_keep_alive props) @
     opt_prop 0x1A write_str (cap_response_information props) @
     opt_prop 0x1C write_str (cap_server_reference props) @
     opt_prop 0x15 write_str (cap_authentication_method props) @
     opt_prop 0x16 write_bytes (cap_authentication_data props)"

definition connack_properties_decode :: "connack_properties decoder" where
  "connack_properties_decode = decode_properties connack_properties_step connack_properties_default"

definition connack_properties_encode :: "connack_properties \<Rightarrow> bytes" where
  "connack_properties_encode = encode_properties connack_properties_body"

definition wf_connack_properties :: "connack_properties \<Rightarrow> bool" where
  "wf_connack_properties props \<longleftrightarrow>
     pred_option str_ok (cap_assigned_client_identifier props) \<and>
     pred_option str_ok (cap_reason_string props) \<and>
     user_properties_ok (cap_user_properties props) \<and>
     pred_option str_ok (cap_response_information props) \<and>
     pred_option str_ok (cap_server_reference props) \<and>
     pred_option str_ok (cap_authentication_method props) \<and>
     pred_option bytes_ok (cap_authentication_data props)"

interpretation connack_loop: loop_body connack_properties_step
  by unfold_locales
    (auto simp: connack_properties_step_def step_Ok step_Panic split: if_splits dest!: field_shrinks)

lemma connack_chunk_session_expiry_interval:
  "cap_session_expiry_interval s = None \<Longrightarrow>
    dloop connack_properties_step s (opt_prop 0x11 write_u32 v @ rest) =
    dloop connack_properties_step (s\<lparr>cap_session_expiry_interval := v\<rparr>) rest"
  by (rule u32_field.opt_chunk [OF connack_loop.loop_body_axioms,
        where store = "\<lambda>v. s\<lparr>cap_session_expiry_interval := v\<rparr>"])
    (cases s; simp add: connack_properties_step_def)+

lemma connack_chunk_receive_maximum:
  "cap_receive_maximum s = None \<Longrightarrow>
    dloop connack_properties_step s (opt_prop 0x21 write_u16 v @ rest) =
    dloop connack_properties_step (s\<lparr>cap_receive_maximum := v\<rparr>) rest"
  by (rule u16_field.opt_chunk [OF connack_loop.loop_body_axioms,
        where store = "\<lambda>v. s\<lparr>cap_receive_maximum := v\<rparr>"])
    (cases s; simp add: connack_properties_step_def)+

lemma connack_chunk_max_qos:
  "cap_max_qos s = None \<Longrightarrow>
    dloop connack_properties_step s (opt_prop 0x24 (\<lambda>b. [b]) v @ rest) =
    dloop connack_properties_step (s\<lparr>cap_max_qos := v\<rparr>) rest"
  by (rule u8_field.opt_chunk [OF connack_loop.loop_body_axioms,
        where store = "\<lambda>v. s\<lparr>cap_max_qos := v\<rparr>"])
    (cases s; simp add: connack_properties_step_def)+

lemma connack_chunk_retain_available:
  "cap_retain_available s = None \<Longrightarrow>
    dloop connack_properties_step s (opt_prop 0x25 (\<lambda>b. [b]) v @ rest) =
    dloop connack_properties_step (s\<lparr>cap_retain_available := v\<rparr>) rest"
  by (rule u8_field.opt_chunk [OF connack_loop.loop_body_axioms,
        where store = "\<lambda>v. s\<lparr>cap_retain_available := v\<rparr>"])
    (cases s; simp add: connack_properties_step_def)+

lemma connack_chunk_maximum_packet_size:
  "cap_maximum_packet_size s = None \<Longrightarrow>
    dloop connack_properties_step s (opt_prop 0x27 write_u32 v @ rest) =
    dloop connack_properties_step (s\<lparr>cap_maximum_packet_size := v\<rparr>) rest"
  by (rule u32_field.opt_chunk [OF connack_loop.loop_body_axioms,
        where store = "\<lambda>v. s\<lparr>cap_maximum_packet_size := v\<rparr>"])
    (cases s; simp add: connack_properties_step_def)+

lemma connack_chunk_assigned_client_identifier:
  "pred_option str_ok v \<Longrightarrow> cap_assigned_client_identifier s = None \<Longrightarrow>
    dloop connack_properties_step s (opt_prop 0x12 write_str v @ rest) =
    dloop connack_properties_step (s\<lparr>cap_assigned_client_identifier := v\<rparr>) rest"
  by (rule str_field.opt_chunk [OF connack_loop.loop_body_axioms,
        where store = "\<lambda>v. s\<lparr>cap_assigned_client_identifier := v\<rparr>"])
    (cases s; simp add: connack_properties_step_def)+

lemma connack_chunk_topic_alias_maximum:
  "cap_topic_alias_maximum s = None \<Longrightarrow>
    dloop connack_properties_step s (opt_prop 0x22 write_u16 v @ rest) =
    dloop connack_properties_step (s\<lparr>cap_topic_alias_maximum := v\<rparr>) rest"
  by (rule u16_field.opt_chunk [OF connack_loop.loop_body_axioms,
        where store = "\<lambda>v. s\<lparr>cap_topic_alias_maximum := v\<rparr>"])
    (cases s; simp add: connack_properties_step_def)+

lemma connack_chunk_reason_string:
  "pred_option str_ok v \<Longrightarrow> cap_reason_string s = None \<Longrightarrow>
    dloop connack_properties_step s (opt_prop 0x1F write_str v @ rest) =
    dloop connack_properties_step (s\<lparr>cap_reason_string := v\<rparr>) rest"
  by (rule str_field.opt_chunk [OF connack_loop.loop_body_axioms,
        where store = "\<lambda>v. s\<lparr>cap_reason_string := v\<rparr>"])
    (cases s; simp add: connack_properties_step_def)+

lemma connack_chunk_user_properties:
  "user_properties_ok kvs \<Longrightarrow> cap_user_properties s = [] \<Longrightarrow>
    dloop connack_properties_step s (write_user_properties kvs @ rest) =
    dloop connack_properties_step (s\<lparr>cap_user_properties := kvs\<rparr>) rest"
  using user_properties_chunk [OF connack_loop.loop_body_axioms,
      where store = "\<lambda>v. s\<lparr>cap_user_properties := v\<rparr>" and pre = "[]"]
  by (cases s) (simp add: connack_properties_step_def)

lemma connack_chunk_wildcard_subscription_available:
  "cap_wildcard_subscription_available s = None \<Longrightarrow>
    dloop connack_properties_step s (opt_prop 0x28 (\<lambda>b. [b]) v @ rest) =
    dloop connack_properties_step (s\<lparr>cap_wildcard_subscription_available := v\<rparr>) rest"
  by (rule u8_field.opt_chunk [OF connack_loop.loop_body_axioms,
        where store = "\<lambda>v. s\<lparr>cap_wildcard_subscription_available := v\<rparr>"])
    (cases s; simp add: connack_properties_step_def)+

lemma connack_chunk_subscription_identifiers_available:
  "cap_subscription_identifiers_available s = None \<Longrightarrow>
    dloop connack_properties_step s (opt_prop 0x29 (\<lambda>b. [b]) v @ rest) =
    dloop connack_properties_step (s\<lparr>cap_subscription_identifiers_available := v\<rparr>) rest"
  by (rule u8_field.opt_chunk [OF connack_loop.loop_body_axioms,
        where store = "\<lambda>v. s\<lparr>cap_subscription_identifiers_available := v\<rparr>"])
    (cases s; simp add: connack_properties_step_def)+

lemma connack_chunk_shared_subscription_available:
  "cap_shared_subscription_available s = None \<Longrightarrow>
    dloop connack_properties_step s (opt_prop 0x2A (\<lambda>b. [b]) v @ rest) =
    dloop connack_properties_step (s\<lparr>cap_shared_subscription_available := v\<rparr>) rest"
  by (rule u8_field.opt_chunk [OF connack_loop.loop_body_axioms,
        where store = "\<lambda>v. s\<lparr>cap_shared_subscription_available := v\<rparr>"])
    (cases s; simp add: connack_properties_step_def)+

lemma connack_chunk_server_keep_alive:
  "cap_server_keep_alive s = None \<Longrightarrow>
    dloop connack_properties_step s (opt_prop 0x13 write_u16 v @ rest) =
    dloop connack_properties_step (s\<lparr>cap_server_keep_alive := v\<rparr>) rest"
  by (rule u16_field.opt_chunk [OF connack_loop.loop_body_axioms,
        where store = "\<lambda>v. s\<lparr>cap_server_keep_alive := v\<rparr>"])
    (cases s; simp add: connack_properties_step_def)+

lemma connack_chunk_response_information:
  "pred_option str_ok v \<Longrightarrow> cap_response_information s = None \<Longrightarrow>
    dloop connack_properties_step s (opt_prop 0x1A write_str v @ rest) =
    dloop connack_properties_step (s\<lparr>cap_response_information := v\<rparr>) rest"
  by (rule str_field.opt_chunk [OF connack_loop.loop_body_axioms,
        where store = "\<lambda>v. s\<lparr>cap_response_information := v\<rparr>"])
    (cases s; simp add: connack_properties_step_def)+

lemma connack_chunk_server_reference:
  "pred_option str_ok v \<Longrightarrow> cap_server_reference s = None \<Longrightarrow>
    dloop connack_properties_step s (opt_prop 0x1C write_str v @ rest) =
    dloop connack_properties_step (s\<lparr>cap_server_reference := v\<rparr>) rest"
  by (rule str_field.opt_chunk [OF connack_loop.loop_body_axioms,
        where store = "\<lambda>v. s\<lparr>cap_server_reference := v\<rparr>"])
    (cases s; simp add: connack_properties_step_def)+

lemma connack_chunk_authentication_method:
  "pred_option str_ok v \<Longrightarrow> cap_authentication_method s = None \<Longrightarrow>
    dloop connack_properties_step s (opt_prop 0x15 write_str v @ rest) =
    dloop connack_properties_step (s\<lparr>cap_authentication_method := v\<rparr>) rest"
  by (rule str_field.opt_chunk [OF connack_loop.loop_body_axioms,
        where store = "\<lambda>v. s\<lparr>cap_authentication_method := v\<rparr>"])
    (cases s; simp add: connack_properties_step_def)+

lemma connack_chunk_authentication_data:
  "pred_option bytes_ok v \<Longrightarrow> cap_authentication_data s = None \<Longrightarrow>
    dloop connack_properties_step s (opt_prop 0x16 write_bytes v @ rest) =
    dloop connack_properties_step (s\<lparr>cap_authentication_data := v\<rparr>) rest"
  by (rule bytes_field.opt_chunk [OF connack_loop.loop_body_axioms,
        where store = "\<lambda>v. s\<lparr>cap_authentication_data := v\<rparr>"])
    (cases s; simp add: connack_properties_step_def)+

lemmas connack_chunks =
  connack_chunk_session_expiry_interval
  connack_chunk_receive_maximum
  connack_chunk_max_qos
  connack_chunk_retain_available
  connack_chunk_maximum_packet_size
  connack_chunk_assigned_client_identifier
  connack_chunk_topic_alias_maximum
  connack_chunk_reason_string
  connack_chunk_user_properties
  connack_chunk_wildcard_subscription_available
  connack_chunk_subscription_identifiers_available
  connack_chunk_shared_subscription_available
  connack_chunk_server_keep_alive
  connack_chunk_response_information
  connack_chunk_server_reference
  connack_chunk_authentication_method
  connack_chunk_authentication_data

lemma connack_body_loop:
  "wf_connack_properties p \<Longrightarrow> dloop connack_properties_step connack_properties_default (connack_properties_body p @ rest) = dloop connack_properties_step p rest"
  by (cases p) (simp add: connack_properties_body_def wf_connack_properties_def connack_properties_default_def connack_chunks)

interpretation connack_record: property_record connack_properties_step connack_properties_default connack_properties_body wf_connack_properties
proof unfold_locales
  show "dloop connack_properties_step connack_properties_default (connack_properties_body p) = Ok p" if "wf_connack_properties p" for p
    using connack_body_loop [OF that, of "[]"] by simp
  show "wf_connack_properties connack_properties_default" "connack_properties_body connack_properties_default = []"
    by (simp_all add: wf_connack_properties_def connack_properties_default_def connack_properties_body_def)
  fix p p' :: connack_properties and buf buf'
  assume *: "connack_properties_step p buf = Ok (p', buf')"
  then show "wf_connack_properties p \<Longrightarrow> wf_connack_properties p'"
    by (auto simp: connack_properties_step_def wf_connack_properties_def step_Ok split: if_splits dest: field_ok)
  from * show "length (connack_properties_body p') + length buf' \<le> length (connack_properties_body p) + length buf"
    by (auto simp: connack_properties_step_def connack_properties_body_def step_Ok split: if_splits dest!: field_length)
qed

section \<open>\<open>PublishProperties\<close>\<close>

record publish_properties =
  pp_payload_format_indicator :: "u8 option"
  pp_message_expiry_interval :: "u32 option"
  pp_content_type :: "rstr option"
  pp_response_topic :: "rstr option"
  pp_correlation_data :: "bytes option"
  pp_subscription_identifier :: "u32 option"
  pp_topic_alias :: "u16 option"
  pp_user_properties :: "(rstr \<times> rstr) list"

definition publish_properties_default :: publish_properties where
  "publish_properties_default =
    \<lparr>pp_payload_format_indicator = None,
     pp_message_expiry_interval = None,
     pp_content_type = None,
     pp_response_topic = None,
     pp_correlation_data = None,
     pp_subscription_identifier = None,
     pp_topic_alias = None,
     pp_user_properties = []\<rparr>"

definition publish_properties_step :: "publish_properties \<Rightarrow> publish_properties decoder" where
  "publish_properties_step props buf =
     and_then (read_u8 buf) (\<lambda>(prop_id, buf).
       if prop_id = 0x01 then
         read_into read_u8 (\<lambda>v. props\<lparr>pp_payload_format_indicator := Some v\<rparr>) buf
       else if prop_id = 0x02 then
         read_into read_u32 (\<lambda>v. props\<lparr>pp_message_expiry_interval := Some v\<rparr>) buf
       else if prop_id = 0x03 then
         read_into read_str (\<lambda>v. props\<lparr>pp_content_type := Some v\<rparr>) buf
       else if prop_id = 0x08 then
         read_into read_str (\<lambda>v. props\<lparr>pp_response_topic := Some v\<rparr>) buf
       else if prop_id = 0x09 then
         read_into read_bytes (\<lambda>v. props\<lparr>pp_correlation_data := Some v\<rparr>) buf
       else if prop_id = 0x0B then
         read_into take_varint (\<lambda>v. props\<lparr>pp_subscription_identifier := Some v\<rparr>) buf
       else if prop_id = 0x23 then
         read_into read_u16 (\<lambda>v. props\<lparr>pp_topic_alias := Some v\<rparr>) buf
       else if prop_id = 0x26 then
         read_into (read_pair read_str read_str)
           (\<lambda>kv. props\<lparr>pp_user_properties := pp_user_properties props @ [kv]\<rparr>) buf
       else Err MalformedPacket)"

definition publish_properties_body :: "publish_properties \<Rightarrow> bytes" where
  "publish_properties_body props =
     opt_prop 0x01 (\<lambda>b. [b]) (pp_payload_format_indicator props) @
     opt_prop 0x02 write_u32 (pp_message_expiry_interval props) @
     opt_prop 0x03 write_str (pp_content_type props) @
     opt_prop 0x08 write_str (pp_response_topic props) @
     opt_prop 0x09 write_bytes (pp_correlation_data props) @
     opt_prop 0x0B encode_varint (pp_subscription_identifier props) @
     opt_prop 0x23 write_u16 (pp_topic_alias props) @
     write_user_properties (pp_user_properties props)"

definition publish_properties_decode :: "publish_properties decoder" where
  "publish_properties_decode = decode_properties publish_properties_step publish_properties_default"

definition publish_properties_encode :: "publish_properties \<Rightarrow> bytes" where
  "publish_properties_encode = encode_properties publish_properties_body"

definition wf_publish_properties :: "publish_properties \<Rightarrow> bool" where
  "wf_publish_properties props \<longleftrightarrow>
     pred_option str_ok (pp_content_type props) \<and>
     pred_option str_ok (pp_response_topic props) \<and>
     pred_option bytes_ok (pp_correlation_data props) \<and>
     pred_option varint_ok (pp_subscription_identifier props) \<and>
     user_properties_ok (pp_user_properties props)"

interpretation publish_loop: loop_body publish_properties_step
  by unfold_locales
    (auto simp: publish_properties_step_def step_Ok step_Panic split: if_splits dest!: field_shrinks)

lemma publish_chunk_payload_format_indicator:
  "pp_payload_format_indicator s = None \<Longrightarrow>
    dloop publish_properties_step s (opt_prop 0x01 (\<lambda>b. [b]) v @ rest) =
    dloop publish_properties_step (s\<lparr>pp_payload_format_indicator := v\<rparr>) rest"
  by (rule u8_field.opt_chunk [OF publish_loop.loop_body_axioms,
        where store = "\<lambda>v. s\<lparr>pp_payload_format_indicator := v\<rparr>"])
    (cases s; simp add: publish_properties_step_def)+

lemma publish_chunk_message_expiry_interval:
  "pp_message_expiry_interval s = None \<Longrightarrow>
    dloop publish_properties_step s (opt_prop 0x02 write_u32 v @ rest) =
    dloop publish_properties_step (s\<lparr>pp_message_expiry_interval := v\<rparr>) rest"
  by (rule u32_field.opt_chunk [OF publish_loop.loop_body_axioms,
        where store = "\<lambda>v. s\<lparr>pp_message_expiry_interval := v\<rparr>"])
    (cases s; simp add: publish_properties_step_def)+

lemma publish_chunk_content_type:
  "pred_option str_ok v \<Longrightarrow> pp_content_type s = None \<Longrightarrow>
    dloop publish_properties_step s (opt_prop 0x03 write_str v @ rest) =
    dloop publish_properties_step (s\<lparr>pp_content_type := v\<rparr>) rest"
  by (rule str_field.opt_chunk [OF publish_loop.loop_body_axioms,
        where store = "\<lambda>v. s\<lparr>pp_content_type := v\<rparr>"])
    (cases s; simp add: publish_properties_step_def)+

lemma publish_chunk_response_topic:
  "pred_option str_ok v \<Longrightarrow> pp_response_topic s = None \<Longrightarrow>
    dloop publish_properties_step s (opt_prop 0x08 write_str v @ rest) =
    dloop publish_properties_step (s\<lparr>pp_response_topic := v\<rparr>) rest"
  by (rule str_field.opt_chunk [OF publish_loop.loop_body_axioms,
        where store = "\<lambda>v. s\<lparr>pp_response_topic := v\<rparr>"])
    (cases s; simp add: publish_properties_step_def)+

lemma publish_chunk_correlation_data:
  "pred_option bytes_ok v \<Longrightarrow> pp_correlation_data s = None \<Longrightarrow>
    dloop publish_properties_step s (opt_prop 0x09 write_bytes v @ rest) =
    dloop publish_properties_step (s\<lparr>pp_correlation_data := v\<rparr>) rest"
  by (rule bytes_field.opt_chunk [OF publish_loop.loop_body_axioms,
        where store = "\<lambda>v. s\<lparr>pp_correlation_data := v\<rparr>"])
    (cases s; simp add: publish_properties_step_def)+

lemma publish_chunk_subscription_identifier:
  "pred_option varint_ok v \<Longrightarrow> pp_subscription_identifier s = None \<Longrightarrow>
    dloop publish_properties_step s (opt_prop 0x0B encode_varint v @ rest) =
    dloop publish_properties_step (s\<lparr>pp_subscription_identifier := v\<rparr>) rest"
  by (rule varint_field.opt_chunk [OF publish_loop.loop_body_axioms,
        where store = "\<lambda>v. s\<lparr>pp_subscription_identifier := v\<rparr>"])
    (cases s; simp add: publish_properties_step_def)+

lemma publish_chunk_topic_alias:
  "pp_topic_alias s = None \<Longrightarrow>
    dloop publish_properties_step s (opt_prop 0x23 write_u16 v @ rest) =
    dloop publish_properties_step (s\<lparr>pp_topic_alias := v\<rparr>) rest"
  by (rule u16_field.opt_chunk [OF publish_loop.loop_body_axioms,
        where store = "\<lambda>v. s\<lparr>pp_topic_alias := v\<rparr>"])
    (cases s; simp add: publish_properties_step_def)+

lemma publish_chunk_user_properties:
  "user_properties_ok kvs \<Longrightarrow> pp_user_properties s = [] \<Longrightarrow>
    dloop publish_properties_step s (write_user_properties kvs @ rest) =
    dloop publish_properties_step (s\<lparr>pp_user_properties := kvs\<rparr>) rest"
  using user_properties_chunk [OF publish_loop.loop_body_axioms,
      where store = "\<lambda>v. s\<lparr>pp_user_properties := v\<rparr>" and pre = "[]"]
  by (cases s) (simp add: publish_properties_step_def)

lemmas publish_chunks =
  publish_chunk_payload_format_indicator
  publish_chunk_message_expiry_interval
  publish_chunk_content_type
  publish_chunk_response_topic
  publish_chunk_correlation_data
  publish_chunk_subscription_identifier
  publish_chunk_topic_alias
  publish_chunk_user_properties

lemma publish_body_loop:
  "wf_publish_properties p \<Longrightarrow> dloop publish_properties_step publish_properties_default (publish_properties_body p @ rest) = dloop publish_properties_step p rest"
  by (cases p) (simp add: publish_properties_body_def wf_publish_properties_def publish_properties_default_def publish_chunks)

interpretation publish_record: property_record publish_properties_step publish_properties_default publish_properties_body wf_publish_properties
proof unfold_locales
  show "dloop publish_properties_step publish_properties_default (publish_properties_body p) = Ok p" if "wf_publish_properties p" for p
    using publish_body_loop [OF that, of "[]"] by simp
  show "wf_publish_properties publish_properties_default" "publish_properties_body publish_properties_default = []"
    by (simp_all add: wf_publish_properties_def publish_properties_default_def publish_properties_body_def)
  fix p p' :: publish_properties and buf buf'
  assume *: "publish_properties_step p buf = Ok (p', buf')"
  then show "wf_publish_properties p \<Longrightarrow> wf_publish_properties p'"
    by (auto simp: publish_properties_step_def wf_publish_properties_def step_Ok split: if_splits dest: field_ok)
  from * show "length (publish_properties_body p') + length buf' \<le> length (publish_properties_body p) + length buf"
    by (auto simp: publish_properties_step_def publish_properties_body_def step_Ok split: if_splits dest!: field_length)
qed

section \<open>\<open>PubAckProperties\<close>\<close>

record puback_properties =
  pap_reason_string :: "rstr option"
  pap_user_properties :: "(rstr \<times> rstr) list"

definition puback_properties_default :: puback_properties where
  "puback_properties_default =
    \<lparr>pap_reason_string = None,
     pap_user_properties = []\<rparr>"

definition puback_properties_step :: "puback_properties \<Rightarrow> puback_properties decoder" where
  "puback_properties_step props buf =
     and_then (read_u8 buf) (\<lambda>(prop_id, buf).
       if prop_id = 0x1F then
         read_into read_str (\<lambda>v. props\<lparr>pap_reason_string := Some v\<rparr>) buf
       else if prop_id = 0x26 then
         read_into (read_pair read_str read_str)
           (\<lambda>kv. props\<lparr>pap_user_properties := pap_user_properties props @ [kv]\<rparr>) buf
       else Err MalformedPacket)"

definition puback_properties_body :: "puback_properties \<Rightarrow> bytes" where
  "puback_properties_body props =
     opt_prop 0x1F write_str (pap_reason_string props) @
     write_user_properties (pap_user_properties props)"

definition puback_properties_decode :: "puback_properties decoder" where
  "puback_properties_decode = decode_properties puback_properties_step puback_properties_default"

definition puback_properties_encode :: "puback_properties \<Rightarrow> bytes" where
  "puback_properties_encode = encode_properties puback_properties_body"

definition wf_puback_properties :: "puback_properties \<Rightarrow> bool" where
  "wf_puback_properties props \<longleftrightarrow>
     pred_option str_ok (pap_reason_string props) \<and>
     user_properties_ok (pap_user_properties props)"

interpretation puback_loop: loop_body puback_properties_step
  by unfold_locales
    (auto simp: puback_properties_step_def step_Ok step_Panic split: if_splits dest!: field_shrinks)

lemma puback_chunk_reason_string:
  "pred_option str_ok v \<Longrightarrow> pap_reason_string s = None \<Longrightarrow>
    dloop puback_properties_step s (opt_prop 0x1F write_str v @ rest) =
    dloop puback_properties_step (s\<lparr>pap_reason_string := v\<rparr>) rest"
  by (rule str_field.opt_chunk [OF puback_loop.loop_body_axioms,
        where store = "\<lambda>v. s\<lparr>pap_reason_string := v\<rparr>"])
    (cases s; simp add: puback_properties_step_def)+

lemma puback_chunk_user_properties:
  "user_properties_ok kvs \<Longrightarrow> pap_user_properties s = [] \<Longrightarrow>
    dloop puback_properties_step s (write_user_properties kvs @ rest) =
    dloop puback_properties_step (s\<lparr>pap_user_properties := kvs\<rparr>) rest"
  using user_properties_chunk [OF puback_loop.loop_body_axioms,
      where store = "\<lambda>v. s\<lparr>pap_user_properties := v\<rparr>" and pre = "[]"]
  by (cases s) (simp add: puback_properties_step_def)

lemmas puback_chunks =
  puback_chunk_reason_string
  puback_chunk_user_properties

lemma puback_body_loop:
  "wf_puback_properties p \<Longrightarrow> dloop puback_properties_step puback_properties_default (puback_properties_body p @ rest) = dloop puback_properties_step p rest"
  by (cases p) (simp add: puback_properties_body_def wf_puback_properties_def puback_properties_default_def puback_chunks)

interpretation puback_record: property_record puback_properties_step puback_properties_default puback_properties_body wf_puback_properties
proof unfold_locales
  show "dloop puback_properties_step puback_properties_default (puback_properties_body p) = Ok p" if "wf_puback_properties p" for p
    using puback_body_loop [OF that, of "[]"] by simp
  show "wf_puback_properties puback_properties_default" "puback_properties_body puback_properties_default = []"
    by (simp_all add: wf_puback_properties_def puback_properties_default_def puback_properties_body_def)
  fix p p' :: puback_properties and buf buf'
  assume *: "puback_properties_step p buf = Ok (p', buf')"
  then show "wf_puback_properties p \<Longrightarrow> wf_puback_properties p'"
    by (auto simp: puback_properties_step_def wf_puback_properties_def step_Ok split: if_splits dest: field_ok)
  from * show "length (puback_properties_body p') + length buf' \<le> length (puback_properties_body p) + length buf"
    by (auto simp: puback_properties_step_def puback_properties_body_def step_Ok split: if_splits dest!: field_length)
qed

section \<open>\<open>SubscribeProperties\<close>\<close>

record subscribe_properties =
  sp_subscription_identifier :: "u32 option"
  sp_user_properties :: "(rstr \<times> rstr) list"

definition subscribe_properties_default :: subscribe_properties where
  "subscribe_properties_default =
    \<lparr>sp_subscription_identifier = None,
     sp_user_properties = []\<rparr>"

definition subscribe_properties_step :: "subscribe_properties \<Rightarrow> subscribe_properties decoder" where
  "subscribe_properties_step props buf =
     and_then (read_u8 buf) (\<lambda>(prop_id, buf).
       if prop_id = 0x0B then
         read_into take_varint (\<lambda>v. props\<lparr>sp_subscription_identifier := Some v\<rparr>) buf
       else if prop_id = 0x26 then
         read_into (read_pair read_str read_str)
           (\<lambda>kv. props\<lparr>sp_user_properties := sp_user_properties props @ [kv]\<rparr>) buf
       else Err MalformedPacket)"

definition subscribe_properties_body :: "subscribe_properties \<Rightarrow> bytes" where
  "subscribe_properties_body props =
     opt_prop 0x0B encode_varint (sp_subscription_identifier props) @
     write_user_properties (sp_user_properties props)"

definition subscribe_properties_decode :: "subscribe_properties decoder" where
  "subscribe_properties_decode = decode_properties subscribe_properties_step subscribe_properties_default"

definition subscribe_properties_encode :: "subscribe_properties \<Rightarrow> bytes" where
  "subscribe_properties_encode = encode_properties subscribe_properties_body"

definition wf_subscribe_properties :: "subscribe_properties \<Rightarrow> bool" where
  "wf_subscribe_properties props \<longleftrightarrow>
     pred_option varint_ok (sp_subscription_identifier props) \<and>
     user_properties_ok (sp_user_properties props)"

interpretation subscribe_loop: loop_body subscribe_properties_step
  by unfold_locales
    (auto simp: subscribe_properties_step_def step_Ok step_Panic split: if_splits dest!: field_shrinks)

lemma subscribe_chunk_subscription_identifier:
  "pred_option varint_ok v \<Longrightarrow> sp_subscription_identifier s = None \<Longrightarrow>
    dloop subscribe_properties_step s (opt_prop 0x0B encode_varint v @ rest) =
    dloop subscribe_properties_step (s\<lparr>sp_subscription_identifier := v\<rparr>) rest"
  by (rule varint_field.opt_chunk [OF subscribe_loop.loop_body_axioms,
        where store = "\<lambda>v. s\<lparr>sp_subscription_identifier := v\<rparr>"])
    (cases s; simp add: subscribe_properties_step_def)+

lemma subscribe_chunk_user_properties:
  "user_properties_ok kvs \<Longrightarrow> sp_user_properties s = [] \<Longrightarrow>
    dloop subscribe_properties_step s (write_user_properties kvs @ rest) =
    dloop subscribe_properties_step (s\<lparr>sp_user_properties := kvs\<rparr>) rest"
  using user_properties_chunk [OF subscribe_loop.loop_body_axioms,
      where store = "\<lambda>v. s\<lparr>sp_user_properties := v\<rparr>" and pre = "[]"]
  by (cases s) (simp add: subscribe_properties_step_def)

lemmas subscribe_chunks =
  subscribe_chunk_subscription_identifier
  subscribe_chunk_user_properties

lemma subscribe_body_loop:
  "wf_subscribe_properties p \<Longrightarrow> dloop subscribe_properties_step subscribe_properties_default (subscribe_properties_body p @ rest) = dloop subscribe_properties_step p rest"
  by (cases p) (simp add: subscribe_properties_body_def wf_subscribe_properties_def subscribe_properties_default_def subscribe_chunks)

interpretation subscribe_record: property_record subscribe_properties_step subscribe_properties_default subscribe_properties_body wf_subscribe_properties
proof unfold_locales
  show "dloop subscribe_properties_step subscribe_properties_default (subscribe_properties_body p) = Ok p" if "wf_subscribe_properties p" for p
    using subscribe_body_loop [OF that, of "[]"] by simp
  show "wf_subscribe_properties subscribe_properties_default" "subscribe_properties_body subscribe_properties_default = []"
    by (simp_all add: wf_subscribe_properties_def subscribe_properties_default_def subscribe_properties_body_def)
  fix p p' :: subscribe_properties and buf buf'
  assume *: "subscribe_properties_step p buf = Ok (p', buf')"
  then show "wf_subscribe_properties p \<Longrightarrow> wf_subscribe_properties p'"
    by (auto simp: subscribe_properties_step_def wf_subscribe_properties_def step_Ok split: if_splits dest: field_ok)
  from * show "length (subscribe_properties_body p') + length buf' \<le> length (subscribe_properties_body p) + length buf"
    by (auto simp: subscribe_properties_step_def subscribe_properties_body_def step_Ok split: if_splits dest!: field_length)
qed

section \<open>\<open>SubAckProperties\<close>\<close>

record suback_properties =
  sap_reason_string :: "rstr option"
  sap_user_properties :: "(rstr \<times> rstr) list"

definition suback_properties_default :: suback_properties where
  "suback_properties_default =
    \<lparr>sap_reason_string = None,
     sap_user_properties = []\<rparr>"

definition suback_properties_step :: "suback_properties \<Rightarrow> suback_properties decoder" where
  "suback_properties_step props buf =
     and_then (read_u8 buf) (\<lambda>(prop_id, buf).
       if prop_id = 0x1F then
         read_into read_str (\<lambda>v. props\<lparr>sap_reason_string := Some v\<rparr>) buf
       else if prop_id = 0x26 then
         read_into (read_pair read_str read_str)
           (\<lambda>kv. props\<lparr>sap_user_properties := sap_user_properties props @ [kv]\<rparr>) buf
       else Err MalformedPacket)"

definition suback_properties_body :: "suback_properties \<Rightarrow> bytes" where
  "suback_properties_body props =
     opt_prop 0x1F write_str (sap_reason_string props) @
     write_user_properties (sap_user_properties props)"

definition suback_properties_decode :: "suback_properties decoder" where
  "suback_properties_decode = decode_properties suback_properties_step suback_properties_default"

definition suback_properties_encode :: "suback_properties \<Rightarrow> bytes" where
  "suback_properties_encode = encode_properties suback_properties_body"

definition wf_suback_properties :: "suback_properties \<Rightarrow> bool" where
  "wf_suback_properties props \<longleftrightarrow>
     pred_option str_ok (sap_reason_string props) \<and>
     user_properties_ok (sap_user_properties props)"

interpretation suback_loop: loop_body suback_properties_step
  by unfold_locales
    (auto simp: suback_properties_step_def step_Ok step_Panic split: if_splits dest!: field_shrinks)

lemma suback_chunk_reason_string:
  "pred_option str_ok v \<Longrightarrow> sap_reason_string s = None \<Longrightarrow>
    dloop suback_properties_step s (opt_prop 0x1F write_str v @ rest) =
    dloop suback_properties_step (s\<lparr>sap_reason_string := v\<rparr>) rest"
  by (rule str_field.opt_chunk [OF suback_loop.loop_body_axioms,
        where store = "\<lambda>v. s\<lparr>sap_reason_string := v\<rparr>"])
    (cases s; simp add: suback_properties_step_def)+

lemma suback_chunk_user_properties:
  "user_properties_ok kvs \<Longrightarrow> sap_user_properties s = [] \<Longrightarrow>
    dloop suback_properties_step s (write_user_properties kvs @ rest) =
    dloop suback_properties_step (s\<lparr>sap_user_properties := kvs\<rparr>) rest"
  using user_properties_chunk [OF suback_loop.loop_body_axioms,
      where store = "\<lambda>v. s\<lparr>sap_user_properties := v\<rparr>" and pre = "[]"]
  by (cases s) (simp add: suback_properties_step_def)

lemmas suback_chunks =
  suback_chunk_reason_string
  suback_chunk_user_properties

lemma suback_body_loop:
  "wf_suback_properties p \<Longrightarrow> dloop suback_properties_step suback_properties_default (suback_properties_body p @ rest) = dloop suback_properties_step p rest"
  by (cases p) (simp add: suback_properties_body_def wf_suback_properties_def suback_properties_default_def suback_chunks)

interpretation suback_record: property_record suback_properties_step suback_properties_default suback_properties_body wf_suback_properties
proof unfold_locales
  show "dloop suback_properties_step suback_properties_default (suback_properties_body p) = Ok p" if "wf_suback_properties p" for p
    using suback_body_loop [OF that, of "[]"] by simp
  show "wf_suback_properties suback_properties_default" "suback_properties_body suback_properties_default = []"
    by (simp_all add: wf_suback_properties_def suback_properties_default_def suback_properties_body_def)
  fix p p' :: suback_properties and buf buf'
  assume *: "suback_properties_step p buf = Ok (p', buf')"
  then show "wf_suback_properties p \<Longrightarrow> wf_suback_properties p'"
    by (auto simp: suback_properties_step_def wf_suback_properties_def step_Ok split: if_splits dest: field_ok)
  from * show "length (suback_properties_body p') + length buf' \<le> length (suback_properties_body p) + length buf"
    by (auto simp: suback_properties_step_def suback_properties_body_def step_Ok split: if_splits dest!: field_length)
qed

section \<open>\<open>DisconnectProperties\<close>\<close>

record disconnect_properties =
  dp_session_expiry_interval :: "u32 option"
  dp_reason_string :: "rstr option"
  dp_user_properties :: "(rstr \<times> rstr) list"
  dp_server_reference :: "rstr option"

definition disconnect_properties_default :: disconnect_properties where
  "disconnect_properties_default =
    \<lparr>dp_session_expiry_interval = None,
     dp_reason_string = None,
     dp_user_properties = [],
     dp_server_reference = None\<rparr>"

definition disconnect_properties_step :: "disconnect_properties \<Rightarrow> disconnect_properties decoder" where
  "disconnect_properties_step props buf =
     and_then (read_u8 buf) (\<lambda>(prop_id, buf).
       if prop_id = 0x11 then
         read_into read_u32 (\<lambda>v. props\<lparr>dp_session_expiry_interval := Some v\<rparr>) buf
       else if prop_id = 0x1F then
         read_into read_str (\<lambda>v. props\<lparr>dp_reason_string := Some v\<rparr>) buf
       else if prop_id = 0x26 then
         read_into (read_pair read_str read_str)
           (\<lambda>kv. props\<lparr>dp_user_properties := dp_user_properties props @ [kv]\<rparr>) buf
       else if prop_id = 0x1C then
         read_into read_str (\<lambda>v. props\<lparr>dp_server_reference := Some v\<rparr>) buf
       else Err MalformedPacket)"

definition disconnect_properties_body :: "disconnect_properties \<Rightarrow> bytes" where
  "disconnect_properties_body props =
     opt_prop 0x11 write_u32 (dp_session_expiry_interval props) @
     opt_prop 0x1F write_str (dp_reason_string props) @
     write_user_properties (dp_user_properties props) @
     opt_prop 0x1C write_str (dp_server_reference props)"

definition disconnect_properties_decode :: "disconnect_properties decoder" where
  "disconnect_properties_decode = decode_properties disconnect_properties_step disconnect_properties_default"

definition disconnect_properties_encode :: "disconnect_properties \<Rightarrow> bytes" where
  "disconnect_properties_encode = encode_properties disconnect_properties_body"

definition wf_disconnect_properties :: "disconnect_properties \<Rightarrow> bool" where
  "wf_disconnect_properties props \<longleftrightarrow>
     pred_option str_ok (dp_reason_string props) \<and>
     user_properties_ok (dp_user_properties props) \<and>
     pred_option str_ok (dp_server_reference props)"

interpretation disconnect_loop: loop_body disconnect_properties_step
  by unfold_locales
    (auto simp: disconnect_properties_step_def step_Ok step_Panic split: if_splits dest!: field_shrinks)

lemma disconnect_chunk_session_expiry_interval:
  "dp_session_expiry_interval s = None \<Longrightarrow>
    dloop disconnect_properties_step s (opt_prop 0x11 write_u32 v @ rest) =
    dloop disconnect_properties_step (s\<lparr>dp_session_expiry_interval := v\<rparr>) rest"
  by (rule u32_field.opt_chunk [OF disconnect_loop.loop_body_axioms,
        where store = "\<lambda>v. s\<lparr>dp_session_expiry_interval := v\<rparr>"])
    (cases s; simp add: disconnect_properties_step_def)+

lemma disconnect_chunk_reason_string:
  "pred_option str_ok v \<Longrightarrow> dp_reason_string s = None \<Longrightarrow>
    dloop disconnect_properties_step s (opt_prop 0x1F write_str v @ rest) =
    dloop disconnect_properties_step (s\<lparr>dp_reason_string := v\<rparr>) rest"
  by (rule str_field.opt_chunk [OF disconnect_loop.loop_body_axioms,
        where store = "\<lambda>v. s\<lparr>dp_reason_string := v\<rparr>"])
    (cases s; simp add: disconnect_properties_step_def)+

lemma disconnect_chunk_user_properties:
  "user_properties_ok kvs \<Longrightarrow> dp_user_properties s = [] \<Longrightarrow>
    dloop disconnect_properties_step s (write_user_properties kvs @ rest) =
    dloop disconnect_properties_step (s\<lparr>dp_user_properties := kvs\<rparr>) rest"
  using user_properties_chunk [OF disconnect_loop.loop_body_axioms,
      where store = "\<lambda>v. s\<lparr>dp_user_properties := v\<rparr>" and pre = "[]"]
  by (cases s) (simp add: disconnect_properties_step_def)

lemma disconnect_chunk_server_reference:
  "pred_option str_ok v \<Longrightarrow> dp_server_reference s = None \<Longrightarrow>
    dloop disconnect_properties_step s (opt_prop 0x1C write_str v @ rest) =
    dloop disconnect_properties_step (s\<lparr>dp_server_reference := v\<rparr>) rest"
  by (rule str_field.opt_chunk [OF disconnect_loop.loop_body_axioms,
        where store = "\<lambda>v. s\<lparr>dp_server_reference := v\<rparr>"])
    (cases s; simp add: disconnect_properties_step_def)+

lemmas disconnect_chunks =
  disconnect_chunk_session_expiry_interval
  disconnect_chunk_reason_string
  disconnect_chunk_user_properties
  disconnect_chunk_server_reference

lemma disconnect_body_loop:
  "wf_disconnect_properties p \<Longrightarrow> dloop disconnect_properties_step disconnect_properties_default (disconnect_properties_body p @ rest) = dloop disconnect_properties_step p rest"
  by (cases p) (simp add: disconnect_properties_body_def wf_disconnect_properties_def disconnect_properties_default_def disconnect_chunks)

interpretation disconnect_record: property_record disconnect_properties_step disconnect_properties_default disconnect_properties_body wf_disconnect_properties
proof unfold_locales
  show "dloop disconnect_properties_step disconnect_properties_default (disconnect_properties_body p) = Ok p" if "wf_disconnect_properties p" for p
    using disconnect_body_loop [OF that, of "[]"] by simp
  show "wf_disconnect_properties disconnect_properties_default" "disconnect_properties_body disconnect_properties_default = []"
    by (simp_all add: wf_disconnect_properties_def disconnect_properties_default_def disconnect_properties_body_def)
  fix p p' :: disconnect_properties and buf buf'
  assume *: "disconnect_properties_step p buf = Ok (p', buf')"
  then show "wf_disconnect_properties p \<Longrightarrow> wf_disconnect_properties p'"
    by (auto simp: disconnect_properties_step_def wf_disconnect_properties_def step_Ok split: if_splits dest: field_ok)
  from * show "length (disconnect_properties_body p') + length buf' \<le> length (disconnect_properties_body p) + length buf"
    by (auto simp: disconnect_properties_step_def disconnect_properties_body_def step_Ok split: if_splits dest!: field_length)
qed

end
