(* ===== verification/Packets.thy ===== *)
theory Packets imports Property_Records begin

text \<open>
  The packets of \<open>src/codec.rs\<close>: the records, and \<open>decode_packet\<close> and \<open>encode_packet\<close> with one
  definition per arm of their \<open>match\<close>.
\<close>

section \<open>The packet types\<close>

record connect =
  c_client_id :: rstr
  c_keep_alive :: u16
  c_clean_start :: bool
  c_username :: "rstr option"
  c_password :: "bytes option"
  c_properties :: connect_properties

record connack =
  ca_session_present :: bool
  ca_reason_code :: u8
  ca_properties :: connack_properties

record publish =
  p_dup :: bool
  p_qos :: u8
  p_retain :: bool
  p_topic :: rstr
  p_packet_id :: "u16 option"
  p_properties :: publish_properties
  p_payload :: bytes

record puback =
  pa_packet_id :: u16
  pa_reason_code :: u8
  pa_properties :: puback_properties

record subscription =
  s_topic_filter :: rstr
  s_options :: u8

record subscribe =
  sub_packet_id :: u16
  sub_properties :: subscribe_properties
  sub_subscriptions :: "subscription list"

record suback =
  sa_packet_id :: u16
  sa_properties :: suback_properties
  sa_reason_codes :: "u8 list"

record disconnect =
  d_reason_code :: u8
  d_properties :: disconnect_properties

datatype packet =
    Connect connect
  | ConnAck connack
  | Publish publish
  | PubAck puback
  | Subscribe subscribe
  | SubAck suback
  | PingReq
  | PingResp
  | Disconnect disconnect

type_synonym 'a decoded = "('a, codec_error) outcome"

section \<open>Decoding\<close>

text \<open>
  The Will fields of a CONNECT are skipped with slice expressions that check nothing: this is the one
  place where \<open>decode_packet\<close> can panic.
\<close>

definition skip_will :: "bool \<Rightarrow> bytes \<Rightarrow> bytes decoded" where
  "skip_will has_will payload =
     (if has_will then
        and_then (decode_varint payload) (\<lambda>(will_props_len, read).
        and_then (slice_from (read + unat will_props_len) payload) (\<lambda>payload.
        and_then (read_u16 payload) (\<lambda>(will_topic_len, payload).
        and_then (slice_from (unat will_topic_len) payload) (\<lambda>payload.
        and_then (read_u16 payload) (\<lambda>(will_payload_len, payload).
          slice_from (unat will_payload_len) payload)))))
      else Ok payload)"

text \<open>\<open>let mut x = None; if flag { x = Some(read(&mut payload)?); }\<close>\<close>

definition read_if :: "bool \<Rightarrow> 'a decoder \<Rightarrow> 'a option decoder" where
  "read_if flag dec payload =
     (if flag then read_into dec Some payload else Ok (None, payload))"

definition decode_connect :: "u8 \<Rightarrow> bytes \<Rightarrow> packet decoded" where
  "decode_connect flags payload =
     (if flags \<noteq> 0 then Err MalformedPacket else
      and_then (read_str payload) (\<lambda>(protocol_name, payload).
      if protocol_name \<noteq> lit ''MQTT'' then Err MalformedPacket else
      and_then (read_u8 payload) (\<lambda>(protocol_level, payload).
      if protocol_level \<noteq> 5 then Err (UnsupportedProtocolVersion protocol_level) else
      and_then (read_u8 payload) (\<lambda>(connect_flags, payload).
      and_then (read_u16 payload) (\<lambda>(keep_alive, payload).
      let clean_start = (connect_flags AND 0x02) \<noteq> 0;
          has_will = (connect_flags AND 0x04) \<noteq> 0;
          has_username = (connect_flags AND 0x80) \<noteq> 0;
          has_password = (connect_flags AND 0x40) \<noteq> 0 in
      and_then (connect_properties_decode payload) (\<lambda>(properties, payload).
      and_then (read_str payload) (\<lambda>(client_id, payload).
      and_then (skip_will has_will payload) (\<lambda>payload.
      and_then (read_if has_username read_str payload) (\<lambda>(username, payload).
      and_then (read_if has_password read_bytes payload) (\<lambda>(password, payload).
        Ok (Connect \<lparr>c_client_id = client_id, c_keep_alive = keep_alive,
          c_clean_start = clean_start, c_username = username, c_password = password,
          c_properties = properties\<rparr>)))))))))))"

definition decode_connack :: "bytes \<Rightarrow> packet decoded" where
  "decode_connack payload =
     and_then (read_u8 payload) (\<lambda>(connack_flags, payload).
     and_then (read_u8 payload) (\<lambda>(reason_code, payload).
     and_then (connack_properties_decode payload) (\<lambda>(properties, payload).
       Ok (ConnAck \<lparr>ca_session_present = (connack_flags AND 0x01) \<noteq> 0,
         ca_reason_code = reason_code, ca_properties = properties\<rparr>))))"

definition decode_publish :: "u8 \<Rightarrow> bytes \<Rightarrow> packet decoded" where
  "decode_publish flags payload =
     (let dup = (flags AND 0x08) \<noteq> 0;
          qos = drop_bit 1 (flags AND 0x06);
          retain = (flags AND 0x01) \<noteq> 0 in
      if 2 < qos then Err MalformedPacket else
      and_then (read_str payload) (\<lambda>(topic, payload).
      and_then (read_if (0 < qos) read_u16 payload) (\<lambda>(packet_id, payload).
      and_then (publish_properties_decode payload) (\<lambda>(properties, payload).
        Ok (Publish \<lparr>p_dup = dup, p_qos = qos, p_retain = retain, p_topic = topic,
          p_packet_id = packet_id, p_properties = properties, p_payload = payload\<rparr>)))))"

text \<open>
  PUBACK and DISCONNECT share their optional tail: a reason code if there are bytes left, properties
  if there are more.
\<close>

definition read_reason :: "'p decoder \<Rightarrow> 'p \<Rightarrow> bytes \<Rightarrow> (u8 \<times> 'p) decoded" where
  "read_reason decode init payload =
     (if payload = [] then Ok (0, init)
      else and_then (read_u8 payload) (\<lambda>(reason_code, payload).
        if payload = [] then Ok (reason_code, init)
        else and_then (decode payload) (\<lambda>(properties, payload). Ok (reason_code, properties))))"

definition decode_puback :: "bytes \<Rightarrow> packet decoded" where
  "decode_puback payload =
     and_then (read_u16 payload) (\<lambda>(packet_id, payload).
     and_then (read_reason puback_properties_decode puback_properties_default payload)
       (\<lambda>(reason_code, properties).
       Ok (PubAck \<lparr>pa_packet_id = packet_id, pa_reason_code = reason_code,
         pa_properties = properties\<rparr>)))"

definition subscription_step :: "subscription list \<Rightarrow> subscription list decoder" where
  "subscription_step subscriptions payload =
     read_into (read_pair read_str read_u8)
       (\<lambda>(topic_filter, options).
         subscriptions @ [\<lparr>s_topic_filter = topic_filter, s_options = options\<rparr>]) payload"

definition decode_subscribe :: "u8 \<Rightarrow> bytes \<Rightarrow> packet decoded" where
  "decode_subscribe flags payload =
     (if flags \<noteq> 0x02 then Err MalformedPacket else
      and_then (read_u16 payload) (\<lambda>(packet_id, payload).
      and_then (subscribe_properties_decode payload) (\<lambda>(properties, payload).
      and_then (dloop subscription_step [] payload) (\<lambda>subscriptions.
        if subscriptions = [] then Err MalformedPacket
        else Ok (Subscribe \<lparr>sub_packet_id = packet_id, sub_properties = properties,
          sub_subscriptions = subscriptions\<rparr>)))))"

definition reason_code_step :: "u8 list \<Rightarrow> u8 list decoder" where
  "reason_code_step reason_codes payload =
     read_into read_u8 (\<lambda>code. reason_codes @ [code]) payload"

definition decode_suback :: "bytes \<Rightarrow> packet decoded" where
  "decode_suback payload =
     and_then (read_u16 payload) (\<lambda>(packet_id, payload).
     and_then (suback_properties_decode payload) (\<lambda>(properties, payload).
     and_then (dloop reason_code_step [] payload) (\<lambda>reason_codes.
       Ok (SubAck \<lparr>sa_packet_id = packet_id, sa_properties = properties,
         sa_reason_codes = reason_codes\<rparr>))))"

definition decode_ping :: "packet \<Rightarrow> u8 \<Rightarrow> u32 \<Rightarrow> packet decoded" where
  "decode_ping ping flags remaining_len =
     (if flags \<noteq> 0 \<or> remaining_len \<noteq> 0 then Err MalformedPacket else Ok ping)"

definition decode_disconnect :: "bytes \<Rightarrow> packet decoded" where
  "decode_disconnect payload =
     and_then (read_reason disconnect_properties_decode disconnect_properties_default payload)
       (\<lambda>(reason_code, properties).
       Ok (Disconnect \<lparr>d_reason_code = reason_code, d_properties = properties\<rparr>))"

text \<open>The \<open>match packet_type\<close> of \<open>decode_packet\<close>.\<close>

definition decode_payload :: "u8 \<Rightarrow> u8 \<Rightarrow> u32 \<Rightarrow> bytes \<Rightarrow> packet decoded" where
  "decode_payload packet_type flags remaining_len payload =
     (if packet_type = 1 then decode_connect flags payload
      else if packet_type = 2 then decode_connack payload
      else if packet_type = 3 then decode_publish flags payload
      else if packet_type = 4 then decode_puback payload
      else if packet_type = 8 then decode_subscribe flags payload
      else if packet_type = 9 then decode_suback payload
      else if packet_type = 12 then decode_ping PingReq flags remaining_len
      else if packet_type = 13 then decode_ping PingResp flags remaining_len
      else if packet_type = 14 then decode_disconnect payload
      else Err MalformedPacket)"

definition decode_packet :: "bytes \<Rightarrow> (packet \<times> nat) decoded" where
  "decode_packet raw_buf =
     (let original_len = length raw_buf in
      and_then (read_u8 raw_buf) (\<lambda>(fixed_header_byte, raw_buf).
      let packet_type = drop_bit 4 fixed_header_byte;
          flags = fixed_header_byte AND 0x0F in
      and_then (decode_varint raw_buf) (\<lambda>(remaining_len, read).
      and_then (slice_from read raw_buf) (\<lambda>raw_buf.
      if length raw_buf < unat remaining_len then Err Incomplete else
      let payload = take (unat remaining_len) raw_buf;
          total_read = original_len - length raw_buf + unat remaining_len in
      and_then (decode_payload packet_type flags remaining_len payload) (\<lambda>packet.
        Ok (packet, total_read))))))"

section \<open>Encoding\<close>

text \<open>Each arm gives the fixed header byte and the payload.\<close>

definition encode_connect :: "connect \<Rightarrow> u8 \<times> bytes" where
  "encode_connect pkt =
     (let connect_flags = (if c_clean_start pkt then 0x02 else 0)
            OR (if c_username pkt \<noteq> None then 0x80 else 0)
            OR (if c_password pkt \<noteq> None then 0x40 else 0) in
      (push_bit 4 1,
       write_str (lit ''MQTT'') @ [5] @ [connect_flags] @ write_u16 (c_keep_alive pkt) @
       connect_properties_encode (c_properties pkt) @
       write_str (c_client_id pkt) @
       (case c_username pkt of None \<Rightarrow> [] | Some user \<Rightarrow> write_str user) @
       (case c_password pkt of None \<Rightarrow> [] | Some pass \<Rightarrow> write_bytes pass)))"

definition encode_connack :: "connack \<Rightarrow> u8 \<times> bytes" where
  "encode_connack pkt =
     (push_bit 4 2,
      [if ca_session_present pkt then 1 else 0] @ [ca_reason_code pkt] @
      connack_properties_encode (ca_properties pkt))"

definition encode_publish :: "publish \<Rightarrow> u8 \<times> bytes" where
  "encode_publish pkt =
     (push_bit 4 3 OR (if p_dup pkt then 0x08 else 0) OR push_bit 1 (p_qos pkt AND 0x03)
        OR (if p_retain pkt then 0x01 else 0),
      write_str (p_topic pkt) @
      (case p_packet_id pkt of None \<Rightarrow> [] | Some pid \<Rightarrow> write_u16 pid) @
      publish_properties_encode (p_properties pkt) @
      p_payload pkt)"

definition encode_puback :: "puback \<Rightarrow> u8 \<times> bytes" where
  "encode_puback pkt =
     (let props = pa_properties pkt;
          has_props = pap_reason_string props \<noteq> None \<or> pap_user_properties props \<noteq> [] in
      (push_bit 4 4,
       write_u16 (pa_packet_id pkt) @
       (if has_props \<or> pa_reason_code pkt \<noteq> 0
        then [pa_reason_code pkt] @ puback_properties_encode props else [])))"

fun write_subscriptions :: "subscription list \<Rightarrow> bytes" where
  "write_subscriptions [] = []"
| "write_subscriptions (sub # subs) =
     write_str (s_topic_filter sub) @ [s_options sub] @ write_subscriptions subs"

definition encode_subscribe :: "subscribe \<Rightarrow> u8 \<times> bytes" where
  "encode_subscribe pkt =
     (push_bit 4 8 OR 0x02,
      write_u16 (sub_packet_id pkt) @
      subscribe_properties_encode (sub_properties pkt) @
      write_subscriptions (sub_subscriptions pkt))"

definition encode_suback :: "suback \<Rightarrow> u8 \<times> bytes" where
  "encode_suback pkt =
     (push_bit 4 9,
      write_u16 (sa_packet_id pkt) @
      suback_properties_encode (sa_properties pkt) @
      sa_reason_codes pkt)"

definition encode_disconnect :: "disconnect \<Rightarrow> u8 \<times> bytes" where
  "encode_disconnect pkt =
     (let props = d_properties pkt;
          has_props = dp_session_expiry_interval props \<noteq> None \<or> dp_reason_string props \<noteq> None
            \<or> dp_server_reference props \<noteq> None \<or> dp_user_properties props \<noteq> [] in
      (push_bit 4 14,
       (if has_props \<or> d_reason_code pkt \<noteq> 0
        then [d_reason_code pkt] @ disconnect_properties_encode props else [])))"

fun encode_payload :: "packet \<Rightarrow> u8 \<times> bytes" where
  "encode_payload (Connect pkt) = encode_connect pkt"
| "encode_payload (ConnAck pkt) = encode_connack pkt"
| "encode_payload (Publish pkt) = encode_publish pkt"
| "encode_payload (PubAck pkt) = encode_puback pkt"
| "encode_payload (Subscribe pkt) = encode_subscribe pkt"
| "encode_payload (SubAck pkt) = encode_suback pkt"
| "encode_payload PingReq = (push_bit 4 12, [])"
| "encode_payload PingResp = (push_bit 4 13, [])"
| "encode_payload (Disconnect pkt) = encode_disconnect pkt"

definition encode_packet :: "packet \<Rightarrow> bytes" where
  "encode_packet packet =
     (let (fixed_header_byte, payload) = encode_payload packet in
      fixed_header_byte # encode_varint (of_nat (length payload)) @ payload)"

end
