(* ===== verification/Codec.thy ===== *)
theory Codec imports Packets begin

text \<open>
  What the codec promises: decoding undoes encoding on every packet the format can carry, a decoded
  packet is one of those, the number of bytes consumed is that of the frame, a verdict depends on the
  frame only, and a panic needs a CONNECT with the Will flag.
\<close>

section \<open>Packets the format can carry\<close>

definition wf_connect :: "connect \<Rightarrow> bool" where
  "wf_connect pkt \<longleftrightarrow> str_ok (c_client_id pkt) \<and> pred_option str_ok (c_username pkt) \<and>
     pred_option bytes_ok (c_password pkt) \<and> wf_connect_properties (c_properties pkt)"

text \<open>A packet identifier is there exactly when the QoS is 1 or 2.\<close>

definition wf_publish :: "publish \<Rightarrow> bool" where
  "wf_publish pkt \<longleftrightarrow> str_ok (p_topic pkt) \<and> p_qos pkt \<le> 2 \<and>
     (p_packet_id pkt \<noteq> None \<longleftrightarrow> 0 < p_qos pkt) \<and> wf_publish_properties (p_properties pkt)"

definition wf_subscribe :: "subscribe \<Rightarrow> bool" where
  "wf_subscribe pkt \<longleftrightarrow> wf_subscribe_properties (sub_properties pkt) \<and> sub_subscriptions pkt \<noteq> [] \<and>
     (\<forall>sub \<in> set (sub_subscriptions pkt). str_ok (s_topic_filter sub))"

fun wf_fields :: "packet \<Rightarrow> bool" where
  "wf_fields (Connect pkt) = wf_connect pkt"
| "wf_fields (ConnAck pkt) = wf_connack_properties (ca_properties pkt)"
| "wf_fields (Publish pkt) = wf_publish pkt"
| "wf_fields (PubAck pkt) = wf_puback_properties (pa_properties pkt)"
| "wf_fields (Subscribe pkt) = wf_subscribe pkt"
| "wf_fields (SubAck pkt) = wf_suback_properties (sa_properties pkt)"
| "wf_fields PingReq = True"
| "wf_fields PingResp = True"
| "wf_fields (Disconnect pkt) = wf_disconnect_properties (d_properties pkt)"

text \<open>A remaining length has at most four bytes.\<close>

definition wf_packet :: "packet \<Rightarrow> bool" where
  "wf_packet packet \<longleftrightarrow> wf_fields packet \<and> length (snd (encode_payload packet)) < 2 ^ 28"

section \<open>The two loops of \<open>decode_packet\<close>\<close>

interpretation subscription_field: pair_codec write_str read_str str_ok "\<lambda>b. [b]" read_u8 "\<lambda>_. True"
  by unfold_locales

interpretation subscription_loop: loop_body subscription_step
  by unfold_locales
    (auto simp: subscription_step_def read_into_Ok read_into_Panic subscription_field.pair.dec_no_panic
      dest: subscription_field.pair.dec_shrinks)

interpretation reason_code_loop: loop_body reason_code_step
  by unfold_locales
    (auto simp: reason_code_step_def read_into_Ok read_into_Panic dest: u8_field.dec_shrinks)

lemma subscription_loop_write:
  assumes "\<forall>sub \<in> set subs. str_ok (s_topic_filter sub)"
  shows "dloop subscription_step pre (write_subscriptions subs) = Ok (pre @ subs)"
  using assms
proof (induction subs arbitrary: pre)
  case (Cons sub subs)
  then have "pair_ok str_ok (\<lambda>_. True) (s_topic_filter sub, s_options sub)" by (simp add: pair_ok_def)
  from subscription_field.pair.dec_enc [OF this, of "write_subscriptions subs"]
  have "subscription_step pre ((write_str (s_topic_filter sub) @ [s_options sub]) @ write_subscriptions subs)
      = Ok (pre @ [sub], write_subscriptions subs)"
    by (simp add: subscription_step_def read_into_def write_pair_def)
  from subscription_loop.loop_step [OF this] Cons show ?case by simp
qed simp

lemma reason_code_loop_write: "dloop reason_code_step pre codes = Ok (pre @ codes)"
proof (induction codes arbitrary: pre)
  case (Cons c codes)
  have "reason_code_step pre ([c] @ codes) = Ok (pre @ [c], codes)"
    by (simp add: reason_code_step_def read_into_def)
  from reason_code_loop.loop_step [OF this] Cons show ?case by simp
qed simp

section \<open>Each arm of the decoder undoes its arm of the encoder\<close>

lemmas property_codec_defs =
  connect_properties_decode_def connect_properties_encode_def
  connack_properties_decode_def connack_properties_encode_def
  publish_properties_decode_def publish_properties_encode_def
  puback_properties_decode_def puback_properties_encode_def
  subscribe_properties_decode_def subscribe_properties_encode_def
  suback_properties_decode_def suback_properties_encode_def
  disconnect_properties_decode_def disconnect_properties_encode_def

lemma read_if_write:
  "pred_option str_ok v \<Longrightarrow> read_if (v \<noteq> None) read_str ((case v of None \<Rightarrow> [] | Some x \<Rightarrow> write_str x) @ rest)
     = Ok (v, rest)"
  "pred_option bytes_ok w \<Longrightarrow> read_if (w \<noteq> None) read_bytes ((case w of None \<Rightarrow> [] | Some x \<Rightarrow> write_bytes x) @ rest)
     = Ok (w, rest)"
  "read_if (u \<noteq> None) read_u16 ((case u of None \<Rightarrow> [] | Some x \<Rightarrow> write_u16 x) @ rest) = Ok (u, rest)"
  by (auto simp: read_if_def read_into_def str_field.dec_enc bytes_field.dec_enc split: option.splits)

lemma mqtt_ok: "str_ok (lit ''MQTT'')"
  by (simp add: str_ok_def utf8_valid_ascii)

lemma property_encode_nonempty:
  "connect_properties_encode a \<noteq> []" "connack_properties_encode b \<noteq> []"
  "publish_properties_encode c \<noteq> []" "puback_properties_encode d \<noteq> []"
  "subscribe_properties_encode e \<noteq> []" "suback_properties_encode f \<noteq> []"
  "disconnect_properties_encode g \<noteq> []"
  by (simp_all add: property_codec_defs encode_properties_def Let_def)

lemma connect_arm:
  assumes "wf_connect pkt" and "length (snd (encode_connect pkt)) < 2 ^ 28"
  shows "decode_connect 0 (snd (encode_connect pkt)) = Ok (Connect pkt)"
proof -
  define fl :: u8 where "fl = (if c_clean_start pkt then 0x02 else 0)
    OR (if c_username pkt \<noteq> None then 0x80 else 0) OR (if c_password pkt \<noteq> None then 0x40 else 0)"
  have bits: "(fl AND 0x02 \<noteq> 0) = c_clean_start pkt" "fl AND 0x04 = 0"
    "(fl AND 0x80 \<noteq> 0) = (c_username pkt \<noteq> None)" "(fl AND 0x40 \<noteq> 0) = (c_password pkt \<noteq> None)"
    by (simp_all add: fl_def)
  have wf: "str_ok (c_client_id pkt)" "pred_option str_ok (c_username pkt)"
    "pred_option bytes_ok (c_password pkt)" "wf_connect_properties (c_properties pkt)"
    using assms(1) by (auto simp: wf_connect_def)
  have "connect_properties_decode (connect_properties_encode (c_properties pkt) @ rest)
      = Ok (c_properties pkt, rest)" for rest
    unfolding connect_properties_decode_def connect_properties_encode_def
    by (rule connect_record.decode_encode_le [OF wf(4) _ assms(2)])
      (simp add: encode_connect_def Let_def connect_properties_encode_def)
  then show ?thesis
    using read_if_write(2) [OF wf(3), of "[]"]
    by (simp add: encode_connect_def decode_connect_def Let_def str_field.dec_enc mqtt_ok bits
        wf read_if_write fl_def [symmetric] skip_will_def del: lit_simps not_None_eq)
qed

lemma connack_arm:
  assumes "wf_connack_properties (ca_properties pkt)" and "length (snd (encode_connack pkt)) < 2 ^ 28"
  shows "decode_connack (snd (encode_connack pkt)) = Ok (ConnAck pkt)"
proof -
  have "connack_properties_decode (connack_properties_encode (ca_properties pkt) @ [])
      = Ok (ca_properties pkt, [])"
    unfolding connack_properties_decode_def connack_properties_encode_def
    by (rule connack_record.decode_encode_le [OF assms(1) _ assms(2)])
      (simp add: encode_connack_def connack_properties_encode_def)
  then show ?thesis by (simp add: encode_connack_def decode_connack_def)
qed

lemma qos_cases: "qos \<le> 2 \<Longrightarrow> qos = 0 \<or> qos = 1 \<or> qos = 2" for qos :: u8
proof -
  assume "qos \<le> 2"
  then have "unat qos = 0 \<or> unat qos = 1 \<or> unat qos = 2" by (auto simp: word_le_nat_alt)
  then show ?thesis by (simp add: word_unat_eq_iff)
qed

lemma publish_header:
  fixes dup retain :: bool
  assumes "qos \<le> 2"
  defines "h \<equiv> push_bit 4 3 OR (if dup then 0x08 else 0) OR push_bit 1 (qos AND 0x03)
    OR (if retain then 0x01 else 0) :: u8"
  shows "drop_bit 4 h = 3" and "((h AND 15) AND 0x08 \<noteq> 0) = dup"
    and "drop_bit 1 ((h AND 15) AND 0x06) = qos" and "((h AND 15) AND 0x01 \<noteq> 0) = retain"
  using qos_cases [OF assms(1)] unfolding h_def by auto

lemma publish_arm:
  assumes "wf_publish pkt" and "length (snd (encode_publish pkt)) < 2 ^ 28"
  shows "decode_publish (fst (encode_publish pkt) AND 15) (snd (encode_publish pkt)) = Ok (Publish pkt)"
proof -
  have wf: "str_ok (p_topic pkt)" "p_qos pkt \<le> 2" "(0 < p_qos pkt) = (p_packet_id pkt \<noteq> None)"
    "wf_publish_properties (p_properties pkt)"
    using assms(1) by (auto simp: wf_publish_def)
  have "publish_properties_decode (publish_properties_encode (p_properties pkt) @ rest)
      = Ok (p_properties pkt, rest)" for rest
    unfolding publish_properties_decode_def publish_properties_encode_def
    by (rule publish_record.decode_encode_le [OF wf(4) _ assms(2)])
      (simp add: encode_publish_def publish_properties_encode_def)
  then show ?thesis
    using publish_header [OF wf(2), of "p_dup pkt" "p_retain pkt"] wf(2)
    by (simp add: encode_publish_def decode_publish_def Let_def str_field.dec_enc wf(1,3)
        read_if_write(3) not_less del: not_None_eq)
qed

text \<open>
  PUBACK and DISCONNECT leave out a reason code of 0 with no properties; read back, the record is the
  default one, which is then what it was.
\<close>

lemma puback_arm:
  assumes "wf_puback_properties (pa_properties pkt)" and "length (snd (encode_puback pkt)) < 2 ^ 28"
  shows "decode_puback (snd (encode_puback pkt)) = Ok (PubAck pkt)"
proof (cases "pap_reason_string (pa_properties pkt) = None \<and> pap_user_properties (pa_properties pkt) = []
    \<and> pa_reason_code pkt = 0")
  case True
  then have "pa_properties pkt = puback_properties_default"
    by (cases "pa_properties pkt") (simp add: puback_properties_default_def)
  with True show ?thesis
    using read_u16_write [of "pa_packet_id pkt" "[]"]
    by (cases pkt) (simp add: encode_puback_def decode_puback_def Let_def read_reason_def)
next
  case False
  then have e: "snd (encode_puback pkt) =
      write_u16 (pa_packet_id pkt) @ [pa_reason_code pkt] @ puback_properties_encode (pa_properties pkt)"
    by (auto simp: encode_puback_def Let_def)
  have "puback_properties_decode (puback_properties_encode (pa_properties pkt) @ [])
      = Ok (pa_properties pkt, [])"
    unfolding puback_properties_decode_def puback_properties_encode_def
    by (rule puback_record.decode_encode_le [OF assms(1) _ assms(2)])
      (simp add: e puback_properties_encode_def)
  then show ?thesis
    by (simp add: e decode_puback_def read_reason_def property_encode_nonempty)
qed

lemma disconnect_arm:
  assumes "wf_disconnect_properties (d_properties pkt)" and "length (snd (encode_disconnect pkt)) < 2 ^ 28"
  shows "decode_disconnect (snd (encode_disconnect pkt)) = Ok (Disconnect pkt)"
proof (cases "dp_session_expiry_interval (d_properties pkt) = None \<and> dp_reason_string (d_properties pkt) = None
    \<and> dp_server_reference (d_properties pkt) = None \<and> dp_user_properties (d_properties pkt) = []
    \<and> d_reason_code pkt = 0")
  case True
  then have "d_properties pkt = disconnect_properties_default"
    by (cases "d_properties pkt") (simp add: disconnect_properties_default_def)
  with True show ?thesis
    by (cases pkt) (simp add: encode_disconnect_def decode_disconnect_def Let_def read_reason_def)
next
  case False
  then have e: "snd (encode_disconnect pkt) =
      [d_reason_code pkt] @ disconnect_properties_encode (d_properties pkt)"
    by (auto simp: encode_disconnect_def Let_def)
  have "disconnect_properties_decode (disconnect_properties_encode (d_properties pkt) @ [])
      = Ok (d_properties pkt, [])"
    unfolding disconnect_properties_decode_def disconnect_properties_encode_def
    by (rule disconnect_record.decode_encode_le [OF assms(1) _ assms(2)])
      (simp add: e disconnect_properties_encode_def)
  then show ?thesis
    by (simp add: e decode_disconnect_def read_reason_def property_encode_nonempty)
qed

lemma subscribe_arm:
  assumes "wf_subscribe pkt" and "length (snd (encode_subscribe pkt)) < 2 ^ 28"
  shows "decode_subscribe 2 (snd (encode_subscribe pkt)) = Ok (Subscribe pkt)"
proof -
  have wf: "wf_subscribe_properties (sub_properties pkt)" "sub_subscriptions pkt \<noteq> []"
    "\<forall>sub \<in> set (sub_subscriptions pkt). str_ok (s_topic_filter sub)"
    using assms(1) by (auto simp: wf_subscribe_def)
  have "subscribe_properties_decode (subscribe_properties_encode (sub_properties pkt) @ rest)
      = Ok (sub_properties pkt, rest)" for rest
    unfolding subscribe_properties_decode_def subscribe_properties_encode_def
    by (rule subscribe_record.decode_encode_le [OF wf(1) _ assms(2)])
      (simp add: encode_subscribe_def subscribe_properties_encode_def)
  then show ?thesis
    by (simp add: encode_subscribe_def decode_subscribe_def subscription_loop_write [OF wf(3)] wf(2))
qed

lemma suback_arm:
  assumes "wf_suback_properties (sa_properties pkt)" and "length (snd (encode_suback pkt)) < 2 ^ 28"
  shows "decode_suback (snd (encode_suback pkt)) = Ok (SubAck pkt)"
proof -
  have "suback_properties_decode (suback_properties_encode (sa_properties pkt) @ rest)
      = Ok (sa_properties pkt, rest)" for rest
    unfolding suback_properties_decode_def suback_properties_encode_def
    by (rule suback_record.decode_encode_le [OF assms(1) _ assms(2)])
      (simp add: encode_suback_def suback_properties_encode_def)
  then show ?thesis
    by (simp add: encode_suback_def decode_suback_def reason_code_loop_write)
qed

section \<open>The frame\<close>

text \<open>
  \<open>split_frame\<close> is the part of \<open>decode_packet\<close> before the \<open>match\<close>: the fixed header byte, the
  remaining length and the payload, or \<open>Incomplete\<close> when the buffer ends before the frame does.
\<close>

definition split_frame :: "bytes \<Rightarrow> (u8 \<times> u32 \<times> bytes \<times> nat) decoded" where
  "split_frame buf =
     and_then (read_u8 buf) (\<lambda>(h, b1).
     and_then (decode_varint b1) (\<lambda>(n, k).
       if length (drop k b1) < unat n then Err Incomplete
       else Ok (h, n, take (unat n) (drop k b1), 1 + k + unat n)))"

lemma decode_packet_split:
  "decode_packet buf =
     and_then (split_frame buf) (\<lambda>(h, n, payload, tot).
       and_then (decode_payload (drop_bit 4 h) (h AND 0x0F) n payload) (\<lambda>packet. Ok (packet, tot)))"
proof (cases buf)
  case (Cons h b1)
  show ?thesis
  proof (cases "decode_varint b1")
    case (Ok nk)
    obtain n k where nk: "nk = (n, k)" by (cases nk)
    have k: "k \<le> length b1" using decode_varint_Ok(3) Ok nk by blast
    then have "Suc (length b1) - length (drop k b1) + unat n = 1 + k + unat n" by simp
    with Ok nk k Cons show ?thesis
      by (simp add: decode_packet_def split_frame_def Let_def slice_from_def)
  qed (use Cons in \<open>simp_all add: decode_packet_def split_frame_def Let_def\<close>)
qed (simp add: decode_packet_def split_frame_def Let_def)

lemma split_frame_Ok:
  assumes "split_frame buf = Ok (h, n, payload, tot)"
  shows "2 \<le> tot" and "tot \<le> length buf" and "length payload = unat n" and "unat n < 2 ^ 28"
    and "tot \<le> 1 + 4 + unat n" and "unat n + 2 \<le> tot"
proof -
  from assms obtain b1 k where b: "buf = h # b1" "decode_varint b1 = Ok (n, k)"
    "unat n \<le> length b1 - k" "payload = take (unat n) (drop k b1)" "tot = 1 + k + unat n"
    by (auto simp: split_frame_def and_then_Ok_iff read_u8_Ok not_less split: if_splits)
  with decode_varint_Ok [OF b(2)]
  show "2 \<le> tot" "tot \<le> length buf" "length payload = unat n" "unat n < 2 ^ 28"
    "tot \<le> 1 + 4 + unat n" "unat n + 2 \<le> tot"
    by simp_all
qed

text \<open>A frame that is there stays there, whatever arrives after it.\<close>

lemma split_frame_append:
  assumes "split_frame buf = Ok r"
  shows "split_frame (buf @ rest) = Ok r"
proof -
  from assms obtain h b1 n k where b: "buf = h # b1" "decode_varint b1 = Ok (n, k)"
    "unat n \<le> length b1 - k" "r = (h, n, take (unat n) (drop k b1), 1 + k + unat n)"
    by (auto simp: split_frame_def and_then_Ok_iff read_u8_Ok not_less split: if_splits)
  moreover have "k \<le> length b1" using decode_varint_Ok(3) [OF b(2)] .
  ultimately show ?thesis
    by (simp add: split_frame_def decode_varint_append)
qed

lemma split_frame_take:
  assumes "split_frame buf = Ok (h, n, payload, tot)"
  shows "split_frame (take tot buf) = Ok (h, n, payload, tot)"
proof -
  from assms obtain b1 k where b: "buf = h # b1" "decode_varint b1 = Ok (n, k)"
    "unat n \<le> length b1 - k" "payload = take (unat n) (drop k b1)" "tot = 1 + k + unat n"
    by (auto simp: split_frame_def and_then_Ok_iff read_u8_Ok not_less split: if_splits)
  have k: "k \<le> length b1" "0 < k" using decode_varint_Ok [OF b(2)] by auto
  have "decode_varint (take (k + unat n) b1) = Ok (n, k)"
    by (rule decode_varint_prefix [OF b(2)]) simp
  with b k show ?thesis
    by (simp add: split_frame_def drop_take min_absorb2)
qed

lemma split_frame_encode:
  assumes "length payload < 2 ^ 28"
  shows "split_frame (h # encode_varint (of_nat (length payload)) @ payload @ rest) =
    Ok (h, of_nat (length payload), payload,
      length (h # encode_varint (of_nat (length payload)) @ payload))"
proof -
  have "unat (of_nat (length payload) :: u32) = length payload"
    using assms by (simp add: unat_of_nat)
  with assms show ?thesis by (simp add: split_frame_def decode_encode_varint)
qed

section \<open>Decoding undoes encoding\<close>

lemma decode_payload_encode:
  assumes "wf_packet packet" and "encode_payload packet = (h, payload)"
  shows "decode_payload (drop_bit 4 h) (h AND 0x0F) (of_nat (length payload)) payload = Ok packet"
proof -
  have h: "h = fst (encode_payload packet)" and p: "payload = snd (encode_payload packet)"
    using assms(2) by simp_all
  have wf: "wf_fields packet" and len: "length (snd (encode_payload packet)) < 2 ^ 28"
    using assms(1) by (simp_all add: wf_packet_def)
  show ?thesis
  proof (cases packet)
    case (Connect pkt)
    with wf len connect_arm [of pkt] show ?thesis
      by (simp add: h p decode_payload_def) (simp add: encode_connect_def Let_def)
  next
    case (ConnAck pkt)
    with wf len connack_arm [of pkt] show ?thesis
      by (simp add: h p decode_payload_def) (simp add: encode_connack_def Let_def)
  next
    case (Publish pkt)
    with wf have "p_qos pkt \<le> 2" by (simp add: wf_publish_def)
    from publish_header(1) [OF this] have "drop_bit 4 (fst (encode_publish pkt)) = 3"
      by (simp add: encode_publish_def)
    with Publish wf len publish_arm [of pkt] show ?thesis
      by (simp add: h p decode_payload_def)
  next
    case (PubAck pkt)
    with wf len puback_arm [of pkt] show ?thesis
      by (simp add: h p decode_payload_def) (simp add: encode_puback_def Let_def)
  next
    case (Subscribe pkt)
    with wf len subscribe_arm [of pkt] show ?thesis
      by (simp add: h p decode_payload_def) (simp add: encode_subscribe_def Let_def)
  next
    case (SubAck pkt)
    with wf len suback_arm [of pkt] show ?thesis
      by (simp add: h p decode_payload_def) (simp add: encode_suback_def Let_def)
  next
    case (Disconnect pkt)
    with wf len disconnect_arm [of pkt] show ?thesis
      by (simp add: h p decode_payload_def) (simp add: encode_disconnect_def Let_def)
  qed (simp_all add: h p decode_payload_def decode_ping_def)
qed

lemma packet_roundtrip:
  assumes "wf_packet packet"
  shows "decode_packet (encode_packet packet @ rest) = Ok (packet, length (encode_packet packet))"
proof -
  obtain h payload where e: "encode_payload packet = (h, payload)" by (cases "encode_payload packet")
  have len: "length payload < 2 ^ 28" using assms by (simp add: wf_packet_def e)
  have b: "encode_packet packet = h # encode_varint (of_nat (length payload)) @ payload"
    by (simp add: encode_packet_def e)
  from split_frame_encode [OF len, of h rest] decode_payload_encode [OF assms e]
  show ?thesis by (simp add: decode_packet_split b)
qed

section \<open>A decoded packet is one the format can carry\<close>

lemma read_if_Ok:
  "read_if flag dec buf = Ok (v, rest) \<longleftrightarrow>
     (if flag then \<exists>x. v = Some x \<and> dec buf = Ok (x, rest) else v = None \<and> rest = buf)"
  by (auto simp: read_if_def read_into_Ok)

lemma skip_will_length: "skip_will has_will payload = Ok rest \<Longrightarrow> length rest \<le> length payload"
  by (auto simp: skip_will_def slice_from_def and_then_Ok_iff split: if_splits
      dest!: u16_field.dec_shrinks)

definition fits :: "packet \<Rightarrow> nat \<Rightarrow> bool" where
  "fits packet n \<longleftrightarrow> wf_fields packet \<and> length (snd (encode_payload packet)) \<le> max n 65540"

lemma connect_sound: "decode_connect flags payload = Ok packet \<Longrightarrow> fits packet (length payload)"
proof -
  assume "decode_connect flags payload = Ok packet"
  then obtain b1 b2 b3 b4 b5 b6 b7 b8 b9 lvl fl ka props cid user pass where
    r1: "read_str payload = Ok (lit ''MQTT'', b1)" and r2: "read_u8 b1 = Ok (lvl, b2)" and
    r3: "read_u8 b2 = Ok (fl, b3)" and r4: "read_u16 b3 = Ok (ka, b4)" and
    r5: "connect_properties_decode b4 = Ok (props, b5)" and r6: "read_str b5 = Ok (cid, b6)" and
    r7: "skip_will (fl AND 4 \<noteq> 0) b6 = Ok b7" and
    r8: "read_if (fl AND 0x80 \<noteq> 0) read_str b7 = Ok (user, b8)" and
    r9: "read_if (fl AND 0x40 \<noteq> 0) read_bytes b8 = Ok (pass, b9)" and
    p: "packet = Connect \<lparr>c_client_id = cid, c_keep_alive = ka, c_clean_start = (fl AND 2 \<noteq> 0),
        c_username = user, c_password = pass, c_properties = props\<rparr>"
    by (auto simp: decode_connect_def Let_def and_then_Ok_iff split: if_splits)
  have "b5 \<noteq> []" using str_field.dec_shrinks [OF r6] by auto
  then have "b4 \<noteq> []"
    using connect_record.decode_Ok(3) r5 by (auto simp: connect_properties_decode_def)
  note props = connect_record.decode_Ok(1,5) [OF r5 [unfolded connect_properties_decode_def]]
  have l7: "length b7 \<le> length b6" using r7 by (rule skip_will_length)
  have wf: "wf_fields packet"
    using props(1) str_field.dec_ok [OF r6] r8 r9
    by (auto simp: p wf_connect_def read_if_Ok split: if_splits dest: str_field.dec_ok bytes_field.dec_ok)
  have "length (case user of None \<Rightarrow> [] | Some x \<Rightarrow> write_str x) + length b8 \<le> length b7"
    using r8 by (auto simp: read_if_Ok split: if_splits dest!: str_field.dec_length)
  moreover have "length (case pass of None \<Rightarrow> [] | Some x \<Rightarrow> write_bytes x) + length b9 \<le> length b8"
    using r9 by (auto simp: read_if_Ok split: if_splits dest!: bytes_field.dec_length)
  ultimately have "length (snd (encode_payload packet)) \<le> length payload"
    using str_field.dec_length [OF r1] u8_field.dec_length [OF r2] u8_field.dec_length [OF r3]
      u16_field.dec_length [OF r4] props(2) [OF \<open>b4 \<noteq> []\<close>] str_field.dec_length [OF r6] l7
    by (simp add: p encode_connect_def Let_def connect_properties_encode_def)
  with wf show ?thesis by (simp add: fits_def)
qed

lemma connack_sound: "decode_connack payload = Ok packet \<Longrightarrow> fits packet (length payload)"
proof -
  assume "decode_connack payload = Ok packet"
  then obtain b1 b2 b3 fl rc props where r1: "read_u8 payload = Ok (fl, b1)" and
    r2: "read_u8 b1 = Ok (rc, b2)" and r3: "connack_properties_decode b2 = Ok (props, b3)" and
    p: "packet = ConnAck \<lparr>ca_session_present = (fl AND 1 \<noteq> 0), ca_reason_code = rc, ca_properties = props\<rparr>"
    by (auto simp: decode_connack_def and_then_Ok_iff)
  note props = connack_record.decode_Ok [OF r3 [unfolded connack_properties_decode_def]]
  show ?thesis
  proof (cases "b2 = []")
    case True
    with props(3) show ?thesis
      by (simp add: fits_def p encode_connack_def connack_properties_encode_def encode_properties_def
          connack_record.init_wf connack_record.init_body encode_varint_small)
  next
    case False
    with props(1,5) u8_field.dec_length [OF r1] u8_field.dec_length [OF r2] show ?thesis
      by (simp add: fits_def p encode_connack_def connack_properties_encode_def)
  qed
qed

lemma publish_sound: "decode_publish flags payload = Ok packet \<Longrightarrow> fits packet (length payload)"
proof -
  assume "decode_publish flags payload = Ok packet"
  then obtain b1 b2 b3 topic pid props where
    q: "drop_bit 1 (flags AND 6) \<le> 2" and r1: "read_str payload = Ok (topic, b1)" and
    r2: "read_if (0 < drop_bit 1 (flags AND 6)) read_u16 b1 = Ok (pid, b2)" and
    r3: "publish_properties_decode b2 = Ok (props, b3)" and
    p: "packet = Publish \<lparr>p_dup = (flags AND 8 \<noteq> 0), p_qos = drop_bit 1 (flags AND 6),
      p_retain = (flags AND 1 \<noteq> 0), p_topic = topic, p_packet_id = pid, p_properties = props,
      p_payload = b3\<rparr>"
    by (auto simp: decode_publish_def Let_def and_then_Ok_iff not_less split: if_splits)
  note props = publish_record.decode_Ok [OF r3 [unfolded publish_properties_decode_def]]
  have wf: "wf_fields packet"
    using q str_field.dec_ok [OF r1] r2 props(1) by (auto simp: p wf_publish_def read_if_Ok split: if_splits)
  have l2: "length (case pid of None \<Rightarrow> [] | Some x \<Rightarrow> write_u16 x) + length b2 \<le> length b1"
    using r2 by (auto simp: read_if_Ok split: if_splits dest!: u16_field.dec_length)
  have l1: "length (write_str topic) + length b1 \<le> length payload" using str_field.dec_length [OF r1] .
  show ?thesis
  proof (cases "b2 = []")
    case True
    have "length (case pid of None \<Rightarrow> [] | Some x \<Rightarrow> write_u16 x) \<le> 2" by (simp split: option.split)
    moreover have "length topic < 2 ^ 16" using str_field.dec_ok [OF r1] by (simp add: str_ok_def)
    ultimately show ?thesis using True props(3) wf
      by (simp add: fits_def p encode_publish_def publish_properties_encode_def encode_properties_def
          publish_record.init_body encode_varint_small)
  next
    case False
    with props(5) l1 l2 wf show ?thesis
      by (simp add: fits_def p encode_publish_def publish_properties_encode_def)
  qed
qed

lemma puback_sound: "decode_puback payload = Ok packet \<Longrightarrow> fits packet (length payload)"
proof -
  assume "decode_puback payload = Ok packet"
  then obtain b1 rc props pid where r1: "read_u16 payload = Ok (pid, b1)" and
    r2: "read_reason puback_properties_decode puback_properties_default b1 = Ok (rc, props)" and
    p: "packet = PubAck \<lparr>pa_packet_id = pid, pa_reason_code = rc, pa_properties = props\<rparr>"
    by (auto simp: decode_puback_def and_then_Ok_iff)
  have l1: "2 + length b1 \<le> length payload" using u16_field.dec_length [OF r1] by simp
  from r2 consider "props = puback_properties_default"
    | b2 b3 where "read_u8 b1 = Ok (rc, b2)" "b2 \<noteq> []" "puback_properties_decode b2 = Ok (props, b3)"
    by (auto simp: read_reason_def and_then_Ok_iff split: if_splits)
  then show ?thesis
  proof cases
    case 1
    then show ?thesis
      by (simp add: fits_def p encode_puback_def Let_def puback_properties_encode_def encode_properties_def
          puback_record.init_wf puback_record.init_body encode_varint_small le_max_iff_disj)
  next
    case (2 b2 b3)
    note props = puback_record.decode_Ok(1,5) [OF 2(3) [unfolded puback_properties_decode_def]]
    from props(1) props(2) [OF 2(2)] l1 u8_field.dec_length [OF 2(1)] show ?thesis
      by (auto simp: fits_def p encode_puback_def Let_def puback_properties_encode_def le_max_iff_disj)
  qed
qed

lemma disconnect_sound: "decode_disconnect payload = Ok packet \<Longrightarrow> fits packet (length payload)"
proof -
  assume "decode_disconnect payload = Ok packet"
  then obtain rc props where
    r2: "read_reason disconnect_properties_decode disconnect_properties_default payload = Ok (rc, props)" and
    p: "packet = Disconnect \<lparr>d_reason_code = rc, d_properties = props\<rparr>"
    by (auto simp: decode_disconnect_def and_then_Ok_iff)
  from r2 consider "props = disconnect_properties_default"
    | b2 b3 where "read_u8 payload = Ok (rc, b2)" "b2 \<noteq> []" "disconnect_properties_decode b2 = Ok (props, b3)"
    by (auto simp: read_reason_def and_then_Ok_iff split: if_splits)
  then show ?thesis
  proof cases
    case 1
    then show ?thesis
      by (simp add: fits_def p encode_disconnect_def Let_def disconnect_properties_encode_def
          encode_properties_def disconnect_record.init_wf disconnect_record.init_body encode_varint_small
          le_max_iff_disj)
  next
    case (2 b2 b3)
    note props = disconnect_record.decode_Ok(1,5) [OF 2(3) [unfolded disconnect_properties_decode_def]]
    from props(1) props(2) [OF 2(2)] u8_field.dec_length [OF 2(1)] show ?thesis
      by (auto simp: fits_def p encode_disconnect_def Let_def disconnect_properties_encode_def le_max_iff_disj)
  qed
qed

lemma write_subscriptions_append [simp]:
  "write_subscriptions (a @ b) = write_subscriptions a @ write_subscriptions b"
  by (induction a) auto

lemma subscription_loop_sound:
  assumes "dloop subscription_step [] payload = Ok subs"
  shows "(\<forall>sub \<in> set subs. str_ok (s_topic_filter sub)) \<and> length (write_subscriptions subs) \<le> length payload"
proof -
  define I :: "subscription list \<Rightarrow> bytes \<Rightarrow> bool" where
    "I ss b \<longleftrightarrow> (\<forall>sub \<in> set ss. str_ok (s_topic_filter sub)) \<and>
      length (write_subscriptions ss) + length b \<le> length payload" for ss b
  have "I subs []"
    using assms
  proof (rule subscription_loop.loop_invariant)
    show "I [] payload" by (simp add: I_def)
    show "I ss' b'" if "subscription_step ss b = Ok (ss', b')" "I ss b" for ss b ss' b'
    proof -
      from that(1) obtain f opts where r: "read_pair read_str read_u8 b = Ok ((f, opts), b')"
        and ss': "ss' = ss @ [\<lparr>s_topic_filter = f, s_options = opts\<rparr>]"
        by (auto simp: subscription_step_def read_into_Ok)
      with that(2) subscription_field.pair.dec_ok [OF r] subscription_field.pair.dec_length [OF r]
      show ?thesis by (auto simp: I_def write_pair_def pair_ok_def)
    qed
  qed
  then show ?thesis by (simp add: I_def)
qed

lemma reason_code_loop_sound:
  assumes "dloop reason_code_step [] payload = Ok codes"
  shows "length codes \<le> length payload"
proof -
  define I :: "u8 list \<Rightarrow> bytes \<Rightarrow> bool" where "I cs b \<longleftrightarrow> length cs + length b \<le> length payload" for cs b
  have "I codes []"
    using assms
    by (rule reason_code_loop.loop_invariant)
      (auto simp: I_def reason_code_step_def read_into_Ok dest!: u8_field.dec_length)
  then show ?thesis by (simp add: I_def)
qed

lemma subscribe_sound: "decode_subscribe flags payload = Ok packet \<Longrightarrow> fits packet (length payload)"
proof -
  assume "decode_subscribe flags payload = Ok packet"
  then obtain b1 b2 pid props subs where r1: "read_u16 payload = Ok (pid, b1)" and
    r2: "subscribe_properties_decode b1 = Ok (props, b2)" and
    r3: "dloop subscription_step [] b2 = Ok subs" and subs: "subs \<noteq> []" and
    p: "packet = Subscribe \<lparr>sub_packet_id = pid, sub_properties = props, sub_subscriptions = subs\<rparr>"
    by (auto simp: decode_subscribe_def and_then_Ok_iff split: if_splits)
  note props = subscribe_record.decode_Ok [OF r2 [unfolded subscribe_properties_decode_def]]
  have "b1 \<noteq> []" using props(3) r3 subs by auto
  with props(1,5) subscription_loop_sound [OF r3] u16_field.dec_length [OF r1] subs show ?thesis
    by (auto simp: fits_def p wf_subscribe_def encode_subscribe_def subscribe_properties_encode_def
        le_max_iff_disj)
qed

lemma suback_sound: "decode_suback payload = Ok packet \<Longrightarrow> fits packet (length payload)"
proof -
  assume "decode_suback payload = Ok packet"
  then obtain b1 b2 pid props codes where r1: "read_u16 payload = Ok (pid, b1)" and
    r2: "suback_properties_decode b1 = Ok (props, b2)" and
    r3: "dloop reason_code_step [] b2 = Ok codes" and
    p: "packet = SubAck \<lparr>sa_packet_id = pid, sa_properties = props, sa_reason_codes = codes\<rparr>"
    by (auto simp: decode_suback_def and_then_Ok_iff)
  note props = suback_record.decode_Ok [OF r2 [unfolded suback_properties_decode_def]]
  have l1: "2 + length b1 \<le> length payload" using u16_field.dec_length [OF r1] by simp
  note l2 = reason_code_loop_sound [OF r3]
  show ?thesis
  proof (cases "b1 = []")
    case True
    with props(3) l2 show ?thesis
      by (simp add: fits_def p encode_suback_def suback_properties_encode_def encode_properties_def
          suback_record.init_wf suback_record.init_body encode_varint_small le_max_iff_disj)
  next
    case False
    with props(1,5) l1 l2 show ?thesis
      by (simp add: fits_def p encode_suback_def suback_properties_encode_def)
  qed
qed

lemma decode_payload_sound:
  assumes "decode_payload ty flags n payload = Ok packet" and "length payload < 2 ^ 28"
  shows "wf_packet packet"
proof -
  have "fits packet (length payload)"
    using assms(1)
    by (auto simp: decode_payload_def decode_ping_def split: if_splits
        intro: connect_sound connack_sound publish_sound puback_sound subscribe_sound suback_sound
          disconnect_sound)
      (simp_all add: fits_def)
  with assms(2) show ?thesis by (auto simp: fits_def wf_packet_def le_max_iff_disj)
qed

lemma packet_sound:
  assumes "decode_packet buf = Ok (packet, n)"
  shows "wf_packet packet" "2 \<le> n" "n \<le> length buf"
proof -
  from assms obtain h m payload where f: "split_frame buf = Ok (h, m, payload, n)"
    and d: "decode_payload (drop_bit 4 h) (h AND 0x0F) m payload = Ok packet"
    by (auto simp: decode_packet_split and_then_Ok_iff)
  from split_frame_Ok [OF f] show "2 \<le> n" "n \<le> length buf" by simp_all
  from split_frame_Ok(3,4) [OF f] decode_payload_sound [OF d] show "wf_packet packet" by simp
qed

section \<open>Panics\<close>

lemma skip_will_False [simp]: "skip_will False payload = Ok payload"
  by (simp add: skip_will_def)

lemma property_no_panic [simp]:
  "connect_properties_decode buf \<noteq> Panic" "connack_properties_decode buf \<noteq> Panic"
  "publish_properties_decode buf \<noteq> Panic" "puback_properties_decode buf \<noteq> Panic"
  "subscribe_properties_decode buf \<noteq> Panic" "suback_properties_decode buf \<noteq> Panic"
  "disconnect_properties_decode buf \<noteq> Panic"
  by (simp_all add: property_codec_defs connect_record.decode_no_panic connack_record.decode_no_panic
      publish_record.decode_no_panic puback_record.decode_no_panic subscribe_record.decode_no_panic
      suback_record.decode_no_panic disconnect_record.decode_no_panic)

lemma read_if_no_panic [simp]:
  "read_if flag read_str buf \<noteq> Panic" "read_if flag read_bytes buf \<noteq> Panic" "read_if flag read_u16 buf \<noteq> Panic"
  by (simp_all add: read_if_def read_into_Panic)

lemma read_reason_no_panic:
  "(\<And>b. decode b \<noteq> Panic) \<Longrightarrow> read_reason decode init buf \<noteq> Panic"
  by (auto simp: read_reason_def and_then_Panic_iff split: if_splits)

lemma split_frame_no_panic [simp]: "split_frame buf \<noteq> Panic"
  by (auto simp: split_frame_def and_then_Panic_iff split: if_splits)

text \<open>The CONNECT flags byte: after the protocol name (6 bytes) and the protocol level.\<close>

lemma connect_panic_will:
  assumes "decode_connect flags payload = Panic"
  shows "flags = 0 \<and> (\<exists>fl rest. payload = write_str (lit ''MQTT'') @ [5, fl] @ rest \<and> fl AND 0x04 \<noteq> 0)"
proof -
  from assms have "flags = 0" by (auto simp: decode_connect_def split: if_splits)
  from assms obtain b1 fl b2 b3 b4 x where r: "read_str payload = Ok (lit ''MQTT'', b1)" "read_u8 b1 = Ok (5, b2)"
    "read_u8 b2 = Ok (fl, b3)" "skip_will (fl AND 4 \<noteq> 0) b4 = x" "x = Panic"
    by (auto simp: decode_connect_def Let_def and_then_Panic_iff split: if_splits)
  then have "fl AND 4 \<noteq> 0" by (cases "fl AND 4 = 0") auto
  with r \<open>flags = 0\<close> show ?thesis by (auto simp: read_str_Ok read_u8_Ok)
qed

lemma payload_panic:
  assumes "decode_payload ty flags n payload = Panic"
  shows "ty = 1 \<and> decode_connect flags payload = Panic"
  using assms
  by (auto simp: decode_payload_def decode_connack_def decode_publish_def decode_puback_def
      decode_subscribe_def decode_suback_def decode_ping_def decode_disconnect_def Let_def
      and_then_Panic_iff read_reason_no_panic subscription_loop.loop_no_panic reason_code_loop.loop_no_panic
      split: if_splits)

end
