(* ===== verification/Codec_Properties.thy ===== *)
theory Codec_Properties imports Codec begin

text \<open>
  The properties of \<open>src/codec.rs\<close>, stated over \<open>decode_packet\<close>, \<open>encode_packet\<close> and the leaf
  readers, each with a concrete input at which it applies.
\<close>

section \<open>Incomplete input\<close>

lemma decode_varint_strict_prefix:
  assumes "k < length (encode_varint v)" and "unat v < 2 ^ 28"
  shows "decode_varint (take k (encode_varint v)) = Err Incomplete"
proof -
  obtain p l where e: "encode_varint v = p @ [l]" and p: "\<forall>b \<in> set p. has_more b"
    using encode_varint_shape by blast
  with assms(1) have t: "take k (encode_varint v) = take k p" by simp
  have "\<forall>b \<in> set (take k p). has_more b" using p by (meson in_set_takeD)
  then have tw: "takeWhile has_more (take k p) = take k p" by simp
  have "length (encode_varint v) \<le> 4" using length_encode_varint_le [of 4 v] assms(2) by simp
  with e assms(1) have "length (take k p) < 4" by simp
  then show ?thesis
    unfolding t by (simp add: decode_varint_spec varint_spec_def Let_def tw del: length_take)
qed

lemma split_frame_strict_prefix:
  assumes "length payload < 2 ^ 28" and "k < length (h # encode_varint (of_nat (length payload)) @ payload)"
  shows "split_frame (take k (h # encode_varint (of_nat (length payload)) @ payload)) = Err Incomplete"
proof (cases k)
  case 0
  then show ?thesis by (simp add: split_frame_def read_u8_def)
next
  case (Suc j)
  let ?v = "of_nat (length payload) :: u32"
  have v: "unat ?v = length payload" using assms(1) by (simp add: unat_of_nat)
  show ?thesis
  proof (cases "j < length (encode_varint ?v)")
    case True
    with Suc v assms(1) show ?thesis
      by (simp add: split_frame_def read_u8_def decode_varint_strict_prefix)
  next
    case False
    have "decode_varint (encode_varint ?v @ take (j - length (encode_varint ?v)) payload)
        = Ok (?v, length (encode_varint ?v))"
      using v assms(1) by (simp add: decode_encode_varint)
    with False Suc v assms(2) show ?thesis
      by (simp add: split_frame_def read_u8_def take_append)
  qed
qed

lemma encode_packet_frame:
  "encode_packet packet = fst (encode_payload packet) #
     encode_varint (of_nat (length (snd (encode_payload packet)))) @ snd (encode_payload packet)"
  by (simp add: encode_packet_def split_beta)

lemma packet_strict_prefix:
  assumes "wf_packet packet" and "k < length (encode_packet packet)"
  shows "decode_packet (take k (encode_packet packet)) = Err Incomplete"
  using assms split_frame_strict_prefix [of "snd (encode_payload packet)" k "fst (encode_payload packet)"]
  by (simp add: wf_packet_def decode_packet_split encode_packet_frame)

section \<open>Evaluation\<close>

text \<open>
  A concrete input is evaluated from the outside in: the continuation of \<open>and_then\<close> is looked at
  only when its argument has a value.
\<close>

lemma and_then_weak_cong: "r = r' \<Longrightarrow> and_then r f = and_then r' f"
  by simp

lemma max_multiplier: "\<not> (2097152 :: u32) \<le> 1"
  by (simp add: word_le_nat_alt)

lemmas decode_eval =
  dloop.simps utf8_valid.simps utf8_next.simps utf8_char_width_def
  connect_properties_step_def publish_properties_step_def puback_properties_step_def
  connect_properties_default_def publish_properties_default_def puback_properties_default_def
  take_varint_def max_multiplier
  decode_packet_def split_frame_def decode_payload_def decode_varint_def decode_connect_def
  decode_publish_def decode_puback_def decode_ping_def read_reason_def skip_will_def
  read_if_def read_into_def read_u8_def read_u16_def read_u32_def read_str_def read_bytes_def
  slice_from_def add_u32_def mul_u32_def u16_from_be_bytes_def Let_def
  property_codec_defs decode_properties_def

lemmas encode_eval =
  publish_properties_body_def puback_properties_body_def opt_prop_def write_pair_def
  publish_properties_default_def puback_properties_default_def
  encode_packet_def encode_connect_def encode_publish_def encode_puback_def encode_properties_def
  encode_varint.simps write_str_def write_u16_def u16_to_be_bytes_def Let_def property_codec_defs

section \<open>The packets of the witnesses\<close>

text \<open>A QoS 1 PUBLISH on \<open>a/b\<close> with a response topic and one user property.\<close>

definition sample_publish :: packet where
  "sample_publish = Publish \<lparr>p_dup = False, p_qos = 1, p_retain = True, p_topic = lit ''a/b'',
     p_packet_id = Some 7,
     p_properties = publish_properties_default
       \<lparr>pp_response_topic := Some (lit ''r''), pp_user_properties := [(lit ''k'', lit ''v'')]\<rparr>,
     p_payload = [1, 2, 3]\<rparr>"

lemma sample_publish_bytes:
  "encode_packet sample_publish =
     [0x33, 22, 0, 3, 0x61, 0x2F, 0x62, 0, 7, 11, 0x08, 0, 1, 0x72, 0x26, 0, 1, 0x6B, 0, 1, 0x76, 1, 2, 3]"
  by (simp add: sample_publish_def encode_eval)

lemma sample_publish_wf: "wf_packet sample_publish"
  by (simp add: sample_publish_def wf_packet_def encode_eval wf_publish_def wf_publish_properties_def
      str_ok_def user_properties_ok_def pair_ok_def utf8_valid_ascii)

section \<open>Properties\<close>

text \<open>
  C3: decoding undoes encoding. Every packet the format can carry (strings are UTF-8 and at most
  65535 bytes long, a packet identifier is there exactly at QoS 1 and 2, the payload is below 2^28
  bytes) is encoded to bytes that \<open>decode_packet\<close> turns back into that packet, consuming
  exactly those bytes whatever follows them in the buffer.
\<close>

theorem decode_encode_packet:
  assumes "wf_packet packet"
  shows "decode_packet (encode_packet packet @ rest) = Ok (packet, length (encode_packet packet))"
  using assms by (rule packet_roundtrip)

theorem decode_encode_packet_witness:
  "decode_packet (encode_packet sample_publish @ [0xC0]) = Ok (sample_publish, 24)"
  using decode_encode_packet [OF sample_publish_wf, of "[0xC0]"]
  by (simp add: sample_publish_bytes)

text \<open>
  C20: what the decoder accepts is a packet the format can carry, so encoding it and decoding the
  result gives it back: the broker can forward any packet it has read. The encoder's bytes may
  differ from the input, which can have its properties in another order or a longer length field.
\<close>

theorem decoded_packet_reencodes:
  assumes "decode_packet buf = Ok (packet, n)"
  shows "wf_packet packet \<and> decode_packet (encode_packet packet) = Ok (packet, length (encode_packet packet))"
  using packet_sound(1) [OF assms] packet_roundtrip [OF packet_sound(1) [OF assms], of "[]"] by simp

theorem decoded_packet_reencodes_witness:
  "decode_packet [0x40, 0x85, 0, 0, 9, 0, 0x80, 0] = Ok (PubAck \<lparr>pa_packet_id = 9, pa_reason_code = 0,
     pa_properties = puback_properties_default\<rparr>, 8) \<and>
   encode_packet (PubAck \<lparr>pa_packet_id = 9, pa_reason_code = 0,
     pa_properties = puback_properties_default\<rparr>) = [0x40, 2, 0, 9] \<and>
   decode_packet [0x40, 2, 0, 9] = Ok (PubAck \<lparr>pa_packet_id = 9, pa_reason_code = 0,
     pa_properties = puback_properties_default\<rparr>, 4)"
proof -
  let ?p = "PubAck \<lparr>pa_packet_id = 9, pa_reason_code = 0, pa_properties = puback_properties_default\<rparr>"
  have d: "decode_packet [0x40, 0x85, 0, 0, 9, 0, 0x80, 0] = Ok (?p, 8)" by (simp add: decode_eval cong: and_then_weak_cong)
  have e: "encode_packet ?p = [0x40, 2, 0, 9]" by (simp add: encode_eval)
  show ?thesis using decoded_packet_reencodes [OF d] d by (simp add: e)
qed

text \<open>
  The decoder looks at one frame only. When it accepts a packet of \<open>n\<close> bytes, \<open>n\<close> is at least
  two and lies within the buffer (so that the caller's \<open>buf.drain(..n)\<close> cannot panic and each round
  makes progress), and the first \<open>n\<close> bytes alone decide the packet.
\<close>

theorem decode_packet_consumes:
  assumes "decode_packet buf = Ok (packet, n)"
  shows "2 \<le> n \<and> n \<le> length buf \<and> decode_packet (take n buf @ rest) = Ok (packet, n)"
proof -
  from assms obtain h m payload where f: "split_frame buf = Ok (h, m, payload, n)"
    and d: "decode_payload (drop_bit 4 h) (h AND 0x0F) m payload = Ok packet"
    by (auto simp: decode_packet_split and_then_Ok_iff)
  show ?thesis
    using packet_sound(2,3) [OF assms] split_frame_append [OF split_frame_take [OF f]] d
    by (simp add: decode_packet_split)
qed

theorem decode_packet_consumes_witness:
  "decode_packet [0xC0, 0, 0xFF] = Ok (PingReq, 2) \<and> decode_packet ([0xC0, 0] @ [0x10]) = Ok (PingReq, 2)"
proof -
  have "decode_packet [0xC0, 0, 0xFF] = Ok (PingReq, 2)" by (simp add: decode_eval cong: and_then_weak_cong)
  with decode_packet_consumes [OF this, of "[0x10]"] show ?thesis by simp
qed

text \<open>
  C21: a packet that has arrived in part is reported \<open>Incomplete\<close>. Every proper prefix of an encoded
  packet, cut anywhere (in the remaining length, in a string, before the payload), is told apart
  from a malformed one, so a reader that waits for more bytes gets the packet.
\<close>

theorem decode_packet_prefix_incomplete:
  assumes "wf_packet packet" and "k < length (encode_packet packet)"
  shows "decode_packet (take k (encode_packet packet)) = Err Incomplete"
  using assms by (rule packet_strict_prefix)

theorem decode_packet_prefix_incomplete_witness:
  "decode_packet [0x33, 22, 0, 3, 0x61] = Err Incomplete"
  using decode_packet_prefix_incomplete [OF sample_publish_wf, of 5]
  by (simp add: sample_publish_bytes)

text \<open>
  The verdict on a frame whose bytes are all there is final: more bytes change neither a
  packet, nor an error, nor a panic.
\<close>

theorem decode_packet_final:
  assumes "split_frame buf = Ok frame"
  shows "decode_packet (buf @ later) = decode_packet buf"
  using assms split_frame_append [OF assms] by (simp add: decode_packet_split)

theorem decode_packet_final_witness:
  "decode_packet ([0xC0, 0] @ [1, 2]) = Ok (PingReq, 2)"
proof -
  have f: "split_frame [0xC0, 0] = Ok (0xC0, 0, [], 2)" by (simp add: decode_eval cong: and_then_weak_cong)
  have "decode_packet [0xC0, 0] = Ok (PingReq, 2)" by (simp add: decode_eval cong: and_then_weak_cong)
  with decode_packet_final [OF f, of "[1, 2]"] show ?thesis by simp
qed

text \<open>
  C22: the decoder can panic in one place only: on a CONNECT (type 1, flags 0) of protocol \<open>MQTT\<close>,
  level 5, whose connect flags announce a Will. Every other byte sequence is answered by a packet
  or an error; in particular neither the variable byte integer's arithmetic nor a slice
  expression elsewhere can fail.
\<close>

theorem decode_packet_panic:
  assumes "decode_packet buf = Panic"
  shows "\<exists>m payload n fl rest. split_frame buf = Ok (0x10, m, payload, n) \<and>
    payload = write_str (lit ''MQTT'') @ [5, fl] @ rest \<and> fl AND 0x04 \<noteq> 0"
proof -
  from assms obtain h m payload n where f: "split_frame buf = Ok (h, m, payload, n)"
    and "decode_payload (drop_bit 4 h) (h AND 0x0F) m payload = Panic"
    by (auto simp: decode_packet_split and_then_Panic_iff)
  then have h: "drop_bit 4 h = 1" and p: "decode_connect (h AND 0x0F) payload = Panic"
    using payload_panic by blast+
  have "h AND 0x0F = take_bit 4 h"
    by (simp add: take_bit_eq_mask mask_eq_exp_minus_1)
  with bits_ident [of 4 h] h connect_panic_will [OF p] have "h = 0x10" by simp
  with connect_panic_will [OF p] f show ?thesis by auto
qed

text \<open>
  The CONNECT of client \<open>a\<close> whose Will claims a property section of 100 bytes in a frame that ends.
\<close>

definition will_overrun :: bytes where
  "will_overrun = [0x10, 15, 0, 4, 0x4D, 0x51, 0x54, 0x54, 5, 0x04, 0, 60, 0, 0, 1, 0x61, 100]"

theorem decode_packet_panic_witness:
  "decode_packet will_overrun = Panic \<and>
   (\<exists>m payload n fl rest. split_frame will_overrun = Ok (0x10, m, payload, n) \<and>
    payload = write_str (lit ''MQTT'') @ [5, fl] @ rest \<and> fl AND 0x04 \<noteq> 0)"
proof -
  have "decode_packet will_overrun = Panic" by (simp add: will_overrun_def decode_eval cong: and_then_weak_cong)
  with decode_packet_panic show ?thesis by blast
qed

text \<open>
  \<open>decode_varint\<close> is the variable byte integer of the standard. The loop with its multiplier
  gives, on every buffer, the groups of seven bits up to the first byte without the continuation
  bit read as a number, an error when the first four bytes all have it, and \<open>Incomplete\<close> when the
  buffer ends first. No multiplication or addition of the loop overflows.
\<close>

theorem decode_varint_is_spec: "decode_varint buf = varint_spec buf"
  by (rule decode_varint_spec)

text \<open>
  \<open>encode_varint\<close> has an inverse exactly below 2^28. Such a value takes at most four bytes and is
  read back whatever follows; a larger one is written in five bytes, which \<open>decode_varint\<close>
  rejects: a packet with a payload of 2^28 bytes or more is encoded to something no peer reads.
\<close>

theorem encode_varint_inverse:
  "(length (encode_varint v) \<le> 4 \<longleftrightarrow> unat v < 2 ^ 28) \<and>
   decode_varint (encode_varint v @ rest) =
     (if unat v < 2 ^ 28 then Ok (v, length (encode_varint v)) else Err InvalidVarint)"
  using length_encode_varint_le [of 4 v] by (simp add: decode_encode_varint)

text \<open>
  \<open>read_str\<close> accepts exactly what \<open>write_str\<close> writes for a Rust string: a two-byte length and
  the UTF-8 encoding of a sequence of Unicode scalar values (no surrogates, no overlong forms,
  nothing above 10FFFF), and it returns that string and the rest of the slice.
\<close>

theorem read_str_exact:
  "read_str buf = Ok (s, rest) \<longleftrightarrow>
     (\<exists>cs. list_all scalar cs \<and> s = concat (map utf8_encode cs) \<and> length s < 2 ^ 16 \<and>
       buf = write_str s @ rest)"
  unfolding read_str_Ok utf8_valid_iff list_all_iff by blast

end
