(* ===== verification/Packet_Stream.thy ===== *)
theory Packet_Stream imports Codec begin

text \<open>
  The loop that takes packets off a read buffer. The program has it twice, in \<open>handle_connection\<close> of
  \<open>src/main.rs\<close> and in \<open>connect_and_run_bridge\<close> of \<open>src/bridge.rs\<close>, with different handlers. This
  theory states what the loop promises whatever the handler does: a locale over the decoder, the
  handler and the loop, which the theories Connection and Bridge interpret on their own loops.
\<close>

section \<open>The decoder on a growing buffer\<close>

lemma length_takeWhile_append: "length (takeWhile P xs) \<le> length (takeWhile P (xs @ ys))"
  by (induction xs) auto

lemma decode_varint_err:
  assumes "decode_varint buf = Err e" and "e \<noteq> Incomplete"
  shows "decode_varint (buf @ later) = Err e"
  using assms length_takeWhile_append [of has_more buf later]
  by (auto simp: decode_varint_spec varint_spec_def Let_def split: if_splits)

lemma split_frame_err:
  assumes "split_frame buf = Err e" and "e \<noteq> Incomplete"
  shows "split_frame (buf @ later) = Err e"
proof -
  from assms obtain h b1 where buf: "buf = h # b1"
    by (cases buf) (auto simp: split_frame_def read_u8_def)
  with assms have "decode_varint b1 = Err e"
    by (cases "decode_varint b1") (auto simp: split_frame_def read_u8_def split: if_splits)
  from decode_varint_err [OF this assms(2)] buf show ?thesis by (simp add: split_frame_def read_u8_def)
qed

lemma decode_packet_later:
  assumes "decode_packet buf \<noteq> Err Incomplete"
  shows "decode_packet (buf @ later) = decode_packet buf"
proof (cases "split_frame buf")
  case (Ok f)
  then show ?thesis using split_frame_append [OF Ok] by (simp add: decode_packet_split)
next
  case (Err e)
  with assms have "e \<noteq> Incomplete" by (auto simp: decode_packet_split)
  with split_frame_err [OF Err this] Err show ?thesis by (simp add: decode_packet_split)
qed simp

lemma decode_packet_Nil [simp]: "decode_packet [] = Err Incomplete"
  by (simp add: decode_packet_split split_frame_def read_u8_def)

section \<open>What a loop leaves\<close>

text \<open>
  The loop waits for more bytes with the rest of its buffer, fails with an error, or a panic of the
  decoder or the handler ends its task. \<open>after\<close> is the state it leaves in any case.
\<close>

datatype ('s, 'e) drained =
    Waiting (after: 's) bytes
  | Failed 'e (after: 's)
  | Crashed (after: 's)

text \<open>One more read: the chunk goes behind the bytes that wait.\<close>

definition feed :: "('s \<Rightarrow> bytes \<Rightarrow> ('s, 'e) drained) \<Rightarrow> ('s, 'e) drained \<Rightarrow> bytes \<Rightarrow> ('s, 'e) drained" where
  "feed loop d chunk = (case d of Waiting s read_buf \<Rightarrow> loop s (read_buf @ chunk) | _ \<Rightarrow> d)"

text \<open>The handler on a list of packets, and the loop cut off after a number of turns.\<close>

fun handle_all :: "('p \<Rightarrow> 's \<Rightarrow> ('s, 'e) outcome) \<Rightarrow> 'p list \<Rightarrow> 's \<Rightarrow> ('s, 'e) outcome" where
  "handle_all handle [] s = Ok s"
| "handle_all handle (p # ps) s = and_then (handle p s) (handle_all handle ps)"

fun turns ::
  "(bytes \<Rightarrow> ('p \<times> nat, codec_error) outcome) \<Rightarrow> ('p \<Rightarrow> 's \<Rightarrow> ('s, 'e) outcome) \<Rightarrow> (codec_error \<Rightarrow> 'e) \<Rightarrow>
    nat \<Rightarrow> 's \<Rightarrow> bytes \<Rightarrow> ('s, 'e) drained option" where
  "turns decode handle fail 0 s buf = None"
| "turns decode handle fail (Suc k) s buf =
     (case decode buf of
        Ok (p, n) \<Rightarrow>
          (case handle p s of
             Ok s' \<Rightarrow> turns decode handle fail k s' (drop n buf)
           | Err e \<Rightarrow> Some (Failed e s)
           | Panic \<Rightarrow> Some (Crashed s))
      | Err e \<Rightarrow> Some (if e = Incomplete then Waiting s buf else Failed (fail e) s)
      | Panic \<Rightarrow> Some (Crashed s))"

section \<open>The contract\<close>

text \<open>
  The decoder takes at least two bytes of the buffer for a packet, and once it has a verdict, later
  bytes do not change it; the loop satisfies the equation of the source.
\<close>

locale packet_stream =
  fixes decode :: "bytes \<Rightarrow> ('p \<times> nat, codec_error) outcome"
    and handle :: "'p \<Rightarrow> 's \<Rightarrow> ('s, 'e) outcome"
    and fail :: "codec_error \<Rightarrow> 'e"
    and loop :: "'s \<Rightarrow> bytes \<Rightarrow> ('s, 'e) drained"
  assumes empty_buf: "decode [] = Err Incomplete"
    and takes: "decode buf = Ok (p, n) \<Longrightarrow> 2 \<le> n \<and> n \<le> length buf"
    and verdict: "decode buf \<noteq> Err Incomplete \<Longrightarrow> decode (buf @ later) = decode buf"
    and loop: "loop s buf =
      (case decode buf of
         Ok (p, n) \<Rightarrow>
           (case handle p s of
              Ok s' \<Rightarrow> loop s' (drop n buf)
            | Err e \<Rightarrow> Failed e s
            | Panic \<Rightarrow> Crashed s)
       | Err e \<Rightarrow> if e = Incomplete then Waiting s buf else Failed (fail e) s
       | Panic \<Rightarrow> Crashed s)"
begin

lemma loop_Nil: "loop s [] = Waiting s []"
  by (subst loop) (simp add: empty_buf)

text \<open>The loop ends: as many turns as half the buffer has bytes, and one, are enough.\<close>

lemma turns_enough: "length buf < 2 * k \<Longrightarrow> turns decode handle fail k s buf = Some (loop s buf)"
proof (induction k arbitrary: s buf)
  case (Suc k)
  show ?case
  proof (cases "decode buf")
    case (Ok pn)
    obtain p n where pn: "pn = (p, n)" by (cases pn)
    have "length (drop n buf) < 2 * k" using takes [of buf p n] Ok pn Suc.prems by auto
    from Suc.IH [OF this] Ok pn show ?thesis by (subst loop) (simp split: outcome.split)
  qed (subst loop, simp)+
qed simp

text \<open>What the handler keeps, the loop keeps.\<close>

lemma keeps:
  assumes "I s" and "\<And>p n buf s s'. I s \<Longrightarrow> decode buf = Ok (p, n) \<Longrightarrow> handle p s = Ok s' \<Longrightarrow> I s'"
  shows "I (after (loop s buf))"
  using assms(1)
proof (induction buf arbitrary: s rule: length_induct)
  case (1 buf)
  show ?case
  proof (cases "decode buf")
    case (Ok pn)
    obtain p n where pn: "pn = (p, n)" by (cases pn)
    have n: "length (drop n buf) < length buf" using takes [of buf p n] Ok pn by auto
    show ?thesis
    proof (cases "handle p s")
      case h: (Ok s')
      from 1(1) n assms(2) [OF 1(2) _ h] Ok pn have "I (after (loop s' (drop n buf)))" by blast
      then show ?thesis using Ok pn h by (subst loop) simp
    qed (use Ok pn 1(2) in \<open>subst loop, simp\<close>)+
  next
    case (Err e)
    with 1(2) show ?thesis by (subst loop) simp
  next
    case Panic
    with 1(2) show ?thesis by (subst loop) simp
  qed
qed

text \<open>A buffer in two parts is handled like two reads.\<close>

lemma append: "loop s (buf @ later) = feed loop (loop s buf) later"
proof (induction buf arbitrary: s rule: length_induct)
  case (1 buf)
  show ?case
  proof (cases "decode buf")
    case (Ok pn)
    obtain p n where pn: "pn = (p, n)" by (cases pn)
    have d: "decode (buf @ later) = Ok (p, n)" using verdict [of buf later] Ok pn by simp
    have n: "length (drop n buf) < length buf" "n \<le> length buf" using takes [of buf p n] Ok pn by auto
    show ?thesis
    proof (cases "handle p s")
      case h: (Ok s')
      from 1 n(1) have "loop s' (drop n buf @ later) = feed loop (loop s' (drop n buf)) later" by blast
      then show ?thesis using d n(2) h Ok pn by (simp add: loop [of s buf] loop [of s "buf @ later"])
    qed (simp_all add: loop [of s buf] loop [of s "buf @ later"] d Ok pn feed_def)
  next
    case (Err e)
    show ?thesis
    proof (cases "e = Incomplete")
      case True
      with Err have "loop s buf = Waiting s buf" by (subst loop) simp
      then show ?thesis by (simp add: feed_def)
    next
      case False
      with Err verdict [of buf later] show ?thesis
        by (simp add: loop [of s buf] loop [of s "buf @ later"] feed_def)
    qed
  next
    case Panic
    with verdict [of buf later] show ?thesis
      by (simp add: loop [of s buf] loop [of s "buf @ later"] feed_def)
  qed
qed

lemma feed_chunks: "foldl (feed loop) (loop s buf) chunks = loop s (buf @ concat chunks)"
proof (induction chunks arbitrary: buf)
  case (Cons c chunks)
  from Cons [of "buf @ c"] show ?case by (simp add: append [symmetric])
qed simp

lemma chunks: "foldl (feed loop) (Waiting s []) chunks = loop s (concat chunks)"
  using feed_chunks [of s "[]" chunks] by (simp add: loop_Nil)

text \<open>Encoded packets are handled one by one.\<close>

lemma one_packet:
  assumes "decode (enc p @ rest) = Ok (p, length (enc p))"
  shows "loop s (enc p @ rest) =
    (case handle p s of Ok s' \<Rightarrow> loop s' rest | Err e \<Rightarrow> Failed e s | Panic \<Rightarrow> Crashed s)"
  using assms by (subst loop) (simp split: outcome.split)

lemma in_order:
  assumes "\<And>p rest. p \<in> set ps \<Longrightarrow> decode (enc p @ rest) = Ok (p, length (enc p))"
    and "handle_all handle ps s = Ok s'"
  shows "loop s (concat (map enc ps) @ rest) = loop s' rest"
  using assms
proof (induction ps arbitrary: s)
  case (Cons p ps)
  then obtain s1 where "handle p s = Ok s1" "handle_all handle ps s1 = Ok s'"
    by (auto simp: and_then_Ok_iff)
  with Cons one_packet [of enc p] show ?case by simp
qed simp

end

text \<open>The decoder of this program meets its part of the contract.\<close>

lemmas packet_decoder = decode_packet_Nil packet_sound(2,3) decode_packet_later

end
