(* ===== verification/WebSocket.thy ===== *)
theory WebSocket imports Prelude begin

text \<open>
  The WebSocket adapter, \<open>src/websocket.rs\<close>: a byte stream over a sequence of WebSocket messages. The
  WebSocket itself is a parameter: what \<open>poll_next\<close> gives, and the answers of \<open>poll_ready\<close>,
  \<open>start_send\<close>, \<open>poll_flush\<close> and \<open>poll_close\<close>.
\<close>

section \<open>Reading\<close>

datatype ws_message = Binary bytes | Text rstr | Close | Ping | Pong | Frame

text \<open>The answers of \<open>poll_next\<close>, in order; past the end of the list it is pending.\<close>

datatype ws_poll = Msg ws_message | WsError | WsEnd | WsPending

record adapter =
  ad_read_buffer :: bytes
  ad_read_cursor :: nat
  ad_write_buffer :: bytes

definition new_adapter :: adapter where
  "new_adapter = \<lparr>ad_read_buffer = [], ad_read_cursor = 0, ad_write_buffer = []\<rparr>"

text \<open>What a \<open>poll_read\<close> gives: bytes (none of them is the end of the stream), an error, or pending.\<close>

datatype poll_read_result = ReadReady bytes | ReadError | ReadPending

text \<open>
  \<open>poll_read\<close> with room for \<open>remaining\<close> bytes. The loop uses up answers of \<open>poll_next\<close> until it has
  bytes to copy or must stop; the model returns the answers left over.
\<close>

function poll_read :: "nat \<Rightarrow> ws_poll list \<Rightarrow> adapter \<Rightarrow> poll_read_result \<times> ws_poll list \<times> adapter" where
  "poll_read remaining polls ad =
     (if ad_read_cursor ad < length (ad_read_buffer ad) then
        let available = length (ad_read_buffer ad) - ad_read_cursor ad;
            to_copy = min available remaining in
        (ReadReady (take to_copy (drop (ad_read_cursor ad) (ad_read_buffer ad))), polls,
         ad\<lparr>ad_read_cursor := ad_read_cursor ad + to_copy\<rparr>)
      else
        case polls of
          [] \<Rightarrow> (ReadPending, [], ad)
        | p # polls \<Rightarrow>
            (case p of
               Msg msg \<Rightarrow>
                 (case msg of
                    Binary bin \<Rightarrow>
                      if bin = [] then poll_read remaining polls ad
                      else poll_read remaining polls (ad\<lparr>ad_read_buffer := bin, ad_read_cursor := 0\<rparr>)
                  | Text txt_data \<Rightarrow>
                      if txt_data = [] then poll_read remaining polls ad
                      else poll_read remaining polls (ad\<lparr>ad_read_buffer := txt_data, ad_read_cursor := 0\<rparr>)
                  | Close \<Rightarrow> (ReadReady [], polls, ad)
                  | _ \<Rightarrow> poll_read remaining polls ad)
             | WsError \<Rightarrow> (ReadError, polls, ad)
             | WsEnd \<Rightarrow> (ReadReady [], polls, ad)
             | WsPending \<Rightarrow> (ReadPending, polls, ad)))"
  by pat_completeness auto
termination
  by (relation "measure (\<lambda>(r, polls, ad). length polls)") auto

declare poll_read.simps [simp del]

text \<open>
  The bytes a list of answers carries up to the close, error or end; a task whose read is pending
  polls again later.
\<close>

fun ws_bytes :: "ws_poll list \<Rightarrow> bytes" where
  "ws_bytes [] = []"
| "ws_bytes (Msg (Binary bin) # polls) = bin @ ws_bytes polls"
| "ws_bytes (Msg (Text txt_data) # polls) = txt_data @ ws_bytes polls"
| "ws_bytes (Msg Ping # polls) = ws_bytes polls"
| "ws_bytes (Msg Pong # polls) = ws_bytes polls"
| "ws_bytes (Msg Frame # polls) = ws_bytes polls"
| "ws_bytes (WsPending # polls) = ws_bytes polls"
| "ws_bytes (p # polls) = []"

text \<open>What the adapter still holds.\<close>

definition unread :: "adapter \<Rightarrow> bytes" where
  "unread ad = drop (ad_read_cursor ad) (ad_read_buffer ad)"

text \<open>The answers that are pending.\<close>

abbreviation pending_polls :: "ws_poll list \<Rightarrow> nat" where
  "pending_polls polls \<equiv> count_list polls WsPending"

text \<open>What a read promises, in terms of the bytes and the pending answers still to come.\<close>

definition read_ok :: "nat \<Rightarrow> bytes \<Rightarrow> nat \<Rightarrow> poll_read_result \<times> ws_poll list \<times> adapter \<Rightarrow> bool" where
  "read_ok remaining todo waiting res =
     (let (r, polls', ad') = res in
      case r of
        ReadReady out \<Rightarrow>
          if out = [] then todo = []
          else out @ unread ad' @ ws_bytes polls' = todo \<and> pending_polls polls' \<le> waiting \<and> length out \<le> remaining
      | ReadPending \<Rightarrow> unread ad' @ ws_bytes polls' = todo \<and> (pending_polls polls' < waiting \<or> todo = [])
      | ReadError \<Rightarrow> todo = [])"

lemma poll_read_buffered:
  assumes "ad_read_cursor ad < length (ad_read_buffer ad)" and "0 < remaining"
  shows "read_ok remaining (unread ad @ ws_bytes polls) (pending_polls polls) (poll_read remaining polls ad)"
proof -
  let ?n = "min (length (ad_read_buffer ad) - ad_read_cursor ad) remaining"
  have p: "poll_read remaining polls ad =
      (ReadReady (take ?n (unread ad)), polls, ad\<lparr>ad_read_cursor := ad_read_cursor ad + ?n\<rparr>)"
    using assms(1) by (subst poll_read.simps) (simp add: Let_def unread_def)
  have "unread (ad\<lparr>ad_read_cursor := ad_read_cursor ad + ?n\<rparr>) = drop ?n (unread ad)"
    by (simp add: unread_def add.commute)
  then have "take ?n (unread ad) @ unread (ad\<lparr>ad_read_cursor := ad_read_cursor ad + ?n\<rparr>) = unread ad"
    by simp
  moreover have "take ?n (unread ad) \<noteq> []" using assms by (simp add: unread_def)
  ultimately show ?thesis
    unfolding p read_ok_def by (simp flip: append_assoc del: take_eq_Nil)
qed

lemma poll_read_spec:
  assumes "0 < remaining"
  shows "read_ok remaining (unread ad @ ws_bytes polls) (pending_polls polls) (poll_read remaining polls ad)"
proof (induction polls arbitrary: ad)
  case Nil
  show ?case
  proof (cases "ad_read_cursor ad < length (ad_read_buffer ad)")
    case True
    then show ?thesis by (rule poll_read_buffered [OF _ assms])
  qed (subst poll_read.simps, simp add: read_ok_def unread_def)
next
  case (Cons p polls)
  show ?case
  proof (cases "ad_read_cursor ad < length (ad_read_buffer ad)")
    case True
    then show ?thesis by (rule poll_read_buffered [OF _ assms])
  next
    case False
    then have u: "unread ad = []" by (simp add: unread_def)
    have data: "unread (ad\<lparr>ad_read_buffer := bin, ad_read_cursor := 0\<rparr>) = bin" for bin
      by (simp add: unread_def)
    show ?thesis
    proof (cases p)
      case (Msg msg)
      show ?thesis
      proof (cases msg)
        case (Binary bin)
        with Msg False u Cons [of ad] Cons [of "ad\<lparr>ad_read_buffer := bin, ad_read_cursor := 0\<rparr>"] data [of bin] show ?thesis
          by (subst poll_read.simps) simp
      next
        case (Text txt_data)
        with Msg False u Cons [of ad] Cons [of "ad\<lparr>ad_read_buffer := txt_data, ad_read_cursor := 0\<rparr>"] data [of txt_data] show ?thesis
          by (subst poll_read.simps) simp
      qed (subst poll_read.simps, use Msg False u Cons [of ad] in \<open>simp add: read_ok_def\<close>)+
    qed (subst poll_read.simps, use False u in \<open>simp add: read_ok_def\<close>)+
  qed
qed

text \<open>Reading until the stream ends or fails, with the given amounts of room; a pending read is tried again.\<close>

fun read_all :: "nat list \<Rightarrow> ws_poll list \<Rightarrow> adapter \<Rightarrow> bytes" where
  "read_all [] polls ad = []"
| "read_all (n # ns) polls ad =
     (case poll_read n polls ad of
        (ReadReady out, polls', ad') \<Rightarrow> if out = [] then [] else out @ read_all ns polls' ad'
      | (ReadPending, polls', ad') \<Rightarrow> read_all ns polls' ad'
      | (ReadError, polls', ad') \<Rightarrow> [])"

lemma read_all_prefix:
  assumes "list_all (\<lambda>n. 0 < n) ns"
  shows "\<exists>rest. read_all ns polls ad @ rest = unread ad @ ws_bytes polls \<and>
    (length (unread ad @ ws_bytes polls) + pending_polls polls < length ns \<longrightarrow> rest = [])"
  using assms
proof (induction ns arbitrary: polls ad)
  case (Cons n ns)
  let ?todo = "unread ad @ ws_bytes polls"
  obtain r polls' ad' where p: "poll_read n polls ad = (r, polls', ad')" by (metis surj_pair)
  from Cons.prems have spec: "read_ok n ?todo (pending_polls polls) (r, polls', ad')"
    using poll_read_spec [of n ad polls] p by simp
  from Cons.IH [of polls' ad'] Cons.prems obtain rest where
    rest: "read_all ns polls' ad' @ rest = unread ad' @ ws_bytes polls'"
      "length (unread ad' @ ws_bytes polls') + pending_polls polls' < length ns \<longrightarrow> rest = []"
    by auto
  consider (bytes) out where "r = ReadReady out" "out \<noteq> []" | (empty) "?todo = []" | (pending) "r = ReadPending" "?todo \<noteq> []"
    using spec by (cases r) (auto simp: read_ok_def split: if_splits)
  then show ?case
  proof cases
    case bytes
    with spec have eq: "out @ unread ad' @ ws_bytes polls' = ?todo" "pending_polls polls' \<le> pending_polls polls"
      by (simp_all add: read_ok_def)
    have "0 < length out" using bytes by simp
    then have "length ?todo + pending_polls polls < length (n # ns) \<longrightarrow> rest = []"
      using rest(2) arg_cong [OF eq(1), of length] eq(2) by (simp del: length_greater_0_conv)
    moreover have "read_all (n # ns) polls ad @ rest = ?todo"
      using p bytes rest(1) eq(1) by simp
    ultimately show ?thesis by blast
  next
    case empty
    with spec rest(1) have "read_all (n # ns) polls ad = []"
      using p by (auto simp: read_ok_def split: poll_read_result.splits if_splits)
    with empty show ?thesis by auto
  next
    case pending
    with spec have eq: "unread ad' @ ws_bytes polls' = ?todo" "pending_polls polls' < pending_polls polls"
      by (auto simp: read_ok_def)
    then have "length ?todo + pending_polls polls < length (n # ns) \<longrightarrow> rest = []" using rest(2) by simp
    moreover have "read_all (n # ns) polls ad @ rest = ?todo" using p pending rest(1) eq(1) by simp
    ultimately show ?thesis by blast
  qed
qed simp

section \<open>Writing\<close>

datatype 'a poll = Ready 'a | Pending

text \<open>
  The answers of one \<open>poll_flush\<close> of the adapter: of the WebSocket's \<open>poll_ready\<close>, \<open>start_send\<close> and
  \<open>poll_flush\<close>, \<open>True\<close> for \<open>Ok\<close>.
\<close>

record flush_answers =
  fa_ready :: "bool poll"
  fa_start_send :: bool
  fa_flush :: "bool poll"

text \<open>\<open>poll_write\<close> takes every byte and says so.\<close>

definition poll_write :: "bytes \<Rightarrow> adapter \<Rightarrow> nat \<times> adapter" where
  "poll_write buf ad = (length buf, ad\<lparr>ad_write_buffer := ad_write_buffer ad @ buf\<rparr>)"

text \<open>\<open>poll_flush\<close>: the result, the messages handed to \<open>start_send\<close>, was the WebSocket's own
  \<open>poll_flush\<close> called, and the adapter.\<close>

definition poll_flush :: "flush_answers \<Rightarrow> adapter \<Rightarrow> bool poll \<times> bytes list \<times> bool \<times> adapter" where
  "poll_flush ans ad =
     (if ad_write_buffer ad = [] then (Ready True, [], False, ad)
      else case fa_ready ans of
        Ready ok \<Rightarrow>
          if \<not> ok then (Ready False, [], False, ad)
          else
            let msg = ad_write_buffer ad; ad = ad\<lparr>ad_write_buffer := []\<rparr> in
            if fa_start_send ans then (fa_flush ans, [msg], True, ad)
            else (Ready False, [msg], False, ad)
      | Pending \<Rightarrow> (Pending, [], False, ad))"

definition poll_shutdown :: "flush_answers \<Rightarrow> bool poll \<Rightarrow> adapter \<Rightarrow> bool poll \<times> bytes list \<times> adapter" where
  "poll_shutdown ans close ad =
     (let (r, sent, _, ad) = poll_flush ans ad in
      case r of
        Ready ok \<Rightarrow> if ok then (close, sent, ad) else (Ready False, sent, ad)
      | Pending \<Rightarrow> (Pending, sent, ad))"

section \<open>Properties\<close>

text \<open>
  The adapter is a faithful byte stream. Whatever sizes of buffer it is read with, the bytes it
  gives are a prefix, in order and without loss or repetition, of the bytes of the binary and text
  messages up to the first close, error or end, those behind a pending answer included; with more
  reads than there are bytes and pending answers it gives all of them. It never gives an empty read,
  which would mean the end of the stream, while there are bytes.
\<close>

theorem adapter_reads_stream:
  assumes "list_all (\<lambda>n. 0 < n) ns"
  shows "\<exists>rest. read_all ns polls new_adapter @ rest = ws_bytes polls \<and>
    (length (ws_bytes polls) + pending_polls polls < length ns \<longrightarrow> rest = [])"
  using read_all_prefix [OF assms, of polls new_adapter] by (simp add: unread_def new_adapter_def)

theorem adapter_reads_stream_witness:
  "read_all [2, 2, 2, 2, 2, 2] [Msg (Binary [1, 2, 3]), Msg Ping, WsPending, Msg (Text [4]), WsEnd] new_adapter = [1, 2, 3, 4]"
  using adapter_reads_stream [of "[2, 2, 2, 2, 2, 2]" "[Msg (Binary [1, 2, 3]), Msg Ping, WsPending, Msg (Text [4]), WsEnd]"]
  by auto

text \<open>
  A pending flush is forgotten. When the WebSocket's own flush is pending, the adapter has
  already handed its bytes over and emptied its buffer; the next \<open>poll_flush\<close> finds nothing to do and
  reports success without asking the WebSocket again, so the message may sit in the WebSocket's
  buffer although the writer was told that it was flushed.
\<close>

theorem pending_flush_forgotten:
  assumes "ad_write_buffer ad \<noteq> []" and "fa_ready ans = Ready True" and "fa_start_send ans" and "fa_flush ans = Pending"
  shows "\<exists>ad'. poll_flush ans ad = (Pending, [ad_write_buffer ad], True, ad') \<and>
    poll_flush ans' ad' = (Ready True, [], False, ad')"
  using assms by (simp add: poll_flush_def)

theorem pending_flush_forgotten_witness:
  "poll_flush \<lparr>fa_ready = Pending, fa_start_send = False, fa_flush = Pending\<rparr>
     (snd (snd (snd (poll_flush \<lparr>fa_ready = Ready True, fa_start_send = True, fa_flush = Pending\<rparr>
       (snd (poll_write [1] new_adapter)))))) = (Ready True, [], False, new_adapter)"
  using pending_flush_forgotten [of "snd (poll_write [1] new_adapter)"
      "\<lparr>fa_ready = Ready True, fa_start_send = True, fa_flush = Pending\<rparr>"
      "\<lparr>fa_ready = Pending, fa_start_send = False, fa_flush = Pending\<rparr>"]
  by (simp add: poll_write_def new_adapter_def poll_flush_def Let_def)

end
