(* ===== verification/Writer.thy ===== *)
theory Writer imports Codec_Properties Packet_Stream WebSocket "HOL-Library.Sublist" begin

text \<open>
  The writer task of a connection, in \<open>handle_connection\<close> of \<open>src/main.rs\<close>: it takes buffers off the
  session's channel and writes them to the write half of the socket, over TCP and TLS or through the
  WebSocket adapter. What both promise to the client is a locale.
\<close>

section \<open>A writer over a socket\<close>

text \<open>
  The point of the task that waits: for a buffer, for the socket to take the rest of a buffer, for
  the flush, for the shutdown of the write half; or its end.
\<close>

datatype stage = Receiving | Writing bytes | Flushing | Closing | Terminated

text \<open>
  The answers the task waits for: the channel has a buffer, or no sender is left; the socket took
  some bytes of the buffer (\<open>write_all\<close> asks again until it has all), or failed; the flush is done, or
  failed; the write half is shut down. \<open>Abort\<close> is \<open>writer_task.abort()\<close>.
\<close>

datatype socket_event =
    Next | Senders_Gone | Took nat | Write_Failed | Flushed | Flush_Failed | Shut_Down | Abort

record writer =
  wr_stage :: stage
  wr_taken :: nat
  wr_out :: bytes

definition new_writer :: writer where
  "new_writer = \<lparr>wr_stage = Receiving, wr_taken = 0, wr_out = []\<rparr>"

text \<open>\<open>write_all\<close> with the rest of a buffer; it returns when nothing is left.\<close>

definition writing :: "bytes \<Rightarrow> stage" where
  "writing buf = (if buf = [] then Flushing else Writing buf)"

fun writer_turn :: "bytes list \<Rightarrow> socket_event \<Rightarrow> stage \<Rightarrow> writer \<Rightarrow> writer" where
  "writer_turn sent Next Receiving w =
     (if wr_taken w < length sent then w\<lparr>wr_stage := writing (sent ! wr_taken w), wr_taken := wr_taken w + 1\<rparr> else w)"
| "writer_turn sent Senders_Gone Receiving w =
     (if wr_taken w < length sent then w else w\<lparr>wr_stage := Closing\<rparr>)"
| "writer_turn sent (Took n) (Writing buf) w =
     w\<lparr>wr_stage := writing (drop n buf), wr_out := wr_out w @ take n buf\<rparr>"
| "writer_turn sent Write_Failed (Writing buf) w = w\<lparr>wr_stage := Closing\<rparr>"
| "writer_turn sent Flushed Flushing w = w\<lparr>wr_stage := Receiving\<rparr>"
| "writer_turn sent Flush_Failed Flushing w = w\<lparr>wr_stage := Closing\<rparr>"
| "writer_turn sent Shut_Down Closing w = w\<lparr>wr_stage := Terminated\<rparr>"
| "writer_turn sent Abort st w = w\<lparr>wr_stage := Terminated\<rparr>"
| "writer_turn sent ev st w = w"

definition writer_step :: "bytes list \<Rightarrow> socket_event \<Rightarrow> writer \<Rightarrow> writer" where
  "writer_step sent ev w = writer_turn sent ev (wr_stage w) w"

section \<open>A writer over the WebSocket adapter\<close>

text \<open>
  \<open>poll_write\<close> of the adapter takes a whole buffer at once, so \<open>write_all\<close> does not wait; \<open>flush\<close> and
  \<open>shutdown\<close> poll again while the answer is pending. \<open>ww_messages\<close> are the messages handed to
  \<open>start_send\<close>.
\<close>

datatype ws_event =
    Ws_Next | Ws_Senders_Gone | Ws_Flush flush_answers | Ws_Shutdown flush_answers "bool poll" | Ws_Abort

record ws_writer =
  ww_stage :: stage
  ww_taken :: nat
  ww_adapter :: adapter
  ww_messages :: "bytes list"

definition new_ws_writer :: ws_writer where
  "new_ws_writer = \<lparr>ww_stage = Receiving, ww_taken = 0, ww_adapter = new_adapter, ww_messages = []\<rparr>"

fun ws_writer_turn :: "bytes list \<Rightarrow> ws_event \<Rightarrow> stage \<Rightarrow> ws_writer \<Rightarrow> ws_writer" where
  "ws_writer_turn sent Ws_Next Receiving w =
     (if ww_taken w < length sent
      then w\<lparr>ww_stage := Flushing, ww_taken := ww_taken w + 1,
        ww_adapter := snd (poll_write (sent ! ww_taken w) (ww_adapter w))\<rparr>
      else w)"
| "ws_writer_turn sent Ws_Senders_Gone Receiving w =
     (if ww_taken w < length sent then w else w\<lparr>ww_stage := Closing\<rparr>)"
| "ws_writer_turn sent (Ws_Flush ans) Flushing w =
     (case poll_flush ans (ww_adapter w) of (r, msgs, _, ad) \<Rightarrow>
        w\<lparr>ww_stage := (case r of Ready ok \<Rightarrow> if ok then Receiving else Closing | Pending \<Rightarrow> Flushing),
          ww_adapter := ad, ww_messages := ww_messages w @ msgs\<rparr>)"
| "ws_writer_turn sent (Ws_Shutdown ans close) Closing w =
     (case poll_shutdown ans close (ww_adapter w) of (r, msgs, ad) \<Rightarrow>
        w\<lparr>ww_stage := (case r of Ready ok \<Rightarrow> Terminated | Pending \<Rightarrow> Closing),
          ww_adapter := ad, ww_messages := ww_messages w @ msgs\<rparr>)"
| "ws_writer_turn sent Ws_Abort st w = w\<lparr>ww_stage := Terminated\<rparr>"
| "ws_writer_turn sent ev st w = w"

definition ws_writer_step :: "bytes list \<Rightarrow> ws_event \<Rightarrow> ws_writer \<Rightarrow> ws_writer" where
  "ws_writer_step sent ev w = ws_writer_turn sent ev (ww_stage w) w"

section \<open>The client's reader\<close>

text \<open>
  A client reads as the broker does: it appends what it receives to a buffer and takes the packets
  off it.
\<close>

function client_loop :: "packet list \<Rightarrow> bytes \<Rightarrow> (packet list, codec_error) drained" where
  "client_loop ps buf =
     (case decode_packet buf of
        Ok (p, n) \<Rightarrow> client_loop (ps @ [p]) (drop n buf)
      | Err e \<Rightarrow> if e = Incomplete then Waiting ps buf else Failed e ps
      | Panic \<Rightarrow> Crashed ps)"
  by pat_completeness auto
termination
  by (relation "measure (\<lambda>(ps, buf). length buf)") (use packet_sound(2,3) in fastforce)+

declare client_loop.simps [simp del]

interpretation client: packet_stream decode_packet "\<lambda>p ps. Ok (ps @ [p])" "\<lambda>e. e" client_loop
proof (unfold_locales, goal_cases)
  case (4 s buf)
  show ?case by (subst client_loop.simps) (auto split: outcome.split)
qed (use packet_decoder in auto)

text \<open>Of the encodings of packets, it gets all that have arrived whole, and it waits with the rest.\<close>

lemma client_takes:
  assumes "list_all wf_packet ps"
  shows "client_loop qs (concat (map encode_packet ps) @ rest) = client_loop (qs @ ps) rest"
proof (rule client.in_order)
  show "decode_packet (encode_packet p @ rest) = Ok (p, length (encode_packet p))" if "p \<in> set ps" for p rest
    using assms that by (simp add: list.pred_set packet_roundtrip)
  show "handle_all (\<lambda>p ps. Ok (ps @ [p])) ps qs = Ok (qs @ ps)"
    by (induction ps arbitrary: qs) simp_all
qed

lemma client_prefix:
  assumes "list_all wf_packet ps" and "prefix out (concat (map encode_packet ps))"
  shows "\<exists>k rest. client_loop [] out = Waiting (take k ps) rest \<and> out = concat (map encode_packet (take k ps)) @ rest \<and>
    k \<le> length ps \<and> (if k < length ps then strict_prefix rest (encode_packet (ps ! k)) else rest = [])"
  using assms
proof (induction ps arbitrary: out rule: rev_induct)
  case Nil
  then show ?case by (intro exI [of _ 0]) (simp add: client.loop_Nil)
next
  case (snoc p ps)
  show ?case
  proof (cases "prefix out (concat (map encode_packet ps))")
    case True
    from snoc(1) [OF _ True] snoc(2) obtain k rest where
      k: "client_loop [] out = Waiting (take k ps) rest" "out = concat (map encode_packet (take k ps)) @ rest" "k \<le> length ps"
        "if k < length ps then strict_prefix rest (encode_packet (ps ! k)) else rest = []" by auto
    have "encode_packet p \<noteq> []" using packet_roundtrip [of p "[]"] snoc(2) by auto
    with k show ?thesis
      by (intro exI [of _ k] exI [of _ rest]) (auto simp: nth_append strict_prefix_def split: if_splits)
  next
    case False
    with snoc(3) obtain part where part: "out = concat (map encode_packet ps) @ part" "prefix part (encode_packet p)"
      by (auto simp: prefix_append)
    have wf: "list_all wf_packet ps" "wf_packet p" using snoc(2) by simp_all
    show ?thesis
    proof (cases "part = encode_packet p")
      case True
      with part client_takes [OF snoc(2), of "[]" "[]"] show ?thesis
        by (intro exI [of _ "Suc (length ps)"] exI [of _ "[]"]) (simp add: client.loop_Nil)
    next
      case False
      with part(2) have strict: "strict_prefix part (encode_packet p)" by simp
      then have len: "length part < length (encode_packet p)" by (rule prefix_length_less)
      from part(2) have "part = take (length part) (encode_packet p)" by (auto simp: prefix_def)
      with packet_strict_prefix [OF wf(2) len] have "decode_packet part = Err Incomplete" by simp
      then have "client_loop ps part = Waiting ps part" by (subst client_loop.simps) simp
      with part(1) client_takes [OF wf(1), of "[]" part] strict show ?thesis
        by (intro exI [of _ "length ps"] exI [of _ part]) simp
    qed
  qed
qed

section \<open>The contract of a writer\<close>

text \<open>
  A writer has an invariant that relates it to what was sent on the channel so far. The invariant
  survives further sends and every step, and it makes what the writer has put out a prefix of the
  buffers it has taken, in order, and all of them when it is idle.
\<close>

locale channel_writer =
  fixes step :: "bytes list \<Rightarrow> 'e \<Rightarrow> 'w \<Rightarrow> 'w" and start :: 'w
    and ok :: "bytes list \<Rightarrow> 'w \<Rightarrow> bool" and idle :: "'w \<Rightarrow> bool"
    and taken :: "'w \<Rightarrow> nat" and out :: "'w \<Rightarrow> bytes"
  assumes start: "ok [] start"
    and sends: "ok sent w \<Longrightarrow> ok (sent @ later) w"
    and steps: "ok sent w \<Longrightarrow> ok sent (step sent ev w)"
    and takes: "ok sent w \<Longrightarrow> taken w \<le> length sent"
    and puts: "ok sent w \<Longrightarrow> prefix (out w) (concat (take (taken w) sent))"
    and idle: "ok sent w \<Longrightarrow> idle w \<Longrightarrow> out w = concat (take (taken w) sent)"
begin

lemma extended: "ok sent w \<Longrightarrow> prefix sent sent' \<Longrightarrow> ok sent' w"
  using sends by (auto simp: prefix_def)

lemma fresh: "ok sent start"
  using sends [OF start] by simp

lemma client_reads:
  assumes "ok sent w" and "list_all wf_packet ps" and "take (taken w) sent = map encode_packet ps"
  shows "\<exists>k rest. client_loop [] (out w) = Waiting (take k ps) rest \<and> k \<le> length ps \<and> (idle w \<longrightarrow> k = length ps \<and> rest = [])"
proof (cases "idle w")
  case True
  with idle [OF assms(1)] assms(3) client_takes [OF assms(2), of "[]" "[]"] show ?thesis
    by (intro exI [of _ "length ps"] exI [of _ "[]"]) (simp add: client.loop_Nil)
next
  case False
  from client_prefix [OF assms(2) puts [OF assms(1), unfolded assms(3)]] False show ?thesis by blast
qed

end

text \<open>
  Over a socket: what is out and what is left of the current buffer is what was taken, and all
  earlier buffers are out.
\<close>

definition writer_ok :: "bytes list \<Rightarrow> writer \<Rightarrow> bool" where
  "writer_ok sent w \<longleftrightarrow> wr_taken w \<le> length sent \<and>
     (case wr_stage w of
        Writing buf \<Rightarrow> wr_out w @ buf = concat (take (wr_taken w) sent) \<and>
          prefix (concat (take (wr_taken w - 1) sent)) (wr_out w)
      | Receiving \<Rightarrow> wr_out w = concat (take (wr_taken w) sent)
      | Flushing \<Rightarrow> wr_out w = concat (take (wr_taken w) sent)
      | _ \<Rightarrow> prefix (wr_out w) (concat (take (wr_taken w) sent)))"

lemma writer_ok_step: "writer_ok sent w \<Longrightarrow> writer_ok sent (writer_step sent ev w)"
proof (cases "(sent, ev, wr_stage w, w)" rule: writer_turn.cases)
  case (1 sent' w')
  moreover assume "writer_ok sent w"
  ultimately show ?thesis
    by (cases "sent' ! wr_taken w' = []") (auto simp: writer_step_def writer_ok_def writing_def take_Suc_conv_app_nth)
next
  case (3 sent' n buf w')
  moreover assume "writer_ok sent w"
  ultimately show ?thesis
    by (cases "drop n buf = []") (auto simp: writer_step_def writer_ok_def writing_def)
qed (auto simp: writer_step_def writer_ok_def intro: prefixI [OF sym] split: stage.splits)

interpretation socket: channel_writer writer_step new_writer writer_ok "\<lambda>w. wr_stage w = Receiving" wr_taken wr_out
proof (unfold_locales, goal_cases)
  case (3 sent w ev)
  then show ?case by (rule writer_ok_step)
next
  case (5 sent w)
  then show ?case by (auto simp: writer_ok_def intro: prefixI [OF sym] split: stage.splits)
qed (auto simp: writer_ok_def new_writer_def split: stage.splits)

text \<open>
  Over the adapter: each message handed over is one buffer, and the adapter holds the one that is not
  handed over yet. An idle writer has handed over all it has taken.
\<close>

definition held :: "adapter \<Rightarrow> bytes list" where
  "held ad = filter (\<lambda>buf. buf \<noteq> []) [ad_write_buffer ad]"

definition ws_writer_ok :: "bytes list \<Rightarrow> ws_writer \<Rightarrow> bool" where
  "ws_writer_ok sent w \<longleftrightarrow> ww_taken w \<le> length sent \<and> (ww_stage w = Receiving \<longrightarrow> ad_write_buffer (ww_adapter w) = []) \<and>
     ww_messages w @ held (ww_adapter w) = filter (\<lambda>buf. buf \<noteq> []) (take (ww_taken w) sent)"

lemma poll_flush_held:
  assumes "poll_flush ans ad = (r, msgs, called, ad')"
  shows "msgs @ held ad' = held ad" and "r = Ready True \<Longrightarrow> ad_write_buffer ad' = []"
  using assms by (auto simp: poll_flush_def held_def Let_def split: if_splits poll.splits)

lemma poll_shutdown_held:
  assumes "poll_shutdown ans close ad = (r, msgs, ad')"
  shows "msgs @ held ad' = held ad"
proof -
  obtain r' msgs' called ad1 where f: "poll_flush ans ad = (r', msgs', called, ad1)" by (metis surj_pair)
  with assms have "msgs' = msgs" "ad1 = ad'"
    by (auto simp: poll_shutdown_def split: poll.splits if_splits)
  with poll_flush_held(1) [OF f] show ?thesis by simp
qed

lemma ws_writer_ok_step: "ws_writer_ok sent w \<Longrightarrow> ws_writer_ok sent (ws_writer_step sent ev w)"
proof (cases "(sent, ev, ww_stage w, w)" rule: ws_writer_turn.cases)
  case (1 sent' w')
  moreover assume "ws_writer_ok sent w"
  ultimately show ?thesis
    by (cases "ww_taken w' < length sent'")
      (auto simp: ws_writer_step_def ws_writer_ok_def held_def poll_write_def take_Suc_conv_app_nth)
next
  case (3 sent' ans w')
  moreover assume "ws_writer_ok sent w"
  moreover obtain r msgs called ad where "poll_flush ans (ww_adapter w) = (r, msgs, called, ad)" by (metis surj_pair)
  moreover note poll_flush_held [OF this]
  ultimately show ?thesis
    by (auto simp: ws_writer_step_def ws_writer_ok_def split: poll.splits if_splits)
next
  case (4 sent' ans close w')
  moreover assume "ws_writer_ok sent w"
  moreover obtain r msgs ad where "poll_shutdown ans close (ww_adapter w) = (r, msgs, ad)" by (metis surj_pair)
  moreover note poll_shutdown_held [OF this]
  ultimately show ?thesis
    by (auto simp: ws_writer_step_def ws_writer_ok_def split: poll.splits)
qed (auto simp: ws_writer_step_def ws_writer_ok_def)

lemma concat_nonempty: "concat (filter (\<lambda>buf. buf \<noteq> []) bufs) = concat bufs"
  by (induction bufs) auto

lemma ws_writer_out:
  assumes "ws_writer_ok sent w"
  shows "concat (ww_messages w) @ ad_write_buffer (ww_adapter w) = concat (take (ww_taken w) sent)"
proof -
  have "concat (held ad) = ad_write_buffer ad" for ad by (simp add: held_def)
  then show ?thesis using assms concat_nonempty by (metis concat_append ws_writer_ok_def)
qed

interpretation websocket: channel_writer ws_writer_step new_ws_writer ws_writer_ok
  "\<lambda>w. ww_stage w = Receiving" ww_taken "\<lambda>w. concat (ww_messages w)"
proof (unfold_locales, goal_cases)
  case (3 sent w ev)
  then show ?case by (rule ws_writer_ok_step)
next
  case (5 sent w)
  from ws_writer_out [OF this] show ?case by (intro prefixI) (rule sym)
next
  case (6 sent w)
  with ws_writer_out [OF 6(1)] show ?case by (simp add: ws_writer_ok_def)
qed (auto simp: ws_writer_ok_def new_ws_writer_def new_adapter_def held_def)

section \<open>Every buffer is written\<close>

text \<open>
  The answers of a socket that goes on: no failure, no end, and no answer without progress. The
  measure of what is left falls with each of them while there is something left.
\<close>

fun goes_on :: "bytes list \<Rightarrow> socket_event \<Rightarrow> stage \<Rightarrow> writer \<Rightarrow> bool" where
  "goes_on sent Next Receiving w \<longleftrightarrow> wr_taken w < length sent"
| "goes_on sent (Took n) (Writing buf) w \<longleftrightarrow> 0 < n"
| "goes_on sent Flushed Flushing w \<longleftrightarrow> True"
| "goes_on sent ev st w \<longleftrightarrow> False"

fun going :: "bytes list \<Rightarrow> socket_event list \<Rightarrow> writer \<Rightarrow> bool" where
  "going sent [] w \<longleftrightarrow> True"
| "going sent (ev # evs) w \<longleftrightarrow> goes_on sent ev (wr_stage w) w \<and> going sent evs (writer_step sent ev w)"

definition unwritten :: "bytes list \<Rightarrow> writer \<Rightarrow> nat" where
  "unwritten sent w = (\<Sum>buf\<leftarrow>drop (wr_taken w) sent. length buf + 3) +
     (case wr_stage w of Writing buf \<Rightarrow> length buf + 2 | Flushing \<Rightarrow> 1 | _ \<Rightarrow> 0)"

lemma goes_on_less:
  assumes "goes_on sent ev (wr_stage w) w"
  shows "unwritten sent (writer_step sent ev w) < unwritten sent w"
proof (cases "(sent, ev, wr_stage w, w)" rule: goes_on.cases)
  case (1 sent' w')
  with assms have "wr_taken w < length sent" by auto
  then have "drop (wr_taken w) sent = sent ! wr_taken w # drop (Suc (wr_taken w)) sent"
    by (simp add: Cons_nth_drop_Suc)
  with 1 assms show ?thesis by (auto simp: unwritten_def writer_step_def writing_def)
next
  case (2 sent' n buf w')
  with assms show ?thesis by (auto simp: unwritten_def writer_step_def writing_def intro!: diff_less)
qed (use assms in \<open>auto simp: unwritten_def writer_step_def\<close>)

lemma going_bounded: "going sent evs w \<Longrightarrow> length evs \<le> unwritten sent w"
proof (induction evs arbitrary: w)
  case (Cons ev evs)
  then show ?case using goes_on_less [of sent ev w] by fastforce
qed simp

lemma going_open:
  "going sent evs w \<Longrightarrow> writer_ok sent w \<Longrightarrow> wr_stage w \<notin> {Closing, Terminated} \<Longrightarrow>
   let w' = fold (writer_step sent) evs w in writer_ok sent w' \<and> wr_stage w' \<notin> {Closing, Terminated}"
proof (induction evs arbitrary: w)
  case (Cons ev evs)
  from Cons.prems(1) have "goes_on sent ev (wr_stage w) w" "going sent evs (writer_step sent ev w)" by simp_all
  moreover from this(1) have "wr_stage (writer_step sent ev w) \<notin> {Closing, Terminated}"
    by (cases "(sent, ev, wr_stage w, w)" rule: goes_on.cases) (auto simp: writer_step_def writing_def)
  ultimately show ?case using Cons.IH writer_ok_step [OF Cons.prems(2)] by simp
qed simp

lemma writer_done:
  assumes "writer_ok sent w" and "wr_stage w \<notin> {Closing, Terminated}" and "going sent evs w"
  defines "w' \<equiv> fold (writer_step sent) evs w"
  assumes none: "\<nexists>ev. goes_on sent ev (wr_stage w') w'"
  shows "wr_out w' = concat sent"
proof -
  from going_open [OF assms(3,1,2)] have w': "writer_ok sent w'" "wr_stage w' \<notin> {Closing, Terminated}"
    by (simp_all add: w'_def Let_def)
  show ?thesis
  proof (cases "wr_stage w'")
    case Receiving
    with none have "\<not> wr_taken w' < length sent" by (metis goes_on.simps(1))
    with Receiving w'(1) show ?thesis by (simp add: writer_ok_def)
  next
    case (Writing buf)
    have "goes_on sent (Took 1) (Writing buf) w'" by simp
    with none Writing show ?thesis by metis
  next
    case Flushing
    have "goes_on sent Flushed Flushing w'" by simp
    with none Flushing show ?thesis by metis
  qed (use w'(2) in auto)
qed

text \<open>
  A writer whose socket keeps taking bytes writes everything. From any state before its end, and
  for any amounts the socket takes at a time, it can go on until the channel is empty, in at most as
  many steps as the bytes and buffers that are left, and then every byte sent on the channel is out,
  in order.
\<close>

theorem writer_drains:
  assumes "writer_ok sent w" and "wr_stage w \<notin> {Closing, Terminated}" and "going sent evs w"
  defines "w' \<equiv> fold (writer_step sent) evs w"
  shows "length evs \<le> unwritten sent w \<and>
    (if \<exists>ev. goes_on sent ev (wr_stage w') w' then prefix (wr_out w') (concat sent) else wr_out w' = concat sent)"
proof -
  from going_open [OF assms(3,1,2)] have "writer_ok sent w'" by (simp add: w'_def Let_def)
  then have "prefix (wr_out w') (concat (take (wr_taken w') sent))" by (rule socket.puts)
  then have "prefix (wr_out w') (concat sent)"
    by (metis append_take_drop_id concat_append prefix_order.trans prefixI)
  with writer_done [OF assms(1-3)] going_bounded [OF assms(3)] show ?thesis by (simp add: w'_def)
qed

theorem writer_drains_witness:
  "wr_out (fold (writer_step [[1, 2, 3], [4]]) [Next, Took 2, Took 5, Flushed, Next, Took 1, Flushed] new_writer) = [1, 2, 3, 4]"
proof -
  let ?evs = "[Next, Took 2, Took 5, Flushed, Next, Took 1, Flushed]"
  let ?w = "fold (writer_step [[1, 2, 3], [4]]) ?evs new_writer"
  have "\<not> goes_on [[1, 2, 3], [4]] ev (wr_stage ?w) ?w" for ev
    by (cases ev) (simp_all add: new_writer_def writer_step_def writing_def)
  with writer_drains [OF socket.fresh, of "[[1, 2, 3], [4]]" ?evs] show ?thesis
    by (simp add: new_writer_def writer_step_def writing_def)
qed

end
