(* ===== verification/Numbers.thy ===== *)
theory Numbers imports Prelude begin

text \<open>
  What the program uses of Rust's numbers in text: \<open>str::parse::<u16>\<close>, by which \<open>src/main.rs\<close> and
  \<open>src/bridge.rs\<close> read ports, and the decimal form that \<open>format!\<close> gives a \<open>usize\<close> in
  \<open>src/metrics.rs\<close>.
\<close>

definition is_digit :: "u8 \<Rightarrow> bool" where
  "is_digit b \<longleftrightarrow> 48 \<le> unat b \<and> unat b \<le> 57"

definition digit_value :: "u8 \<Rightarrow> nat" where
  "digit_value b = unat b - 48"

text \<open>
  The loop of \<open>from_str_radix\<close> with its checked multiplication and addition, for an unsigned type
  with the given greatest value: every error is \<open>None\<close>.
\<close>

fun parse_digits :: "nat \<Rightarrow> nat \<Rightarrow> rstr \<Rightarrow> nat option" where
  "parse_digits greatest acc [] = Some acc"
| "parse_digits greatest acc (c # cs) =
     (if greatest < acc * 10 then None
      else if \<not> is_digit c then None
      else if greatest < acc * 10 + digit_value c then None
      else parse_digits greatest (acc * 10 + digit_value c) cs)"

definition parse_u16 :: "rstr \<Rightarrow> u16 option" where
  "parse_u16 s =
     (if s = [] then None
      else if s = lit ''+'' \<or> s = lit ''-'' then None
      else map_option of_nat (parse_digits 65535 0 (if hd s = of_char CHR ''+'' then tl s else s)))"

text \<open>\<open>Display\<close> of an unsigned number.\<close>

fun decimal :: "nat \<Rightarrow> rstr" where
  "decimal n = (if n < 10 then [of_nat (48 + n)] else decimal (n div 10) @ [of_nat (48 + n mod 10)])"

declare decimal.simps [simp del]

section \<open>The value of a string of digits\<close>

definition number :: "nat \<Rightarrow> rstr \<Rightarrow> nat" where
  "number acc s = foldl (\<lambda>a c. a * 10 + digit_value c) acc s"

lemma number_simps [simp]:
  "number acc [] = acc"
  "number acc (c # cs) = number (acc * 10 + digit_value c) cs"
  "number acc (cs @ ds) = number (number acc cs) ds"
  by (simp_all add: number_def)

lemma number_ge: "acc \<le> number acc s"
proof (induction s arbitrary: acc)
  case (Cons c s)
  have "acc \<le> acc * 10 + digit_value c" by simp
  also have "\<dots> \<le> number (acc * 10 + digit_value c) s" by (rule Cons)
  finally show ?case by simp
qed simp

lemma parse_digits_iff:
  "acc \<le> greatest \<Longrightarrow> parse_digits greatest acc s = Some n \<longleftrightarrow>
    (\<forall>c \<in> set s. is_digit c) \<and> n = number acc s \<and> n \<le> greatest"
proof (induction s arbitrary: acc)
  case (Cons c s)
  let ?a = "acc * 10 + digit_value c"
  show ?case
  proof (cases "is_digit c \<and> ?a \<le> greatest")
    case True
    then show ?thesis using Cons.IH [of ?a] by auto
  next
    case False
    with number_ge [of ?a s] show ?thesis by auto
  qed
qed auto

lemma digit_char: "n < 10 \<Longrightarrow> is_digit (of_nat (48 + n)) \<and> digit_value (of_nat (48 + n)) = n"
  by (simp add: is_digit_def digit_value_def unat_word_ariths(1) unat_of_nat)

lemma decimal_digits: "(\<forall>c \<in> set (decimal n). is_digit c) \<and> decimal n \<noteq> []"
proof (induction n rule: decimal.induct)
  case (1 n)
  show ?case
  proof (cases "n < 10")
    case True
    then show ?thesis using digit_char [of n] by (subst (1 2) decimal.simps) simp
  next
    case False
    then show ?thesis using 1 digit_char [of "n mod 10"] by (subst (1 2) decimal.simps) auto
  qed
qed

lemma number_decimal: "number 0 (decimal n) = n"
proof (induction n rule: decimal.induct)
  case (1 n)
  show ?case
  proof (cases "n < 10")
    case True
    then show ?thesis using digit_char [of n] by (subst decimal.simps) simp
  next
    case False
    then show ?thesis using 1 digit_char [of "n mod 10"] by (subst decimal.simps) simp
  qed
qed

text \<open>A digit is not one of the bytes that separate numbers.\<close>

lemma digit_neq: "is_digit c \<Longrightarrow> c \<noteq> 10 \<and> c \<noteq> 13 \<and> c \<noteq> 32 \<and> c \<noteq> 43 \<and> c \<noteq> 45"
  by (auto simp: is_digit_def)

lemma parse_u16_iff:
  "parse_u16 s = Some p \<longleftrightarrow>
    (\<exists>ds. (s = ds \<or> s = lit ''+'' @ ds) \<and> ds \<noteq> [] \<and> (\<forall>c \<in> set ds. is_digit c) \<and>
      number 0 ds \<le> 65535 \<and> p = of_nat (number 0 ds))"
proof (cases s)
  case (Cons c cs)
  show ?thesis
  proof (cases "c = 43")
    case True
    then have "\<not> is_digit c" by (simp add: is_digit_def)
    with True Cons show ?thesis
      by (cases "cs = []") (auto simp: parse_u16_def parse_digits_iff)
  next
    case False
    have "s = lit ''-'' \<Longrightarrow> \<not> is_digit c" using Cons by (simp add: is_digit_def)
    with False Cons show ?thesis
      by (cases "s = lit ''-''") (auto simp: parse_u16_def parse_digits_iff simp del: parse_digits.simps)
  qed
qed (simp add: parse_u16_def)

end
