(* ===== verification/Session.thy ===== *)
theory Session imports Prelude begin

text \<open>
  A client session, \<open>src/session.rs\<close>: its fields, the packet identifiers, the in-flight messages and
  the channel to the writer task. \<open>Instant::now()\<close> is an argument \<open>now\<close>.
\<close>

section \<open>The session\<close>

record in_flight_message =
  if_packet_id :: u16
  if_topic :: rstr
  if_payload :: bytes
  if_qos :: u8
  if_sent_at :: nat

text \<open>
  \<open>cs_sent\<close> holds the buffers sent on the unbounded channel \<open>sender\<close>, \<open>cs_receiver\<close> says whether its
  receiver is still there: \<open>send\<close> fails when it has been dropped.
\<close>

record client_session =
  cs_client_id :: rstr
  cs_username :: "rstr option"
  cs_clean_start :: bool
  cs_keep_alive :: u16
  cs_session_expiry_interval :: u32
  cs_last_activity :: nat
  cs_sent :: "bytes list"
  cs_receiver :: bool
  cs_topic_aliases :: "(u16 \<times> rstr) list"
  cs_next_packet_id :: u16
  cs_in_flight :: "(u16 \<times> in_flight_message) list"

definition new_session ::
  "nat \<Rightarrow> rstr \<Rightarrow> rstr option \<Rightarrow> bool \<Rightarrow> u16 \<Rightarrow> u32 \<Rightarrow> bool \<Rightarrow> client_session" where
  "new_session now client_id username clean_start keep_alive session_expiry_interval receiver =
     \<lparr>cs_client_id = client_id, cs_username = username, cs_clean_start = clean_start,
      cs_keep_alive = keep_alive, cs_session_expiry_interval = session_expiry_interval,
      cs_last_activity = now, cs_sent = [], cs_receiver = receiver, cs_topic_aliases = [],
      cs_next_packet_id = 1, cs_in_flight = []\<rparr>"

definition update_activity :: "nat \<Rightarrow> client_session \<Rightarrow> client_session" where
  "update_activity now s = s\<lparr>cs_last_activity := now\<rparr>"

text \<open>\<open>fetch_add(1)\<close> gives the old value and wraps around.\<close>

definition get_next_packet_id :: "client_session \<Rightarrow> u16 \<times> client_session" where
  "get_next_packet_id s =
     (let pid = cs_next_packet_id s;
          s = s\<lparr>cs_next_packet_id := cs_next_packet_id s + 1\<rparr> in
      if pid = 0 then (cs_next_packet_id s, s\<lparr>cs_next_packet_id := cs_next_packet_id s + 1\<rparr>)
      else (pid, s))"

definition add_in_flight :: "nat \<Rightarrow> u16 \<Rightarrow> rstr \<Rightarrow> bytes \<Rightarrow> u8 \<Rightarrow> client_session \<Rightarrow> client_session" where
  "add_in_flight now packet_id topic payload qos s =
     s\<lparr>cs_in_flight := AList.update packet_id
       \<lparr>if_packet_id = packet_id, if_topic = topic, if_payload = payload, if_qos = qos, if_sent_at = now\<rparr>
       (cs_in_flight s)\<rparr>"

definition remove_in_flight :: "u16 \<Rightarrow> client_session \<Rightarrow> in_flight_message option \<times> client_session" where
  "remove_in_flight packet_id s =
     (map_of (cs_in_flight s) packet_id, s\<lparr>cs_in_flight := AList.delete packet_id (cs_in_flight s)\<rparr>)"

text \<open>\<open>session.sender.send(buf)\<close>; a failure is logged and changes nothing.\<close>

definition send_buf :: "bytes \<Rightarrow> client_session \<Rightarrow> client_session" where
  "send_buf buf s = (if cs_receiver s then s\<lparr>cs_sent := cs_sent s @ [buf]\<rparr> else s)"

section \<open>Packet identifiers\<close>

fun packet_ids :: "nat \<Rightarrow> client_session \<Rightarrow> u16 list" where
  "packet_ids 0 s = []"
| "packet_ids (Suc n) s = (let (pid, s') = get_next_packet_id s in pid # packet_ids n s')"

text \<open>The identifiers are the numbers 1 to 65535 in a circle.\<close>

definition first_id :: "u16 \<Rightarrow> nat" where
  "first_id nxt = (if nxt = 0 then 0 else unat nxt - 1)"

lemma next_packet_id:
  assumes "get_next_packet_id s = (pid, s')"
  shows "unat pid = Suc (first_id (cs_next_packet_id s))" and "pid \<noteq> 0"
    and "first_id (cs_next_packet_id s') = Suc (first_id (cs_next_packet_id s)) mod 65535"
proof -
  let ?n = "cs_next_packet_id s"
  have pid: "pid = (if ?n = 0 then 1 else ?n)" and s': "cs_next_packet_id s' = pid + 1"
    using assms by (auto simp: get_next_packet_id_def Let_def split: if_splits)
  have "?n \<noteq> 0 \<Longrightarrow> 0 < unat ?n" by (simp add: unat_gt_0)
  then show u: "unat pid = Suc (first_id ?n)"
    by (auto simp: pid first_id_def)
  show "pid \<noteq> 0" by (simp add: pid)
  show "first_id (cs_next_packet_id s') = Suc (first_id ?n) mod 65535"
  proof (cases "unat pid = 65535")
    case True
    then have "pid + 1 = 0" by (simp add: word_unat_eq_iff unat_word_ariths(1))
    with True u show ?thesis by (simp add: s' first_id_def)
  next
    case False
    with unat_u16_less [of pid] have "unat (pid + 1) = Suc (unat pid)" by (simp add: unat_word_ariths(1))
    moreover from this have "pid + 1 \<noteq> 0" by (metis nat.distinct(1) unat_0)
    ultimately show ?thesis using False u unat_u16_less [of pid] by (simp add: s' first_id_def)
  qed
qed

lemma packet_ids_spec:
  "packet_ids n s = map (\<lambda>k. of_nat (Suc ((first_id (cs_next_packet_id s) + k) mod 65535))) [0..<n]"
proof (induction n arbitrary: s)
  case (Suc n)
  obtain pid s' where g: "get_next_packet_id s = (pid, s')" by (cases "get_next_packet_id s")
  let ?f = "first_id (cs_next_packet_id s)"
  have f: "?f < 65535" using unat_u16_less [of "cs_next_packet_id s"] by (simp add: first_id_def) linarith
  have pid: "pid = of_nat (Suc (?f mod 65535))"
    using next_packet_id(1) [OF g] f by (metis mod_less of_nat_unat ucast_id unsigned_of_nat)
  have "packet_ids n s' = map (\<lambda>k. of_nat (Suc ((?f + Suc k) mod 65535))) [0..<n]"
    unfolding Suc.IH next_packet_id(3) [OF g] by (simp add: mod_simps)
  moreover have "[0..<Suc n] = 0 # map Suc [0..<n]" by (simp add: map_Suc_upt upt_conv_Cons del: upt_Suc)
  ultimately show ?case by (simp add: g pid comp_def del: upt_Suc)
qed simp

lemma packet_ids_nonzero: "0 \<notin> set (packet_ids n s)"
proof (induction n arbitrary: s)
  case (Suc n)
  obtain pid s' where "get_next_packet_id s = (pid, s')" by (cases "get_next_packet_id s")
  with Suc next_packet_id(2) [OF this] show ?case by auto
qed simp

lemma packet_ids_distinct:
  assumes "n \<le> 65535"
  shows "distinct (packet_ids n s)"
proof -
  let ?f = "first_id (cs_next_packet_id s)"
  have "j = k" if "j < n" "k < n"
    "(of_nat (Suc ((?f + j) mod 65535)) :: u16) = of_nat (Suc ((?f + k) mod 65535))" for j k
  proof -
    have "(?f + i) mod 65535 < 65535" for i by simp
    then have "unat (of_nat (Suc ((?f + i) mod 65535)) :: u16) = Suc ((?f + i) mod 65535)" for i
      by (subst unat_of_nat) (simp add: less_Suc_eq le_less Suc_lessI)
    with that(3) have "(?f + j) mod 65535 = (?f + k) mod 65535" by (metis Suc_inject)
    then have "65535 dvd k - j" "65535 dvd j - k"
      by (cases "j \<le> k"; metis (no_types) add_diff_cancel_left dvd_0_right diff_is_0_eq
          mod_eq_dvd_iff_nat nat_add_left_cancel_le nat_le_linear)+
    with that(1,2) assms show "j = k" by (auto dest!: dvd_imp_le intro: ccontr)
  qed
  then show ?thesis
    unfolding packet_ids_spec by (auto simp: distinct_map inj_on_def)
qed

end
