(* ===== verification/Persistence.thy ===== *)
theory Persistence imports Prelude begin

text \<open>
  The database of \<open>src/persistence.rs\<close>: three tables with their primary keys, and the SQL statements
  the program executes on them. SQLite itself is not modelled: a statement either succeeds, with
  the effect the standard gives it, or fails and changes nothing; which of the two is a parameter.
  The futures the broker spawns are values of \<open>db_task\<close>, run one at a time behind the mutex.
\<close>

section \<open>Tables\<close>

record session_row =
  sr_username :: "rstr option"
  sr_clean_start :: int
  sr_session_expiry_interval :: u32
  sr_last_activity :: u64

record subscription_row =
  ur_qos :: u8
  ur_sub_id :: "u32 option"

record in_flight_row =
  fr_topic :: rstr
  fr_payload :: bytes
  fr_qos :: u8

record database =
  db_sessions :: "(rstr \<times> session_row) list"
  db_subscriptions :: "((rstr \<times> rstr) \<times> subscription_row) list"
  db_in_flight :: "((rstr \<times> u16) \<times> in_flight_row) list"

definition empty_database :: database where
  "empty_database = \<lparr>db_sessions = [], db_subscriptions = [], db_in_flight = []\<rparr>"

definition of_client :: "rstr \<Rightarrow> ((rstr \<times> 'k) \<times> 'r) \<Rightarrow> bool" where
  "of_client client_id row \<longleftrightarrow> fst (fst row) = client_id"

section \<open>Statements\<close>

text \<open>\<open>INSERT OR REPLACE\<close> is an update of the row with that key.\<close>

definition save_session ::
  "bool \<Rightarrow> u64 \<Rightarrow> rstr \<Rightarrow> rstr option \<Rightarrow> bool \<Rightarrow> u32 \<Rightarrow> database \<Rightarrow> database" where
  "save_session ok now client_id username clean_start session_expiry_interval db =
     (let clean_start_int = (if clean_start then 1 else 0) in
      if ok then db\<lparr>db_sessions := AList.update client_id
        \<lparr>sr_username = username, sr_clean_start = clean_start_int,
         sr_session_expiry_interval = session_expiry_interval, sr_last_activity = now\<rparr>
        (db_sessions db)\<rparr>
      else db)"

text \<open>Three statements, each of which may fail on its own.\<close>

definition delete_session :: "bool \<times> bool \<times> bool \<Rightarrow> rstr \<Rightarrow> database \<Rightarrow> database" where
  "delete_session oks client_id db =
     (let (ok1, ok2, ok3) = oks;
          db = (if ok1 then db\<lparr>db_sessions := AList.delete client_id (db_sessions db)\<rparr> else db);
          db = (if ok2 then db\<lparr>db_subscriptions :=
            filter (\<lambda>row. \<not> of_client client_id row) (db_subscriptions db)\<rparr> else db) in
      if ok3 then db\<lparr>db_in_flight := filter (\<lambda>row. \<not> of_client client_id row) (db_in_flight db)\<rparr> else db)"

definition save_subscription :: "bool \<Rightarrow> rstr \<Rightarrow> rstr \<Rightarrow> u8 \<Rightarrow> u32 option \<Rightarrow> database \<Rightarrow> database" where
  "save_subscription ok client_id topic_filter qos sub_id db =
     (if ok then db\<lparr>db_subscriptions := AList.update (client_id, topic_filter)
        \<lparr>ur_qos = qos, ur_sub_id = sub_id\<rparr> (db_subscriptions db)\<rparr>
      else db)"

definition delete_subscription :: "bool \<Rightarrow> rstr \<Rightarrow> rstr \<Rightarrow> database \<Rightarrow> database" where
  "delete_subscription ok client_id topic_filter db =
     (if ok then db\<lparr>db_subscriptions := AList.delete (client_id, topic_filter) (db_subscriptions db)\<rparr>
      else db)"

definition save_in_flight :: "bool \<Rightarrow> rstr \<Rightarrow> u16 \<Rightarrow> rstr \<Rightarrow> bytes \<Rightarrow> u8 \<Rightarrow> database \<Rightarrow> database" where
  "save_in_flight ok client_id packet_id topic payload qos db =
     (if ok then db\<lparr>db_in_flight := AList.update (client_id, packet_id)
        \<lparr>fr_topic = topic, fr_payload = payload, fr_qos = qos\<rparr> (db_in_flight db)\<rparr>
      else db)"

definition delete_in_flight :: "bool \<Rightarrow> rstr \<Rightarrow> u16 \<Rightarrow> database \<Rightarrow> database" where
  "delete_in_flight ok client_id packet_id db =
     (if ok then db\<lparr>db_in_flight := AList.delete (client_id, packet_id) (db_in_flight db)\<rparr> else db)"

section \<open>Queries\<close>

text \<open>
  A query fails as a whole (\<open>None\<close>) or gives every row, in the order of the table; the conversions of
  the columns cannot fail on rows that the statements above wrote.
\<close>

definition load_all_sessions :: "bool \<Rightarrow> database \<Rightarrow> (rstr \<times> rstr option \<times> bool \<times> u32) list option" where
  "load_all_sessions ok db =
     (if ok then Some (map (\<lambda>(client_id, row).
        (client_id, sr_username row, sr_clean_start row \<noteq> 0, sr_session_expiry_interval row)) (db_sessions db))
      else None)"

definition load_all_subscriptions :: "bool \<Rightarrow> database \<Rightarrow> (rstr \<times> rstr \<times> u8 \<times> u32 option) list option" where
  "load_all_subscriptions ok db =
     (if ok then Some (map (\<lambda>((client_id, topic_filter), row).
        (client_id, topic_filter, ur_qos row, ur_sub_id row)) (db_subscriptions db))
      else None)"

definition load_all_in_flight :: "bool \<Rightarrow> database \<Rightarrow> (rstr \<times> u16 \<times> rstr \<times> bytes \<times> u8) list option" where
  "load_all_in_flight ok db =
     (if ok then Some (map (\<lambda>((client_id, packet_id), row).
        (client_id, packet_id, fr_topic row, fr_payload row, fr_qos row)) (db_in_flight db))
      else None)"

section \<open>Spawned tasks\<close>

datatype db_task =
    SaveSession rstr "rstr option" bool u32
  | DeleteSession rstr
  | SaveSubscription rstr rstr u8 "u32 option"
  | DeleteSubscription rstr rstr
  | SaveInFlight rstr u16 rstr bytes u8
  | DeleteInFlight rstr u16

text \<open>One task, with the time it runs at and the success of its statements.\<close>

fun run_task :: "bool \<times> bool \<times> bool \<Rightarrow> u64 \<Rightarrow> db_task \<Rightarrow> database \<Rightarrow> database" where
  "run_task oks now (SaveSession c u cs e) db = save_session (fst oks) now c u cs e db"
| "run_task oks now (DeleteSession c) db = delete_session oks c db"
| "run_task oks now (SaveSubscription c f q i) db = save_subscription (fst oks) c f q i db"
| "run_task oks now (DeleteSubscription c f) db = delete_subscription (fst oks) c f db"
| "run_task oks now (SaveInFlight c p t d q) db = save_in_flight (fst oks) c p t d q db"
| "run_task oks now (DeleteInFlight c p) db = delete_in_flight (fst oks) c p db"

text \<open>The tasks in the order they were spawned, all successful.\<close>

definition all_ok :: "bool \<times> bool \<times> bool" where
  "all_ok = (True, True, True)"

definition run_tasks :: "u64 \<Rightarrow> db_task list \<Rightarrow> database \<Rightarrow> database" where
  "run_tasks now tasks db = fold (run_task all_ok now) tasks db"

lemma run_tasks_simps [simp]:
  "run_tasks now [] db = db"
  "run_tasks now (t # ts) db = run_tasks now ts (run_task all_ok now t db)"
  "run_tasks now (ts @ us) db = run_tasks now us (run_tasks now ts db)"
  by (simp_all add: run_tasks_def)

section \<open>Primary keys\<close>

definition db_ok :: "database \<Rightarrow> bool" where
  "db_ok db \<longleftrightarrow> distinct_keys (db_sessions db) \<and> distinct_keys (db_subscriptions db) \<and> distinct_keys (db_in_flight db)"

lemmas task_defs = save_session_def delete_session_def save_subscription_def delete_subscription_def
  save_in_flight_def delete_in_flight_def Let_def

lemma distinct_keys_filter: "distinct_keys m \<Longrightarrow> distinct_keys (filter P m)"
  by (rule distinct_map_filter)

lemma run_task_ok: "db_ok db \<Longrightarrow> db_ok (run_task oks now t db)"
  by (cases t) (auto simp: db_ok_def task_defs distinct_update distinct_delete distinct_keys_filter split: prod.split)

lemma run_tasks_ok: "db_ok db \<Longrightarrow> db_ok (run_tasks now ts db)"
  by (induction ts arbitrary: db) (simp_all add: run_task_ok)

end
