(* ===== verification/Topics.thy ===== *)
theory Topics imports Prelude begin

text \<open>
  Topic names and filters: the string operations of the Rust standard library that
  \<open>src/router.rs\<close>, \<open>src/config.rs\<close> and \<open>src/session.rs\<close> use on them (\<open>split\<close>, \<open>splitn\<close>,
  \<open>starts_with\<close>), the shared subscription prefix, and the reference definition of when a filter
  matches a topic. A string is the list of its UTF-8 bytes; the separator is ASCII, so splitting
  the bytes is splitting the characters.
\<close>

section \<open>Splitting\<close>

definition slash :: u8 where
  "slash = 0x2F"

text \<open>\<open>s.split(c)\<close>: one more piece than there are separators.\<close>

fun split_at :: "'a \<Rightarrow> 'a list \<Rightarrow> 'a list list" where
  "split_at c [] = [[]]"
| "split_at c (x # xs) =
     (if x = c then [] # split_at c xs
      else case split_at c xs of [] \<Rightarrow> [[x]] | p # ps \<Rightarrow> (x # p) # ps)"

fun join_with :: "'a \<Rightarrow> 'a list list \<Rightarrow> 'a list" where
  "join_with c [] = []"
| "join_with c [p] = p"
| "join_with c (p # ps) = p @ c # join_with c ps"

text \<open>\<open>s.splitn(n, c)\<close>: at most \<open>n\<close> pieces, the last one unsplit.\<close>

fun splitn :: "nat \<Rightarrow> 'a \<Rightarrow> 'a list \<Rightarrow> 'a list list" where
  "splitn 0 c xs = []"
| "splitn (Suc 0) c xs = [xs]"
| "splitn (Suc (Suc n)) c xs =
     (case dropWhile (\<lambda>x. x \<noteq> c) xs of
        [] \<Rightarrow> [xs]
      | _ # rest \<Rightarrow> takeWhile (\<lambda>x. x \<noteq> c) xs # splitn (Suc n) c rest)"

definition starts_with :: "'a list \<Rightarrow> 'a list \<Rightarrow> bool" where
  "starts_with p xs \<longleftrightarrow> take (length p) xs = p"

lemma split_at_nonempty [simp]: "split_at c xs \<noteq> []"
  by (cases xs) (auto split: list.splits)

lemma join_with_Cons: "ps \<noteq> [] \<Longrightarrow> join_with c (p # ps) = p @ c # join_with c ps"
  by (cases ps) auto

lemma join_split [simp]: "join_with c (split_at c xs) = xs"
proof (induction xs)
  case (Cons x xs)
  obtain p ps where s: "split_at c xs = p # ps" by (cases "split_at c xs") auto
  with Cons show ?case by (cases ps) (auto simp: join_with_Cons)
qed simp

lemma split_at_pieces: "p \<in> set (split_at c xs) \<Longrightarrow> c \<notin> set p"
proof (induction xs arbitrary: p)
  case (Cons x xs)
  then show ?case by (cases "split_at c xs") (auto split: if_splits)
qed simp

lemma split_at_append:
  assumes "c \<notin> set p"
  shows "split_at c (p @ c # xs) = p # split_at c xs" and "split_at c p = [p]"
  using assms by (induction p) auto

lemma split_join:
  assumes "ps \<noteq> []" and "list_all (\<lambda>p. c \<notin> set p) ps"
  shows "split_at c (join_with c ps) = ps"
  using assms by (induction c ps rule: join_with.induct) (auto simp: split_at_append)

lemma splitn_append:
  assumes "c \<notin> set p"
  shows "splitn (Suc (Suc n)) c (p @ c # xs) = p # splitn (Suc n) c xs"
  using assms by (simp add: takeWhile_tail) (auto simp: dropWhile_append split: list.split)

section \<open>Segments\<close>

text \<open>\<open>topic.split('/').collect()\<close>.\<close>

definition segments :: "rstr \<Rightarrow> rstr list" where
  "segments s = split_at slash s"

definition plus_seg :: rstr where
  "plus_seg = lit ''+''"

definition hash_seg :: rstr where
  "hash_seg = lit ''#''"

lemma plus_seg_neq [simp]: "plus_seg \<noteq> hash_seg" "hash_seg \<noteq> plus_seg"
  by (simp_all add: plus_seg_def hash_seg_def)

lemma segments_nonempty [simp]: "segments s \<noteq> []"
  by (simp add: segments_def)

lemma segments_eq_iff: "segments s = segments s' \<longleftrightarrow> s = s'"
  by (metis join_split segments_def)

text \<open>
  The part of a filter the router looks at: \<open>#\<close> ends it. A filter is well formed when nothing
  follows a \<open>#\<close>; then it is its own path.
\<close>

fun filter_path :: "rstr list \<Rightarrow> rstr list" where
  "filter_path [] = []"
| "filter_path (seg # segs) = (if seg = hash_seg then [hash_seg] else seg # filter_path segs)"

fun hash_last :: "rstr list \<Rightarrow> bool" where
  "hash_last [] \<longleftrightarrow> True"
| "hash_last (seg # segs) \<longleftrightarrow> (if seg = hash_seg then segs = [] else hash_last segs)"

lemma hash_last_path [simp]: "hash_last (filter_path segs)"
  by (induction segs) auto

lemma filter_path_id: "hash_last segs \<Longrightarrow> filter_path segs = segs"
  by (induction segs) (auto split: if_splits)

lemma filter_path_id_iff: "filter_path segs = segs \<longleftrightarrow> hash_last segs"
  by (metis filter_path_id hash_last_path)

section \<open>When a filter matches a topic\<close>

text \<open>
  The definition of the standard, segment by segment: \<open>#\<close> matches what is left, the parent level
  included, \<open>+\<close> matches one segment, any other segment matches itself.
\<close>

fun filter_matches :: "rstr list \<Rightarrow> rstr list \<Rightarrow> bool" where
  "filter_matches [] topic \<longleftrightarrow> topic = []"
| "filter_matches (f # fs) topic \<longleftrightarrow>
     (if f = hash_seg then True
      else case topic of [] \<Rightarrow> False
        | t # ts \<Rightarrow> (f = plus_seg \<or> f = t) \<and> filter_matches fs ts)"

lemma filter_matches_path [simp]: "filter_matches (filter_path fs) topic \<longleftrightarrow> filter_matches fs topic"
proof (induction fs arbitrary: topic)
  case (Cons f fs)
  then show ?case by (cases topic) auto
qed simp

lemma filter_matches_refl: "hash_last ts \<Longrightarrow> filter_matches ts ts"
  by (induction ts) (auto split: if_splits)

section \<open>Shared subscriptions\<close>

text \<open>\<open>parse_shared_subscription\<close>: the group and the filter of \<open>$share/group/filter\<close>.\<close>

definition parse_shared_subscription :: "rstr \<Rightarrow> rstr option \<times> rstr" where
  "parse_shared_subscription topic_filter =
     (if starts_with (lit ''$share/'') topic_filter then
        let parts = splitn 3 slash topic_filter in
        if length parts = 3 then (Some (parts ! 1), parts ! 2) else (None, topic_filter)
      else (None, topic_filter))"

lemma share_prefix: "lit ''$share/'' = lit ''$share'' @ [slash]"
  by (simp add: slash_def)

lemma parse_shared:
  assumes "slash \<notin> set grp"
  shows "parse_shared_subscription (lit ''$share/'' @ grp @ slash # filt) = (Some grp, filt)"
proof -
  have "slash \<notin> set (lit ''$share'')" by (simp add: slash_def)
  from splitn_append [OF this] splitn_append [OF assms]
  have "splitn 3 slash (lit ''$share/'' @ grp @ slash # filt) = [lit ''$share'', grp, filt]"
    unfolding share_prefix by (simp add: numeral_3_eq_3 numeral_2_eq_2)
  then show ?thesis by (simp add: parse_shared_subscription_def starts_with_def)
qed

lemma parse_unshared: "\<not> starts_with (lit ''$share/'') f \<Longrightarrow> parse_shared_subscription f = (None, f)"
  by (simp add: parse_shared_subscription_def)

lemma splitn_3:
  assumes "splitn 3 c xs = [a, b, d]"
  shows "xs = a @ c # b @ c # d" and "c \<notin> set a"
proof -
  have cut: "xs = takeWhile (\<lambda>x. x \<noteq> c) xs @ c # r" if "dropWhile (\<lambda>x. x \<noteq> c) xs = y # r" for xs y r
  proof -
    from that have "y = c" by (metis (full_types) hd_dropWhile list.discI list.sel(1))
    with that show ?thesis by (metis takeWhile_dropWhile_id)
  qed
  from assms obtain y r where 1: "dropWhile (\<lambda>x. x \<noteq> c) xs = y # r" "a = takeWhile (\<lambda>x. x \<noteq> c) xs"
    "splitn (Suc (Suc 0)) c r = [b, d]"
    by (auto simp: numeral_3_eq_3 split: list.splits)
  then obtain z t where 2: "dropWhile (\<lambda>x. x \<noteq> c) r = z # t" "b = takeWhile (\<lambda>x. x \<noteq> c) r" "d = t"
    by (auto split: list.splits)
  show "xs = a @ c # b @ c # d" using cut [OF 1(1)] cut [OF 2(1)] 1(2) 2(2,3) by simp
  show "c \<notin> set a" using 1(2) by (auto dest: set_takeWhileD)
qed

text \<open>The group and the filter determine the string they were parsed from.\<close>

lemma parse_shared_inverse:
  assumes "parse_shared_subscription f = (g, filt)"
  shows "f = (case g of None \<Rightarrow> filt | Some name \<Rightarrow> lit ''$share/'' @ name @ slash # filt)"
proof (cases g)
  case None
  with assms show ?thesis by (auto simp: parse_shared_subscription_def Let_def split: if_splits)
next
  case (Some name)
  with assms have sw: "starts_with (lit ''$share/'') f" and l: "length (splitn 3 slash f) = 3"
    and n: "name = splitn 3 slash f ! 1" "filt = splitn 3 slash f ! 2"
    by (auto simp: parse_shared_subscription_def Let_def split: if_splits)
  obtain a where s: "splitn 3 slash f = [a, name, filt]"
    using l n by (auto simp: numeral_3_eq_3 numeral_2_eq_2 length_Suc_conv)
  note f = splitn_3 [OF s]
  have "f = lit ''$share'' @ slash # drop (length (lit ''$share/'')) f"
  proof -
    have "lit ''$share/'' @ drop (length (lit ''$share/'')) f = f"
      using sw unfolding starts_with_def by (metis append_take_drop_id)
    then show ?thesis by (simp add: slash_def)
  qed
  moreover have "takeWhile (\<lambda>x. x \<noteq> slash) (p @ slash # r) = p" if "slash \<notin> set p" for p r
    using that by (simp add: takeWhile_tail) (metis (mono_tags, lifting) takeWhile_eq_all_conv)
  moreover have "slash \<notin> set (lit ''$share'')" by (simp add: slash_def)
  ultimately have "a = lit ''$share''" using f by metis
  with f Some show ?thesis unfolding share_prefix by simp
qed

end
