(* ===== verification/Router.thy ===== *)
theory Router imports Topics begin

text \<open>
  The topic router of \<open>src/router.rs\<close>: the subscription trie, \<open>subscribe\<close>, \<open>unsubscribe\<close> with its
  pruning, \<open>match_topic\<close>. The \<open>RwLock\<close> around the root makes every operation atomic, so each is a
  function of the trie.
\<close>

section \<open>The trie\<close>

record subscription_info =
  si_client_id :: rstr
  si_qos :: u8
  si_subscription_identifier :: "u32 option"

datatype trie_node = Node
  (children: "(rstr \<times> trie_node) list")
  (plus_child: "trie_node option")
  (hash_child: "trie_node option")
  (subscriptions: "(rstr \<times> subscription_info) list")
  (shared_subscriptions: "(rstr \<times> subscription_info list) list")

definition empty_node :: trie_node where
  "empty_node = Node [] None None [] []"

definition node_is_empty :: "trie_node \<Rightarrow> bool" where
  "node_is_empty node \<longleftrightarrow> children node = [] \<and> plus_child node = None \<and> hash_child node = None
     \<and> subscriptions node = [] \<and> shared_subscriptions node = []"

text \<open>Assignments to one field of a node.\<close>

fun set_children :: "(rstr \<times> trie_node) list \<Rightarrow> trie_node \<Rightarrow> trie_node" where
  "set_children x (Node ch p h s g) = Node x p h s g"

fun set_plus_child :: "trie_node option \<Rightarrow> trie_node \<Rightarrow> trie_node" where
  "set_plus_child x (Node ch p h s g) = Node ch x h s g"

fun set_hash_child :: "trie_node option \<Rightarrow> trie_node \<Rightarrow> trie_node" where
  "set_hash_child x (Node ch p h s g) = Node ch p x s g"

fun set_subscriptions :: "(rstr \<times> subscription_info) list \<Rightarrow> trie_node \<Rightarrow> trie_node" where
  "set_subscriptions x (Node ch p h s g) = Node ch p h x g"

fun set_shared_subscriptions ::
  "(rstr \<times> subscription_info list) list \<Rightarrow> trie_node \<Rightarrow> trie_node" where
  "set_shared_subscriptions x (Node ch p h s g) = Node ch p h s x"

text \<open>\<open>unwrap_or_default\<close> and \<open>entry(k).or_default()\<close>.\<close>

definition or_empty :: "trie_node option \<Rightarrow> trie_node" where
  "or_empty x = (case x of None \<Rightarrow> empty_node | Some node \<Rightarrow> node)"

definition or_nil :: "'a list option \<Rightarrow> 'a list" where
  "or_nil x = (case x of None \<Rightarrow> [] | Some xs \<Rightarrow> xs)"

section \<open>Subscribing\<close>

text \<open>What happens at the node the loop ends at: a new subscription replaces the client's old one.\<close>

definition add_subscription :: "rstr option \<Rightarrow> subscription_info \<Rightarrow> trie_node \<Rightarrow> trie_node" where
  "add_subscription grp sub_info node =
     (case grp of
        Some name \<Rightarrow>
          let retained = filter (\<lambda>s. si_client_id s \<noteq> si_client_id sub_info)
            (or_nil (map_of (shared_subscriptions node) name)) in
          set_shared_subscriptions
            (AList.update name (retained @ [sub_info]) (shared_subscriptions node)) node
      | None \<Rightarrow>
          set_subscriptions
            (AList.update (si_client_id sub_info) sub_info (subscriptions node)) node)"

text \<open>
  The loop over the segments with \<open>current\<close> pointing into the trie: what the node under the pointer
  becomes is written back on the way up. \<open>#\<close> ends the loop.
\<close>

fun subscribe_at :: "rstr list \<Rightarrow> rstr option \<Rightarrow> subscription_info \<Rightarrow> trie_node \<Rightarrow> trie_node" where
  "subscribe_at [] grp sub_info node = add_subscription grp sub_info node"
| "subscribe_at (segment # segs) grp sub_info node =
     (if segment = plus_seg then
        set_plus_child (Some (subscribe_at segs grp sub_info (or_empty (plus_child node)))) node
      else if segment = hash_seg then
        set_hash_child (Some (add_subscription grp sub_info (or_empty (hash_child node)))) node
      else
        set_children
          (AList.update segment
            (subscribe_at segs grp sub_info (or_empty (map_of (children node) segment)))
            (children node)) node)"

definition subscribe :: "rstr \<Rightarrow> rstr \<Rightarrow> u8 \<Rightarrow> u32 option \<Rightarrow> trie_node \<Rightarrow> trie_node" where
  "subscribe client_id topic_filter qos subscription_identifier root =
     (let (grp, filt) = parse_shared_subscription topic_filter in
      subscribe_at (segments filt) grp
        \<lparr>si_client_id = client_id, si_qos = qos,
         si_subscription_identifier = subscription_identifier\<rparr> root)"

section \<open>Unsubscribing\<close>

definition remove_subscription :: "rstr \<Rightarrow> rstr option \<Rightarrow> trie_node \<Rightarrow> bool \<times> trie_node" where
  "remove_subscription client_id grp node =
     (case grp of
        Some name \<Rightarrow>
          (case map_of (shared_subscriptions node) name of
             None \<Rightarrow> (False, node)
           | Some subs \<Rightarrow>
               let retained = filter (\<lambda>s. si_client_id s \<noteq> client_id) subs in
               (length retained < length subs,
                set_shared_subscriptions
                  (if retained = [] then AList.delete name (shared_subscriptions node)
                   else AList.update name retained (shared_subscriptions node)) node))
      | None \<Rightarrow>
          (map_of (subscriptions node) client_id \<noteq> None,
           set_subscriptions (AList.delete client_id (subscriptions node)) node))"

text \<open>The result is \<open>(removed, empty)\<close> and the node the code leaves behind its \<open>&mut\<close>.\<close>

fun unsubscribe_recursive ::
  "rstr list \<Rightarrow> rstr \<Rightarrow> rstr option \<Rightarrow> trie_node \<Rightarrow> (bool \<times> bool) \<times> trie_node" where
  "unsubscribe_recursive [] client_id grp node =
     (let (removed, node') = remove_subscription client_id grp node in
      ((removed, node_is_empty node'), node'))"
| "unsubscribe_recursive (segment # segs) client_id grp node =
     (let (removed, node') =
        (if segment = plus_seg then
           (case plus_child node of
              None \<Rightarrow> (False, node)
            | Some child \<Rightarrow>
                let ((rem, empty), child') = unsubscribe_recursive segs client_id grp child in
                (rem, set_plus_child (if empty then None else Some child') node))
         else if segment = hash_seg then
           (case hash_child node of
              None \<Rightarrow> (False, node)
            | Some child \<Rightarrow>
                let ((rem, empty), child') = unsubscribe_recursive segs client_id grp child in
                (rem, set_hash_child (if empty then None else Some child') node))
         else
           (case map_of (children node) segment of
              None \<Rightarrow> (False, node)
            | Some child \<Rightarrow>
                let ((rem, empty), child') = unsubscribe_recursive segs client_id grp child in
                (rem, set_children
                  (if empty then AList.delete segment (children node)
                   else AList.update segment child' (children node)) node)))
      in ((removed, node_is_empty node'), node'))"

definition unsubscribe :: "rstr \<Rightarrow> rstr \<Rightarrow> trie_node \<Rightarrow> bool \<times> trie_node" where
  "unsubscribe client_id topic_filter root =
     (let (grp, filt) = parse_shared_subscription topic_filter;
          ((removed, _), root') = unsubscribe_recursive (segments filt) client_id grp root in
      (removed, root'))"

section \<open>Matching\<close>

record route_result =
  normal :: "subscription_info list"
  shared :: "(rstr \<times> subscription_info list) list"

definition route_result_default :: route_result where
  "route_result_default = \<lparr>normal = [], shared = []\<rparr>"

fun push_shared ::
  "(rstr \<times> subscription_info list) list \<Rightarrow> (rstr \<times> subscription_info list) list
     \<Rightarrow> (rstr \<times> subscription_info list) list" where
  "push_shared [] target = target"
| "push_shared ((name, subs) # rest) target =
     push_shared rest (AList.update name (or_nil (map_of target name) @ subs) target)"

definition collect_node_subscriptions :: "trie_node \<Rightarrow> route_result \<Rightarrow> route_result" where
  "collect_node_subscriptions node result =
     \<lparr>normal = normal result @ map snd (subscriptions node),
      shared = push_shared (shared_subscriptions node) (shared result)\<rparr>"

text \<open>\<open>if let Some(ref child) = x { visit(child, &mut result); }\<close>\<close>

definition visit :: "(trie_node \<Rightarrow> route_result \<Rightarrow> route_result) \<Rightarrow> trie_node option
    \<Rightarrow> route_result \<Rightarrow> route_result" where
  "visit f child result = (case child of None \<Rightarrow> result | Some node \<Rightarrow> f node result)"

fun match_recursive :: "rstr list \<Rightarrow> trie_node \<Rightarrow> route_result \<Rightarrow> route_result" where
  "match_recursive [] node result =
     collect_node_subscriptions node (visit collect_node_subscriptions (hash_child node) result)"
| "match_recursive (segment # segs) node result =
     visit (match_recursive segs) (plus_child node)
       (visit (match_recursive segs) (map_of (children node) segment)
         (visit collect_node_subscriptions (hash_child node) result))"

definition match_topic :: "rstr \<Rightarrow> trie_node \<Rightarrow> route_result" where
  "match_topic topic root = match_recursive (segments topic) root route_result_default"

end
