(* ===== verification/Router_Table.thy ===== *)
theory Router_Table imports Router begin

text \<open>
  What the router promises: it is a flat table of subscriptions. \<open>table\<close> reads the table off a trie,
  \<open>ok_node\<close> is the invariant of the trie (keys are distinct and literal, no node is empty, \<open>#\<close> ends
  a path), and each operation of the trie is one operation of the table.
\<close>

section \<open>The table of a trie\<close>

text \<open>An entry: the path of the filter, the group of a shared subscription, the subscription.\<close>

type_synonym entry = "rstr list \<times> rstr option \<times> subscription_info"

fun entry_key :: "entry \<Rightarrow> rstr list \<times> rstr option \<times> rstr" where
  "entry_key (path, grp, info) = (path, grp, si_client_id info)"

definition push :: "rstr \<Rightarrow> entry multiset \<Rightarrow> entry multiset" where
  "push seg T = image_mset (apfst (Cons seg)) T"

definition own :: "trie_node \<Rightarrow> entry multiset" where
  "own node =
     over (\<lambda>c info. {#([], None, info)#}) (subscriptions node) +
     over (\<lambda>name infos. {#([], Some name, info). info \<in># mset infos#}) (shared_subscriptions node)"

definition opt_push :: "(trie_node \<Rightarrow> entry multiset) \<Rightarrow> rstr \<Rightarrow> trie_node option \<Rightarrow> entry multiset" where
  "opt_push f seg child = (case child of None \<Rightarrow> {#} | Some node \<Rightarrow> push seg (f node))"

lemma over_fundef_cong [fundef_cong]:
  "m = m' \<Longrightarrow> (\<And>k v. (k, v) \<in> set m' \<Longrightarrow> F k v = G k v) \<Longrightarrow> over F m = over G m'"
  using over_cong by blast

lemma opt_push_cong [fundef_cong]:
  "seg = seg' \<Longrightarrow> child = child' \<Longrightarrow> (\<And>node. child' = Some node \<Longrightarrow> f node = f' node) \<Longrightarrow>
   opt_push f seg child = opt_push f' seg' child'"
  by (simp add: opt_push_def split: option.split)

lemma size_child: "(seg, c) \<in> set ch \<Longrightarrow> size c < size (Node ch p h s g)"
  by (induction ch) (auto simp: trie_node.size)

fun table :: "trie_node \<Rightarrow> entry multiset" where
  "table (Node ch p h s g) =
     own (Node ch p h s g) + over (\<lambda>seg c. push seg (table c)) ch
     + opt_push table plus_seg p + opt_push table hash_seg h"

lemma table_unfold:
  "table node = own node + over (\<lambda>seg c. push seg (table c)) (children node)
     + opt_push table plus_seg (plus_child node) + opt_push table hash_seg (hash_child node)"
  by (cases node) simp

section \<open>The invariant\<close>

definition ok_own :: "trie_node \<Rightarrow> bool" where
  "ok_own node \<longleftrightarrow>
     distinct_keys (subscriptions node) \<and>
     (\<forall>(client, info) \<in> set (subscriptions node). si_client_id info = client) \<and>
     distinct_keys (shared_subscriptions node) \<and>
     (\<forall>(name, infos) \<in> set (shared_subscriptions node). infos \<noteq> [] \<and> distinct (map si_client_id infos))"

definition is_leaf :: "trie_node \<Rightarrow> bool" where
  "is_leaf node \<longleftrightarrow> children node = [] \<and> plus_child node = None \<and> hash_child node = None"

fun ok_node :: "trie_node \<Rightarrow> bool" where
  "ok_node (Node ch p h s g) \<longleftrightarrow>
     ok_own (Node ch p h s g) \<and> distinct_keys ch \<and>
     (\<forall>(seg, c) \<in> set ch. seg \<noteq> plus_seg \<and> seg \<noteq> hash_seg \<and> \<not> node_is_empty c \<and> ok_node c) \<and>
     (case p of None \<Rightarrow> True | Some c \<Rightarrow> \<not> node_is_empty c \<and> ok_node c) \<and>
     (case h of None \<Rightarrow> True | Some c \<Rightarrow> \<not> node_is_empty c \<and> ok_own c \<and> is_leaf c)"

lemma ok_unfold:
  "ok_node node \<longleftrightarrow>
     ok_own node \<and> distinct_keys (children node) \<and>
     (\<forall>(seg, c) \<in> set (children node). seg \<noteq> plus_seg \<and> seg \<noteq> hash_seg \<and> \<not> node_is_empty c \<and> ok_node c) \<and>
     (case plus_child node of None \<Rightarrow> True | Some c \<Rightarrow> \<not> node_is_empty c \<and> ok_node c) \<and>
     (case hash_child node of None \<Rightarrow> True | Some c \<Rightarrow> \<not> node_is_empty c \<and> ok_own c \<and> is_leaf c)"
  by (cases node) simp

lemma leaf_table: "is_leaf node \<Longrightarrow> table node = own node"
  by (subst table_unfold) (simp add: is_leaf_def opt_push_def)

lemma leaf_ok: "is_leaf node \<Longrightarrow> ok_own node \<Longrightarrow> ok_node node"
  by (subst ok_unfold) (simp add: is_leaf_def)

lemma empty_node_facts [simp]:
  "table empty_node = {#}" "own empty_node = {#}" "ok_node empty_node" "is_leaf empty_node" "ok_own empty_node"
  by (simp_all add: empty_node_def own_def opt_push_def is_leaf_def ok_own_def)

lemma ok_child: "ok_node node \<Longrightarrow> ok_node (or_empty (plus_child node))"
  "ok_node node \<Longrightarrow> ok_node (or_empty (map_of (children node) seg))"
  "ok_node node \<Longrightarrow> is_leaf (or_empty (hash_child node))"
  "ok_node node \<Longrightarrow> ok_own (or_empty (hash_child node))"
  by (subst (asm) ok_unfold, auto simp: or_empty_def split: option.splits dest!: map_of_SomeD)+

section \<open>One field at a time\<close>

lemma set_fields [simp]:
  "children (set_children x n) = x" "plus_child (set_children x n) = plus_child n"
  "hash_child (set_children x n) = hash_child n" "subscriptions (set_children x n) = subscriptions n"
  "shared_subscriptions (set_children x n) = shared_subscriptions n"
  "children (set_plus_child y n) = children n" "plus_child (set_plus_child y n) = y"
  "hash_child (set_plus_child y n) = hash_child n" "subscriptions (set_plus_child y n) = subscriptions n"
  "shared_subscriptions (set_plus_child y n) = shared_subscriptions n"
  "children (set_hash_child y n) = children n" "plus_child (set_hash_child y n) = plus_child n"
  "hash_child (set_hash_child y n) = y" "subscriptions (set_hash_child y n) = subscriptions n"
  "shared_subscriptions (set_hash_child y n) = shared_subscriptions n"
  "children (set_subscriptions z n) = children n" "plus_child (set_subscriptions z n) = plus_child n"
  "hash_child (set_subscriptions z n) = hash_child n" "subscriptions (set_subscriptions z n) = z"
  "shared_subscriptions (set_subscriptions z n) = shared_subscriptions n"
  "children (set_shared_subscriptions w n) = children n"
  "plus_child (set_shared_subscriptions w n) = plus_child n"
  "hash_child (set_shared_subscriptions w n) = hash_child n"
  "subscriptions (set_shared_subscriptions w n) = subscriptions n"
  "shared_subscriptions (set_shared_subscriptions w n) = w"
  by (cases n; simp)+

lemma own_set [simp]:
  "own (set_children x n) = own n" "own (set_plus_child y n) = own n" "own (set_hash_child y n) = own n"
  "ok_own (set_children x n) = ok_own n" "ok_own (set_plus_child y n) = ok_own n"
  "ok_own (set_hash_child y n) = ok_own n"
  by (simp_all add: own_def ok_own_def)

lemma set_not_empty [simp]:
  "x \<noteq> [] \<Longrightarrow> \<not> node_is_empty (set_children x n)"
  "\<not> node_is_empty (set_plus_child (Some c) n)" "\<not> node_is_empty (set_hash_child (Some c) n)"
  by (simp_all add: node_is_empty_def)

section \<open>Removing a key from a table\<close>

definition without :: "rstr list \<times> rstr option \<times> rstr \<Rightarrow> entry multiset \<Rightarrow> entry multiset" where
  "without key T = {#e \<in># T. entry_key e \<noteq> key#}"

definition has_key :: "rstr list \<times> rstr option \<times> rstr \<Rightarrow> entry multiset \<Rightarrow> bool" where
  "has_key key T \<longleftrightarrow> (\<exists>e \<in># T. entry_key e = key)"

lemma without_simps [simp]:
  "without key {#} = {#}"
  "without key (T + U) = without key T + without key U"
  "without key (add_mset e T) = (if entry_key e = key then without key T else add_mset e (without key T))"
  by (simp_all add: without_def)

lemma has_key_simps [simp]:
  "\<not> has_key key {#}"
  "has_key key (T + U) \<longleftrightarrow> has_key key T \<or> has_key key U"
  "has_key key (add_mset e T) \<longleftrightarrow> entry_key e = key \<or> has_key key T"
  by (auto simp: has_key_def)

lemma without_absent: "\<not> has_key key T \<Longrightarrow> without key T = T"
  by (auto simp: has_key_def without_def filter_mset_eq_conv)

lemma has_key_without [simp]: "has_key key (without key' T) \<longleftrightarrow> has_key key T \<and> key \<noteq> key'"
  unfolding has_key_def without_def by fastforce

lemma without_over: "without key (over F m) = over (\<lambda>k v. without key (F k v)) m"
  by (induction m) auto

lemma has_key_over: "has_key key (over F m) \<longleftrightarrow> (\<exists>(k, v) \<in> set m. has_key key (F k v))"
  by (induction m) auto

lemma push_simps [simp]:
  "push seg {#} = {#}" "push seg (T + U) = push seg T + push seg U"
  "push seg (add_mset (p, r) T) = add_mset (seg # p, r) (push seg T)"
  by (simp_all add: push_def)

lemma push_eq_iff [simp]: "push seg T = {#} \<longleftrightarrow> T = {#}"
  by (simp add: push_def)

lemma without_push [simp]:
  "without (seg # p, g, c) (push seg' T) = push seg' (if seg = seg' then without (p, g, c) T else T)"
  "without ([], g, c) (push seg' T) = push seg' T"
  by (induction T) (auto simp: push_def)

lemma has_key_push [simp]:
  "has_key (seg # p, g, c) (push seg' T) \<longleftrightarrow> seg = seg' \<and> has_key (p, g, c) T"
  "\<not> has_key ([], g, c) (push seg' T)"
  by (induction T) (auto simp: push_def)

lemma own_path [simp]:
  "without (seg # p, g, c) (own node) = own node" "\<not> has_key (seg # p, g, c) (own node)"
proof -
  show "\<not> has_key (seg # p, g, c) (own node)"
    by (auto simp: own_def has_key_def over_def)
  then show "without (seg # p, g, c) (own node) = own node" by (rule without_absent)
qed

section \<open>At the end of the path\<close>

lemma own_without_normal:
  assumes "ok_own node"
  shows "without ([], None, c) (own node) =
    over (\<lambda>c' info. if c' = c then {#} else {#([], None, info)#}) (subscriptions node) +
    over (\<lambda>name infos. {#([], Some name, info). info \<in># mset infos#}) (shared_subscriptions node)"
    and "has_key ([], None, c) (own node) \<longleftrightarrow> map_of (subscriptions node) c \<noteq> None"
proof -
  let ?shared = "over (\<lambda>name infos. {#([], Some name, info). info \<in># mset infos#}) (shared_subscriptions node)"
  have no: "\<not> has_key ([], None, c) ?shared"
    by (auto simp: has_key_def over_def)
  have id: "si_client_id info = k" if "(k, info) \<in> set (subscriptions node)" for k info
    using assms that by (auto simp: ok_own_def)
  have "without ([], None, c) (over (\<lambda>c info. {#([], None, info)#}) (subscriptions node)) =
      over (\<lambda>c' info. if c' = c then {#} else {#([], None, info)#}) (subscriptions node)"
    unfolding without_over by (rule over_cong) (auto simp: id)
  with without_absent [OF no]
  show "without ([], None, c) (own node) =
    over (\<lambda>c' info. if c' = c then {#} else {#([], None, info)#}) (subscriptions node) + ?shared"
    by (simp add: own_def)
  have "has_key ([], None, c) (own node) \<longleftrightarrow> (\<exists>(k, info) \<in> set (subscriptions node). si_client_id info = c)"
    using no by (auto simp: own_def has_key_over split_beta)
  also have "\<dots> \<longleftrightarrow> c \<in> fst ` set (subscriptions node)"
    using id by (force simp: image_iff)
  finally show "has_key ([], None, c) (own node) \<longleftrightarrow> map_of (subscriptions node) c \<noteq> None"
    by (simp add: map_of_eq_None_iff)
qed

lemma without_image_group:
  "without ([], Some g, c) {#([], Some name, info). info \<in># mset infos#} =
     {#([], Some name, info). info \<in># mset (if name = g then filter (\<lambda>s. si_client_id s \<noteq> c) infos else infos)#}"
  by (induction infos) auto

lemma own_without_shared:
  fixes c g :: rstr
  assumes "ok_own node"
  defines "keep \<equiv> filter (\<lambda>s. si_client_id s \<noteq> c) (or_nil (map_of (shared_subscriptions node) g))"
  shows "without ([], Some g, c) (own node) =
    over (\<lambda>c info. {#([], None, info)#}) (subscriptions node) +
    over (\<lambda>name infos. if name = g then {#} else {#([], Some name, info). info \<in># mset infos#})
      (shared_subscriptions node) + {#([], Some g, info). info \<in># mset keep#}"
    and "has_key ([], Some g, c) (own node) \<longleftrightarrow>
      (\<exists>info \<in> set (or_nil (map_of (shared_subscriptions node) g)). si_client_id info = c)"
proof -
  let ?normal = "over (\<lambda>c info. {#([], None, info)#}) (subscriptions node)"
  have no: "\<not> has_key ([], Some g, c) ?normal"
    by (auto simp: has_key_def over_def)
  have d: "distinct_keys (shared_subscriptions node)" using assms by (simp add: ok_own_def)
  have "without ([], Some g, c) (over (\<lambda>name infos. {#([], Some name, info). info \<in># mset infos#})
        (shared_subscriptions node)) =
      over (\<lambda>name infos. if name = g then {#} else {#([], Some name, info). info \<in># mset infos#})
        (shared_subscriptions node) + {#([], Some g, info). info \<in># mset keep#}"
    unfolding without_over without_image_group keep_def
    by (subst over_split [OF d, where k = g]) (auto simp: or_nil_def split: option.split intro!: over_cong arg_cong2 [where f = "(+)"])
  with without_absent [OF no]
  show "without ([], Some g, c) (own node) = ?normal +
    over (\<lambda>name infos. if name = g then {#} else {#([], Some name, info). info \<in># mset infos#})
      (shared_subscriptions node) + {#([], Some g, info). info \<in># mset keep#}"
    by (simp add: own_def add.assoc)
  have "has_key ([], Some g, c) {#([], Some name, info). info \<in># mset infos#} \<longleftrightarrow>
      name = g \<and> (\<exists>info \<in> set infos. si_client_id info = c)" for name infos
    by (induction infos) auto
  then have "has_key ([], Some g, c) (own node) \<longleftrightarrow>
      (\<exists>(name, infos) \<in> set (shared_subscriptions node). name = g \<and> (\<exists>info \<in> set infos. si_client_id info = c))"
    using no by (simp add: own_def has_key_over)
  then show "has_key ([], Some g, c) (own node) \<longleftrightarrow>
      (\<exists>info \<in> set (or_nil (map_of (shared_subscriptions node) g)). si_client_id info = c)"
    by (auto simp: in_set_map_of [OF d] or_nil_def split: option.split)
qed

lemma add_fields [simp]:
  "children (add_subscription g info node) = children node"
  "plus_child (add_subscription g info node) = plus_child node"
  "hash_child (add_subscription g info node) = hash_child node"
  "is_leaf (add_subscription g info node) = is_leaf node"
  "\<not> node_is_empty (add_subscription g info node)"
  by (simp_all add: add_subscription_def Let_def is_leaf_def node_is_empty_def split: option.split)

lemma own_add:
  assumes "ok_own node"
  shows "own (add_subscription g info node) =
    without ([], g, si_client_id info) (own node) + {#([], g, info)#}"
proof (cases g)
  case None
  with own_without_normal(1) [OF assms] assms show ?thesis
    by (simp add: add_subscription_def own_def ok_own_def over_update)
next
  case (Some name)
  with own_without_shared(1) [OF assms] assms show ?thesis
    by (simp add: add_subscription_def own_def ok_own_def over_update Let_def)
qed

lemma ok_own_add:
  assumes "ok_own node"
  shows "ok_own (add_subscription g info node)"
proof (cases g)
  case None
  with assms show ?thesis
    by (auto simp: add_subscription_def ok_own_def distinct_update dest!: in_set_update)
next
  case (Some name)
  have "distinct (map si_client_id (or_nil (map_of (shared_subscriptions node) name)))"
    using assms by (auto simp: ok_own_def or_nil_def split: option.split dest!: map_of_SomeD)
  then have "distinct (map si_client_id
      (filter (\<lambda>s. si_client_id s \<noteq> c) (or_nil (map_of (shared_subscriptions node) name))))" for c
    by (rule distinct_map_filter)
  with Some assms show ?thesis
    by (auto simp: add_subscription_def Let_def ok_own_def distinct_update dest!: in_set_update)
qed

lemma filter_shorter: "length (filter P xs) < length xs \<longleftrightarrow> (\<exists>x \<in> set xs. \<not> P x)"
  by (metis length_filter_less length_filter_le filter_True nat_less_le)

lemma remove_subscription_spec:
  assumes "ok_own node" and "remove_subscription c g node = (rem, node')"
  shows "rem \<longleftrightarrow> has_key ([], g, c) (own node)" and "own node' = without ([], g, c) (own node)"
    and "ok_own node'" and "children node' = children node" and "plus_child node' = plus_child node"
    and "hash_child node' = hash_child node"
proof -
  have "(rem \<longleftrightarrow> has_key ([], g, c) (own node)) \<and> own node' = without ([], g, c) (own node) \<and> ok_own node'
    \<and> children node' = children node \<and> plus_child node' = plus_child node \<and> hash_child node' = hash_child node"
  proof (cases g)
    case None
    with assms own_without_normal [OF assms(1)] show ?thesis
      by (auto simp: remove_subscription_def own_def over_delete ok_own_def distinct_delete in_set_delete)
  next
    case (Some name)
    note spec = own_without_shared [OF assms(1), where c = c and g = name]
    show ?thesis
    proof (cases "map_of (shared_subscriptions node) name")
      case None
      with Some assms spec(2) without_absent [of "([], Some name, c)" "own node"] show ?thesis
        by (simp add: remove_subscription_def or_nil_def)
    next
      case (Some infos)
      let ?keep = "filter (\<lambda>s. si_client_id s \<noteq> c) infos"
      have "distinct (map si_client_id ?keep)"
        using assms Some by (auto simp: ok_own_def dest!: map_of_SomeD intro: distinct_map_filter)
      then have ok: "ok_own node'"
        using assms \<open>g = Some name\<close> Some
        by (auto simp: remove_subscription_def Let_def ok_own_def distinct_update distinct_delete
            in_set_delete split: if_splits dest!: in_set_update)
      have "own node' = without ([], g, c) (own node)"
        unfolding \<open>g = Some name\<close> spec(1)
        using assms \<open>g = Some name\<close> Some
        by (cases "?keep = []")
          (auto simp: remove_subscription_def Let_def own_def over_delete over_update or_nil_def ok_own_def
            simp del: mset_filter filter_empty_conv)
      with ok assms \<open>g = Some name\<close> Some spec(2) show ?thesis
        by (auto simp: remove_subscription_def Let_def or_nil_def filter_shorter)
    qed
  qed
  then show "rem \<longleftrightarrow> has_key ([], g, c) (own node)" "own node' = without ([], g, c) (own node)" "ok_own node'"
    "children node' = children node" "plus_child node' = plus_child node" "hash_child node' = hash_child node"
    by simp_all
qed

section \<open>Subscribing is one update of the table\<close>

lemma table_or_empty:
  "(case child of None \<Rightarrow> {#} | Some c \<Rightarrow> push seg (table c)) = push seg (table (or_empty child))"
  by (simp add: or_empty_def split: option.split)

lemma opt_push_simps [simp]:
  "opt_push table seg None = {#}" "opt_push table seg (Some c) = push seg (table c)"
  by (simp_all add: opt_push_def)

lemma opt_push_or_empty: "opt_push table seg child = push seg (table (or_empty child))"
  by (simp add: opt_push_def table_or_empty)

text \<open>
  A table is its node's own entries and one part per child; a key that starts with \<open>seg\<close> touches the
  part of \<open>seg\<close> only.
\<close>

lemma without_table:
  assumes "ok_node node"
  shows "without (seg # p, g, c) (table node) = own node
    + (if seg = plus_seg \<or> seg = hash_seg then over (\<lambda>s n. push s (table n)) (children node)
       else over (\<lambda>s n. if s = seg then {#} else push s (table n)) (children node)
         + push seg (without (p, g, c) (table (or_empty (map_of (children node) seg)))))
    + push plus_seg (if seg = plus_seg then without (p, g, c) (table (or_empty (plus_child node)))
        else table (or_empty (plus_child node)))
    + push hash_seg (if seg = hash_seg then without (p, g, c) (table (or_empty (hash_child node)))
        else table (or_empty (hash_child node)))"
proof -
  from assms have d: "distinct_keys (children node)"
    and lit: "\<And>s n. (s, n) \<in> set (children node) \<Longrightarrow> s \<noteq> plus_seg \<and> s \<noteq> hash_seg"
    by (subst (asm) ok_unfold, auto)+
  have "without (seg # p, g, c) (over (\<lambda>s n. push s (table n)) (children node)) =
    (if seg = plus_seg \<or> seg = hash_seg then over (\<lambda>s n. push s (table n)) (children node)
       else over (\<lambda>s n. if s = seg then {#} else push s (table n)) (children node)
         + push seg (without (p, g, c) (table (or_empty (map_of (children node) seg)))))"
  proof (cases "seg = plus_seg \<or> seg = hash_seg")
    case True
    then show ?thesis by (auto simp: without_over intro!: over_cong dest: lit)
  next
    case False
    then show ?thesis
      by (subst over_split [OF d, where k = seg])
        (auto simp: without_over or_empty_def split: option.split
          intro!: over_cong arg_cong2 [where f = "(+)"])
  qed
  then show ?thesis
    by (subst table_unfold) (simp add: opt_push_or_empty)
qed

lemma has_key_table:
  assumes "ok_node node"
  shows "has_key (seg # p, g, c) (table node) \<longleftrightarrow> has_key (p, g, c)
    (table (or_empty (if seg = plus_seg then plus_child node else if seg = hash_seg then hash_child node
      else map_of (children node) seg)))"
proof -
  from assms have d: "distinct_keys (children node)"
    and lit: "\<And>s n. (s, n) \<in> set (children node) \<Longrightarrow> s \<noteq> plus_seg \<and> s \<noteq> hash_seg"
    by (subst (asm) ok_unfold, auto)+
  have "has_key (seg # p, g, c) (over (\<lambda>s n. push s (table n)) (children node)) \<longleftrightarrow>
      has_key (p, g, c) (table (or_empty (map_of (children node) seg)))"
    by (auto simp: has_key_over in_set_map_of [OF d] or_empty_def split: option.split)
  moreover have "map_of (children node) plus_seg = None" "map_of (children node) hash_seg = None"
    using lit by (fastforce simp: map_of_eq_None_iff)+
  ultimately show ?thesis
    by (subst table_unfold) (simp add: opt_push_or_empty or_empty_def)
qed

lemma without_table_Nil [simp]:
  "without ([], g, c) (table node) = without ([], g, c) (own node) + over (\<lambda>s n. push s (table n)) (children node)
    + opt_push table plus_seg (plus_child node) + opt_push table hash_seg (hash_child node)"
  by (subst table_unfold) (simp add: opt_push_or_empty without_over)

lemma has_key_table_Nil [simp]: "has_key ([], g, c) (table node) \<longleftrightarrow> has_key ([], g, c) (own node)"
  by (subst table_unfold) (simp add: opt_push_or_empty has_key_over)

lemma ok_node_own: "ok_node node \<Longrightarrow> ok_own node"
  by (subst (asm) ok_unfold) simp

lemma ok_set_plus:
  "ok_node node \<Longrightarrow> (case p of None \<Rightarrow> True | Some c \<Rightarrow> \<not> node_is_empty c \<and> ok_node c) \<Longrightarrow>
    ok_node (set_plus_child p node)"
  by (subst ok_unfold, subst (asm) ok_unfold) simp

lemma ok_set_hash:
  "ok_node node \<Longrightarrow> (case h of None \<Rightarrow> True | Some c \<Rightarrow> \<not> node_is_empty c \<and> ok_own c \<and> is_leaf c) \<Longrightarrow>
    ok_node (set_hash_child h node)"
  by (subst ok_unfold, subst (asm) ok_unfold) simp

lemma ok_update_child:
  assumes "ok_node node" and "seg \<noteq> plus_seg" "seg \<noteq> hash_seg" "\<not> node_is_empty c" "ok_node c"
  shows "ok_node (set_children (AList.update seg c (children node)) node)"
  using assms
  by (subst ok_unfold, subst (asm) ok_unfold) (auto simp: distinct_update dest!: in_set_update)

lemma ok_delete_child:
  assumes "ok_node node"
  shows "ok_node (set_children (AList.delete seg (children node)) node)"
  using assms
  by (subst ok_unfold, subst (asm) ok_unfold) (auto simp: distinct_delete in_set_delete)

lemma table_add:
  assumes "ok_node node"
  shows "table (add_subscription g info node) =
    without ([], g, si_client_id info) (table node) + {#([], g, info)#}"
  using own_add [OF ok_node_own [OF assms]]
  by (subst table_unfold) (simp add: ac_simps)

lemma ok_add: "ok_node node \<Longrightarrow> ok_node (add_subscription g info node)"
  by (subst ok_unfold, subst (asm) ok_unfold) (simp add: ok_own_add)

lemma subscribe_at_spec:
  assumes "ok_node node"
  shows "table (subscribe_at segs g info node) =
      without (filter_path segs, g, si_client_id info) (table node) + {#(filter_path segs, g, info)#}
    \<and> ok_node (subscribe_at segs g info node) \<and> \<not> node_is_empty (subscribe_at segs g info node)"
  using assms
proof (induction segs arbitrary: node)
  case Nil
  then show ?case by (simp add: table_add ok_add)
next
  case (Cons seg segs)
  note wo = without_table [OF Cons.prems, of seg]
  consider "seg = plus_seg" | "seg = hash_seg" | "seg \<noteq> plus_seg" "seg \<noteq> hash_seg" by blast
  then show ?case
  proof cases
    case 1
    note IH = Cons.IH [OF ok_child(1) [OF Cons.prems]]
    have "table (subscribe_at (seg # segs) g info node) =
      own node + over (\<lambda>s n. push s (table n)) (children node)
      + push plus_seg (table (subscribe_at segs g info (or_empty (plus_child node))))
      + push hash_seg (table (or_empty (hash_child node)))"
      using 1 by (subst table_unfold) (simp add: opt_push_or_empty [of hash_seg])
    with 1 IH wo ok_set_plus [OF Cons.prems] show ?thesis by simp
  next
    case 2
    let ?child = "or_empty (hash_child node)"
    note leaf = ok_child(3,4) [OF Cons.prems]
    have "table (subscribe_at (seg # segs) g info node) =
      own node + over (\<lambda>s n. push s (table n)) (children node)
      + push plus_seg (table (or_empty (plus_child node))) + push hash_seg (table (add_subscription g info ?child))"
      using 2 by (subst table_unfold) (simp add: opt_push_or_empty [of plus_seg])
    with 2 wo ok_set_hash [OF Cons.prems] table_add [OF leaf_ok [OF leaf]] leaf ok_own_add [OF leaf(2)]
    show ?thesis by simp
  next
    case 3
    let ?child = "or_empty (map_of (children node) seg)"
    note IH = Cons.IH [OF ok_child(2) [OF Cons.prems, of seg]]
    have d: "distinct_keys (children node)" using Cons.prems by (subst (asm) ok_unfold) simp
    have "table (subscribe_at (seg # segs) g info node) =
      own node + (over (\<lambda>s n. if s = seg then {#} else push s (table n)) (children node)
        + push seg (table (subscribe_at segs g info ?child)))
      + push plus_seg (table (or_empty (plus_child node))) + push hash_seg (table (or_empty (hash_child node)))"
      using 3 by (subst table_unfold) (simp add: opt_push_or_empty over_update [OF d])
    with 3 IH wo ok_update_child [OF Cons.prems 3] show ?thesis by simp
  qed
qed

section \<open>Unsubscribing removes one key\<close>

lemma leaf_unsubscribe:
  assumes "is_leaf node"
  shows "unsubscribe_recursive (seg # segs) c g node = ((False, node_is_empty node), node)"
  using assms by (simp add: is_leaf_def)

lemma table_empty: "node_is_empty node \<Longrightarrow> table node = {#}"
  by (subst table_unfold) (simp add: node_is_empty_def own_def)

text \<open>What is put back of a child after something was taken out of it: nothing, when it is empty.\<close>

lemma put_back: "push seg (table (or_empty (if node_is_empty child then None else Some child))) = push seg (table child)"
  using table_empty [of child] by (simp add: or_empty_def)

lemma unsubscribe_plus:
  assumes "ok_node node" and "plus_child node = Some child"
    and "table child' = without (p, g, c) (table child)" and "ok_node child'"
  defines "node' \<equiv> set_plus_child (if node_is_empty child' then None else Some child') node"
  shows "table node' = without (plus_seg # p, g, c) (table node) \<and> ok_node node'"
proof
  show "ok_node node'" unfolding node'_def by (rule ok_set_plus [OF assms(1)]) (simp add: assms(4))
  show "table node' = without (plus_seg # p, g, c) (table node)"
    using assms(2,3) without_table [OF assms(1), of plus_seg p g c] put_back [of plus_seg child']
    by (subst table_unfold) (simp add: node'_def opt_push_or_empty or_empty_def)
qed

lemma unsubscribe_hash:
  assumes "ok_node node" and "hash_child node = Some child"
    and "table child' = without (p, g, c) (table child)" and "ok_node child'" and "is_leaf child'"
  defines "node' \<equiv> set_hash_child (if node_is_empty child' then None else Some child') node"
  shows "table node' = without (hash_seg # p, g, c) (table node) \<and> ok_node node'"
proof
  show "ok_node node'"
    unfolding node'_def by (rule ok_set_hash [OF assms(1)]) (simp add: assms(5) ok_node_own [OF assms(4)])
  show "table node' = without (hash_seg # p, g, c) (table node)"
    using assms(2,3) without_table [OF assms(1), of hash_seg p g c] put_back [of hash_seg child']
    by (subst table_unfold) (simp add: node'_def opt_push_or_empty or_empty_def)
qed

lemma unsubscribe_level:
  assumes "ok_node node" and "seg \<noteq> plus_seg" "seg \<noteq> hash_seg" and "map_of (children node) seg = Some child"
    and "table child' = without (p, g, c) (table child)" and "ok_node child'"
  defines "node' \<equiv> set_children (if node_is_empty child' then AList.delete seg (children node)
    else AList.update seg child' (children node)) node"
  shows "table node' = without (seg # p, g, c) (table node) \<and> ok_node node'"
proof
  have d: "distinct_keys (children node)" using assms(1) by (subst (asm) ok_unfold) simp
  show "ok_node node'"
    using assms(6) ok_delete_child [OF assms(1)] ok_update_child [OF assms(1-3)] by (simp add: node'_def)
  have "over (\<lambda>s n. push s (table n)) (children node') =
      over (\<lambda>s n. if s = seg then {#} else push s (table n)) (children node) + push seg (table child')"
    using table_empty [of child'] by (simp add: node'_def over_delete over_update [OF d])
  with assms(2-5) without_table [OF assms(1), of seg p g c] show "table node' = without (seg # p, g, c) (table node)"
    by (subst table_unfold) (simp add: node'_def opt_push_or_empty or_empty_def)
qed

lemma unsubscribe_recursive_spec:
  assumes "ok_node node" and "unsubscribe_recursive segs c g node = ((rem, emp), node')"
  shows "(rem \<longleftrightarrow> has_key (segs, g, c) (table node)) \<and> (emp \<longleftrightarrow> node_is_empty node')
    \<and> table node' = without (segs, g, c) (table node) \<and> ok_node node' \<and> (is_leaf node \<longrightarrow> is_leaf node')"
  using assms
proof (induction segs arbitrary: node rem emp node')
  case Nil
  then obtain r where r: "remove_subscription c g node = (r, node')" "rem = r" "emp = node_is_empty node'"
    by (auto split: prod.splits)
  note spec = remove_subscription_spec [OF ok_node_own [OF Nil.prems(1)] r(1)]
  have "table node' = without ([], g, c) (table node)"
    by (subst table_unfold) (simp add: spec)
  moreover have "ok_node node'" using Nil.prems(1) spec by (subst ok_unfold, subst (asm) ok_unfold) simp
  ultimately show ?case using r spec by (simp add: is_leaf_def)
next
  case (Cons seg segs)
  note hk = has_key_table [OF Cons.prems(1), of seg]
  define target where "target = (if seg = plus_seg then plus_child node
    else if seg = hash_seg then hash_child node else map_of (children node) seg)"
  show ?case
  proof (cases target)
    case None
    then have "node' = node" "\<not> rem" "emp = node_is_empty node'"
      using Cons.prems(2) by (auto simp: target_def split: if_splits)
    moreover have nk: "\<not> has_key (seg # segs, g, c) (table node)"
      using hk None by (simp add: target_def or_empty_def)
    ultimately show ?thesis using Cons.prems(1) without_absent [OF nk] by simp
  next
    case (Some child)
    then have child_ok: "ok_node child" "seg = hash_seg \<Longrightarrow> is_leaf child"
      using Cons.prems(1)
      by (subst (asm) ok_unfold, auto simp: target_def intro: leaf_ok split: if_splits option.splits
          dest!: map_of_SomeD)+
    obtain r e child' where rec: "unsubscribe_recursive segs c g child = ((r, e), child')"
      by (metis surj_pair)
    note IH = Cons.IH [OF child_ok(1) rec]
    have notleaf: "\<not> is_leaf node" using Some by (auto simp: target_def is_leaf_def split: if_splits)
    have e: "emp = node_is_empty node'" "rem = r"
      using Cons.prems(2) rec Some by (auto simp: target_def Let_def split: if_splits)
    consider "seg = plus_seg" | "seg = hash_seg" | "seg \<noteq> plus_seg" "seg \<noteq> hash_seg" by blast
    then have "table node' = without (seg # segs, g, c) (table node) \<and> ok_node node'"
    proof cases
      case 1
      with unsubscribe_plus [OF Cons.prems(1), of child child' segs g c] Cons.prems(2) rec Some IH
      show ?thesis by (auto simp: target_def)
    next
      case 2
      with unsubscribe_hash [OF Cons.prems(1), of child child' segs g c] Cons.prems(2) rec Some IH child_ok(2)
      show ?thesis by (auto simp: target_def)
    next
      case 3
      with unsubscribe_level [OF Cons.prems(1) 3, of child child' segs g c] Cons.prems(2) rec Some IH
      show ?thesis by (auto simp: target_def)
    qed
    with e hk IH Some notleaf show ?thesis by (simp add: target_def or_empty_def)
  qed
qed

end
