(* ===== verification/Router_Match.thy ===== *)
theory Router_Match imports Router_Table begin

text \<open>
  Matching a topic reads the table: each entry whose filter matches the topic is delivered once,
  normal ones in one list, shared ones per group. Then the interface \<open>subscription_table\<close> that the
  broker relies on, its laws for the trie, and the properties of \<open>src/router.rs\<close>.
\<close>

section \<open>What a match picks\<close>

text \<open>The subscriptions of group \<open>g\<close> (\<open>None\<close> for the normal ones) whose filter matches.\<close>

definition picked :: "rstr list \<Rightarrow> rstr option \<Rightarrow> entry multiset \<Rightarrow> subscription_info multiset" where
  "picked topic g T =
     {#info. (path, g', info) \<in># {#e \<in># T. fst (snd e) = g \<and> filter_matches (fst e) topic#}#}"

text \<open>What a \<open>RouteResult\<close> holds for group \<open>g\<close>.\<close>

definition routed :: "route_result \<Rightarrow> rstr option \<Rightarrow> subscription_info multiset" where
  "routed r g = (case g of None \<Rightarrow> mset (normal r) | Some name \<Rightarrow> mset (or_nil (map_of (shared r) name)))"

lemma picked_simps [simp]:
  "picked topic g {#} = {#}"
  "picked topic g (T + U) = picked topic g T + picked topic g U"
  "picked topic g (add_mset (p, g', info) T) =
     (if g' = g \<and> filter_matches p topic then add_mset info (picked topic g T) else picked topic g T)"
  by (simp_all add: picked_def)

lemma picked_over: "picked topic g (over F m) = over (\<lambda>k v. picked topic g (F k v)) m"
  by (induction m) auto

definition of_group :: "rstr option \<Rightarrow> entry multiset \<Rightarrow> subscription_info multiset" where
  "of_group g T = {#info. (path, g', info) \<in># {#e \<in># T. fst (snd e) = g#}#}"

lemma of_group_simps [simp]:
  "of_group g {#} = {#}"
  "of_group g (T + U) = of_group g T + of_group g U"
  "of_group g (add_mset (p, g', info) T) = (if g' = g then add_mset info (of_group g T) else of_group g T)"
  by (simp_all add: of_group_def)

lemma of_group_over: "of_group g (over F m) = over (\<lambda>k v. of_group g (F k v)) m"
  by (induction m) auto

lemma picked_push:
  "picked topic g (push seg T) =
    (if seg = hash_seg then of_group g T
     else case topic of [] \<Rightarrow> {#}
       | t # ts \<Rightarrow> if seg = plus_seg \<or> seg = t then picked ts g T else {#})"
  by (induction T) (auto simp: picked_def push_def of_group_def split: list.split)

lemma of_group_normal: "of_group g {#([], Some name, info). info \<in># mset infos#} =
    (if g = Some name then mset infos else {#})"
  by (induction infos) auto

lemma over_single: "over (\<lambda>k v. {#v#}) m = mset (map snd m)"
  by (induction m) auto

lemma of_group_own:
  assumes "ok_own node"
  shows "of_group None (own node) = mset (map snd (subscriptions node))"
    and "of_group (Some name) (own node) = mset (or_nil (map_of (shared_subscriptions node) name))"
proof -
  show "of_group None (own node) = mset (map snd (subscriptions node))"
    by (simp add: own_def of_group_over of_group_normal over_zero over_single)
  have d: "distinct_keys (shared_subscriptions node)" using assms by (simp add: ok_own_def)
  have "over (\<lambda>k v. if name = k then mset v else {#}) (shared_subscriptions node) =
      mset (or_nil (map_of (shared_subscriptions node) name))"
    by (subst over_split [OF d, where k = name]) (auto simp: or_nil_def over_zero split: option.split)
  then show "of_group (Some name) (own node) = mset (or_nil (map_of (shared_subscriptions node) name))"
    by (simp add: own_def of_group_over of_group_normal over_zero)
qed

lemma picked_own_Cons [simp]: "picked (t # ts) g (own node) = {#}"
proof -
  have "picked (t # ts) g {#([], Some name, info). info \<in># mset infos#} = {#}" for name infos
    by (induction infos) auto
  then show ?thesis by (simp add: own_def picked_over over_zero)
qed

lemma picked_own_Nil [simp]: "picked [] g (own node) = of_group g (own node)"
proof -
  have "picked [] g {#([], Some name, info). info \<in># mset infos#} =
      of_group g {#([], Some name, info). info \<in># mset infos#}" for name infos
    by (induction infos) auto
  then show ?thesis by (cases g) (simp_all add: own_def picked_over of_group_over)
qed

section \<open>What the recursion adds to the result\<close>

text \<open>Every list of the result's map is non-empty, and its groups are distinct.\<close>

definition ok_result :: "route_result \<Rightarrow> bool" where
  "ok_result r \<longleftrightarrow> distinct_keys (shared r) \<and> (\<forall>(name, infos) \<in> set (shared r). infos \<noteq> [])"

lemma push_shared_spec:
  assumes "distinct_keys m" and "\<forall>(name, infos) \<in> set m. infos \<noteq> []"
    and "distinct_keys target" and "\<forall>(name, infos) \<in> set target. infos \<noteq> []"
  shows "or_nil (map_of (push_shared m target) n) = or_nil (map_of target n) @ or_nil (map_of m n)
    \<and> distinct_keys (push_shared m target) \<and> (\<forall>(name, infos) \<in> set (push_shared m target). infos \<noteq> [])"
  using assms
proof (induction m arbitrary: target)
  case (Cons ni m)
  obtain name infos where ni: "ni = (name, infos)" by (cases ni)
  let ?target = "AList.update name (or_nil (map_of target name) @ infos) target"
  have "distinct_keys ?target" "\<forall>(name, infos) \<in> set ?target. infos \<noteq> []"
    using Cons.prems ni by (auto intro: distinct_update dest!: in_set_update)
  with Cons.IH [of ?target] Cons.prems ni show ?case
    by (auto simp: update_conv' or_nil_def map_of_eq_None_iff [symmetric] split: option.splits)
qed (simp add: or_nil_def)

lemma collect_spec:
  assumes "ok_own node" and "ok_result r"
  shows "routed (collect_node_subscriptions node r) g = routed r g + of_group g (own node)
    \<and> ok_result (collect_node_subscriptions node r)"
proof -
  have d: "distinct_keys (shared_subscriptions node)" "\<forall>(name, infos) \<in> set (shared_subscriptions node). infos \<noteq> []"
    "distinct_keys (shared r)" "\<forall>(name, infos) \<in> set (shared r). infos \<noteq> []"
    using assms by (auto simp: ok_own_def ok_result_def)
  from push_shared_spec [OF this] of_group_own [OF assms(1)] show ?thesis
    by (simp add: routed_def collect_node_subscriptions_def ok_result_def split: option.split)
qed

lemma match_recursive_spec:
  assumes "ok_node node" and "ok_result r"
  shows "routed (match_recursive segs node r) g = routed r g + picked segs g (table node)
    \<and> ok_result (match_recursive segs node r)"
  using assms
proof (induction segs arbitrary: node r)
  case Nil
  have h: "routed (visit collect_node_subscriptions (hash_child node) r) g =
      routed r g + picked [] g (opt_push table hash_seg (hash_child node))
    \<and> ok_result (visit collect_node_subscriptions (hash_child node) r)"
    using Nil collect_spec [OF _ Nil(2)]
    by (subst (asm) ok_unfold)
      (auto simp: visit_def opt_push_def picked_push leaf_table split: option.split)
  have p: "picked [] g (opt_push table plus_seg (plus_child node)) = {#}"
    by (simp add: opt_push_def picked_push split: option.split)
  have c: "picked [] g (over (\<lambda>seg n. push seg (table n)) (children node)) = {#}"
    using Nil(1) by (subst (asm) ok_unfold) (auto simp: picked_over picked_push intro!: over_zero)
  show ?case
    using h p c collect_spec [OF ok_node_own [OF Nil(1)], of "visit collect_node_subscriptions (hash_child node) r" g]
    by (subst table_unfold) simp
next
  case (Cons seg segs)
  define r1 where "r1 = visit collect_node_subscriptions (hash_child node) r"
  define r2 where "r2 = visit (match_recursive segs) (map_of (children node) seg) r1"
  note ok = Cons.prems(1) [unfolded ok_unfold [of node]]
  have h: "routed r1 g = routed r g + picked (seg # segs) g (opt_push table hash_seg (hash_child node)) \<and> ok_result r1"
    using ok Cons.prems(2) collect_spec [OF _ Cons.prems(2)]
    by (auto simp: r1_def visit_def opt_push_def picked_push leaf_table split: option.splits)
  have c: "picked (seg # segs) g (over (\<lambda>s n. push s (table n)) (children node)) =
      (case map_of (children node) seg of None \<Rightarrow> {#} | Some n \<Rightarrow> picked segs g (table n))"
    unfolding picked_over
    using ok by (subst over_split [where k = seg])
      (auto simp: picked_push intro!: over_zero split: option.split dest!: map_of_SomeD)
  have "routed r2 g = routed r1 g + picked (seg # segs) g (over (\<lambda>s n. push s (table n)) (children node))
      \<and> ok_result r2"
    unfolding c using h ok Cons.IH [of _ r1]
    by (auto simp: r2_def visit_def split: option.split dest!: map_of_SomeD)
  moreover have "routed (visit (match_recursive segs) (plus_child node) r2) g =
      routed r2 g + picked (seg # segs) g (opt_push table plus_seg (plus_child node))
      \<and> ok_result (visit (match_recursive segs) (plus_child node) r2)"
    using calculation ok Cons.IH [of _ r2]
    by (auto simp: visit_def opt_push_def picked_push split: option.splits)
  ultimately show ?case
    using h by (subst table_unfold) (simp add: r1_def [symmetric] r2_def [symmetric])
qed

lemma match_topic_spec:
  assumes "ok_node root"
  shows "routed (match_topic topic root) g = picked (segments topic) g (table root)
    \<and> ok_result (match_topic topic root)"
proof -
  have "ok_result route_result_default" "routed route_result_default g = {#}"
    by (simp_all add: ok_result_def routed_def route_result_default_def or_nil_def split: option.split)
  with match_recursive_spec [OF assms] show ?thesis by (simp add: match_topic_def)
qed

section \<open>An empty table has no nodes\<close>

lemma table_nonempty:
  assumes "ok_node node" and "\<not> node_is_empty node"
  shows "table node \<noteq> {#}"
  using assms
proof (induction node rule: table.induct)
  case (1 ch p h s g)
  have own_ne: "own n \<noteq> {#}" if "ok_own n" "is_leaf n" "\<not> node_is_empty n" for n
  proof (cases "subscriptions n")
    case Nil
    with that obtain name infos m where "shared_subscriptions n = (name, infos) # m" "infos \<noteq> []"
      by (cases "shared_subscriptions n") (auto simp: node_is_empty_def is_leaf_def ok_own_def)
    with Nil show ?thesis by (simp add: own_def)
  qed (auto simp: own_def)
  consider (child) seg c ch' where "ch = (seg, c) # ch'" | (plus) c where "p = Some c" | (hash) c where "h = Some c"
    | (leaf) "is_leaf (Node ch p h s g)"
    by (cases ch; cases p; cases h) (auto simp: is_leaf_def)
  then show ?case
  proof cases
    case child
    with 1(4) have "\<not> node_is_empty c" "ok_node c" by auto
    with child 1(1) [of seg c] show ?thesis by simp
  next
    case plus
    with 1(4) have "\<not> node_is_empty c" "ok_node c" by auto
    with plus 1(2) [of c] show ?thesis by simp
  next
    case hash
    with 1(4) have "\<not> node_is_empty c" "ok_own c" "is_leaf c" by auto
    with hash own_ne [of c] leaf_table [of c] show ?thesis by simp
  next
    case leaf
    with own_ne [OF ok_node_own [OF 1(4)] leaf 1(5)] leaf_table [OF leaf] show ?thesis by simp
  qed
qed

lemma empty_table:
  assumes "ok_node node" and "table node = {#}"
  shows "node = empty_node"
proof -
  have "node_is_empty node" using table_nonempty [OF assms(1)] assms(2) by blast
  then show ?thesis by (cases node) (simp add: node_is_empty_def empty_node_def)
qed

section \<open>The interface: a table of subscriptions\<close>

text \<open>The key a filter is stored under, and the one it is removed under.\<close>

definition subscribe_key :: "rstr \<Rightarrow> rstr \<Rightarrow> rstr list \<times> rstr option \<times> rstr" where
  "subscribe_key client_id topic_filter =
     (let (g, filt) = parse_shared_subscription topic_filter in (filter_path (segments filt), g, client_id))"

definition unsubscribe_key :: "rstr \<Rightarrow> rstr \<Rightarrow> rstr list \<times> rstr option \<times> rstr" where
  "unsubscribe_key client_id topic_filter =
     (let (g, filt) = parse_shared_subscription topic_filter in (segments filt, g, client_id))"

definition new_entry :: "rstr \<Rightarrow> rstr \<Rightarrow> u8 \<Rightarrow> u32 option \<Rightarrow> entry" where
  "new_entry client_id topic_filter qos ident =
     (let (g, filt) = parse_shared_subscription topic_filter in
      (filter_path (segments filt), g,
        \<lparr>si_client_id = client_id, si_qos = qos, si_subscription_identifier = ident\<rparr>))"

definition valid_filter :: "rstr \<Rightarrow> bool" where
  "valid_filter topic_filter \<longleftrightarrow> hash_last (segments (snd (parse_shared_subscription topic_filter)))"

definition filter_group :: "rstr \<Rightarrow> rstr option" where
  "filter_group topic_filter = fst (parse_shared_subscription topic_filter)"

text \<open>Does a filter, the shared prefix taken off, match a topic?\<close>

definition matches_topic :: "rstr \<Rightarrow> rstr \<Rightarrow> bool" where
  "matches_topic topic_filter topic \<longleftrightarrow>
     filter_matches (segments (snd (parse_shared_subscription topic_filter))) (segments topic)"

lemma entry_key_new [simp]:
  "entry_key (new_entry c f q i) = subscribe_key c f"
  by (simp add: new_entry_def subscribe_key_def split_beta)

lemma key_eq: "valid_filter f \<Longrightarrow> unsubscribe_key c f = subscribe_key c f"
  by (simp add: valid_filter_def unsubscribe_key_def subscribe_key_def split_beta filter_path_id)

text \<open>Operations on a table, as values: the broker's history is a list of them.\<close>

datatype table_op = SubscribeOp rstr rstr u8 "u32 option" | UnsubscribeOp rstr rstr

fun table_step :: "table_op \<Rightarrow> entry multiset \<Rightarrow> entry multiset" where
  "table_step (SubscribeOp c f q i) T = add_mset (new_entry c f q i) (without (subscribe_key c f) T)"
| "table_step (UnsubscribeOp c f) T = without (unsubscribe_key c f) T"

fun run_ops :: "(rstr \<Rightarrow> rstr \<Rightarrow> u8 \<Rightarrow> u32 option \<Rightarrow> 't \<Rightarrow> 't) \<Rightarrow> (rstr \<Rightarrow> rstr \<Rightarrow> 't \<Rightarrow> bool \<times> 't)
    \<Rightarrow> table_op list \<Rightarrow> 't \<Rightarrow> 't" where
  "run_ops sub unsub [] t = t"
| "run_ops sub unsub (SubscribeOp c f q i # ops) t = run_ops sub unsub ops (sub c f q i t)"
| "run_ops sub unsub (UnsubscribeOp c f # ops) t = run_ops sub unsub ops (snd (unsub c f t))"

locale subscription_table =
  fixes ok :: "'t \<Rightarrow> bool" and init :: 't and tab :: "'t \<Rightarrow> entry multiset"
    and sub :: "rstr \<Rightarrow> rstr \<Rightarrow> u8 \<Rightarrow> u32 option \<Rightarrow> 't \<Rightarrow> 't"
    and unsub :: "rstr \<Rightarrow> rstr \<Rightarrow> 't \<Rightarrow> bool \<times> 't"
    and route :: "rstr \<Rightarrow> 't \<Rightarrow> route_result"
  assumes ok_init: "ok init" and tab_init: "tab init = {#}"
    and ok_sub: "ok t \<Longrightarrow> ok (sub c f q i t)"
    and tab_sub: "ok t \<Longrightarrow> tab (sub c f q i t) = add_mset (new_entry c f q i) (without (subscribe_key c f) (tab t))"
    and ok_unsub: "ok t \<Longrightarrow> ok (snd (unsub c f t))"
    and tab_unsub: "ok t \<Longrightarrow> tab (snd (unsub c f t)) = without (unsubscribe_key c f) (tab t)"
    and removed: "ok t \<Longrightarrow> fst (unsub c f t) \<longleftrightarrow> has_key (unsubscribe_key c f) (tab t)"
    and routes: "ok t \<Longrightarrow> routed (route topic t) g = picked (segments topic) g (tab t)"
    and minimal: "ok t \<Longrightarrow> tab t = {#} \<Longrightarrow> t = init"
begin

lemma run_spec: "ok t \<Longrightarrow> ok (run_ops sub unsub ops t) \<and> tab (run_ops sub unsub ops t) = fold table_step ops (tab t)"
proof (induction ops arbitrary: t)
  case (Cons op ops)
  then show ?case
    by (cases op) (simp_all add: ok_sub tab_sub ok_unsub tab_unsub)
qed simp

lemma run_init: "ok (run_ops sub unsub ops init)" "tab (run_ops sub unsub ops init) = fold table_step ops {#}"
  using run_spec [OF ok_init, of ops] by (simp_all add: tab_init)

lemma route_history:
  "routed (route topic (run_ops sub unsub ops init)) g = picked (segments topic) g (fold table_step ops {#})"
  by (simp add: routes run_init)

lemma nothing_left: "fold table_step ops {#} = {#} \<Longrightarrow> run_ops sub unsub ops init = init"
  by (rule minimal) (simp_all add: run_init)

text \<open>A new subscription is routed to, whatever the table held.\<close>

lemma route_new:
  assumes "ok t" and "matches_topic f topic"
  shows "\<lparr>si_client_id = c, si_qos = q, si_subscription_identifier = i\<rparr>
    \<in># routed (route topic (sub c f q i t)) (filter_group f)"
  using assms
  by (simp add: routes ok_sub tab_sub new_entry_def matches_topic_def filter_group_def split_beta)

text \<open>Unsubscribing from the filter that was just subscribed gives the table back.\<close>

lemma unsub_sub:
  assumes "ok t" and "valid_filter f" and "\<not> has_key (subscribe_key c f) (tab t)"
  shows "fst (unsub c f (sub c f q i t))" and "tab (snd (unsub c f (sub c f q i t))) = tab t"
  using assms by (simp_all add: removed tab_unsub ok_sub tab_sub key_eq without_absent)

text \<open>After an unsubscription nothing is left under the key, and the other keys are as before.\<close>

lemma unsub_gone:
  "ok t \<Longrightarrow> valid_filter f \<Longrightarrow> \<not> has_key (subscribe_key c f) (tab (snd (unsub c f t)))"
  by (simp add: tab_unsub key_eq)

lemma unsub_other:
  "ok t \<Longrightarrow> key \<noteq> unsubscribe_key c f \<Longrightarrow> has_key key (tab (snd (unsub c f t))) \<longleftrightarrow> has_key key (tab t)"
  by (simp add: tab_unsub)

end

lemma path_hash_last: "has_key (p, g, c) (table node) \<Longrightarrow> ok_node node \<Longrightarrow> hash_last p"
proof (induction p arbitrary: node)
  case (Cons seg p)
  let ?child = "or_empty (if seg = plus_seg then plus_child node else if seg = hash_seg then hash_child node
      else map_of (children node) seg)"
  have k: "has_key (p, g, c) (table ?child)" using has_key_table Cons.prems by blast
  show ?case
  proof (cases "seg = hash_seg")
    case True
    with ok_child(3) [OF Cons.prems(2)] k have "has_key (p, g, c) (own ?child)" by (simp add: leaf_table)
    then have "p = []" by (cases p) simp_all
    with True show ?thesis by simp
  next
    case False
    with k Cons.IH [OF k] ok_child(1) [OF Cons.prems(2)] ok_child(2) [OF Cons.prems(2), of seg]
    show ?thesis by (auto split: if_splits)
  qed
qed simp

text \<open>The trie provides the interface.\<close>

interpretation trie: subscription_table ok_node empty_node table subscribe unsubscribe match_topic
proof
  fix t :: trie_node and c f topic :: rstr and q :: u8 and i :: "u32 option" and g :: "rstr option"
  assume ok: "ok_node t"
  obtain grp filt where p: "parse_shared_subscription f = (grp, filt)" by (cases "parse_shared_subscription f")
  from subscribe_at_spec [OF ok]
  show "ok_node (subscribe c f q i t)"
    and "table (subscribe c f q i t) = add_mset (new_entry c f q i) (without (subscribe_key c f) (table t))"
    by (simp_all add: subscribe_def p new_entry_def subscribe_key_def)
  obtain rem emp t' where u: "unsubscribe_recursive (segments filt) c grp t = ((rem, emp), t')"
    by (metis surj_pair)
  from unsubscribe_recursive_spec [OF ok u]
  show "ok_node (snd (unsubscribe c f t))"
    and "table (snd (unsubscribe c f t)) = without (unsubscribe_key c f) (table t)"
    and "fst (unsubscribe c f t) \<longleftrightarrow> has_key (unsubscribe_key c f) (table t)"
    by (simp_all add: unsubscribe_def p u unsubscribe_key_def)
  show "routed (match_topic topic t) g = picked (segments topic) g (table t)"
    using match_topic_spec [OF ok] by simp
  show "t = empty_node" if "table t = {#}" using empty_table [OF ok that] .
qed simp_all

section \<open>Properties\<close>

text \<open>
  C4: the trie refines a flat table. After any sequence of \<open>subscribe\<close> and \<open>unsubscribe\<close> calls on a
  new router, \<open>match_topic\<close> returns, for the normal subscriptions and for every shared group, exactly
  the subscriptions in force whose filter matches the topic by the standard's definition, each
  once: none is lost by the pruning, none is delivered twice by the wildcard branches.
\<close>

theorem match_topic_refines_table:
  "routed (match_topic topic (run_ops subscribe unsubscribe ops empty_node)) g =
     picked (segments topic) g (fold table_step ops {#})"
  by (rule trie.route_history)

text \<open>
  C28: the trie keeps its invariant (distinct and literal child keys, \<open>#\<close> nodes without children,
  no empty node or group) under every sequence of operations, and holds no memory for what is gone:
  when no subscription is left, the trie is the one of a new router.
\<close>

theorem trie_invariant_and_pruning:
  "ok_node (run_ops subscribe unsubscribe ops empty_node) \<and>
   (fold table_step ops {#} = {#} \<longrightarrow> run_ops subscribe unsubscribe ops empty_node = empty_node)"
  using trie.run_init(1) trie.nothing_left by blast

definition sample_ops :: "table_op list" where
  "sample_ops = [SubscribeOp (lit ''c1'') (lit ''a/+/#'') 1 None, SubscribeOp (lit ''c2'') (lit ''$share/g/a/b'') 0 None,
     UnsubscribeOp (lit ''c1'') (lit ''a/+/#''), UnsubscribeOp (lit ''c2'') (lit ''$share/g/a/b'')]"

theorem trie_invariant_and_pruning_witness:
  "run_ops subscribe unsubscribe sample_ops empty_node = empty_node"
proof -
  have p: "parse_shared_subscription (lit ''a/+/#'') = (None, lit ''a/+/#'')"
    by (rule parse_unshared) (simp add: starts_with_def)
  have "lit ''$share/g/a/b'' = lit ''$share/'' @ lit ''g'' @ slash # lit ''a/b''" by (simp add: slash_def)
  moreover have "slash \<notin> set (lit ''g'')" by (simp add: slash_def)
  ultimately have p': "parse_shared_subscription (lit ''$share/g/a/b'') = (Some (lit ''g''), lit ''a/b'')"
    using parse_shared by (simp only:)
  have path: "filter_path (segments (lit ''a/+/#'')) = segments (lit ''a/+/#'')"
    "filter_path (segments (lit ''a/b'')) = segments (lit ''a/b'')"
    by (simp_all add: segments_def slash_def hash_seg_def)
  have "fold table_step sample_ops {#} = {#}"
    by (simp add: sample_ops_def subscribe_key_def unsubscribe_key_def new_entry_def p p' path
        del: lit_simps)
  with trie_invariant_and_pruning [of sample_ops] show ?thesis by blast
qed

text \<open>
  \<open>unsubscribe\<close> undoes \<open>subscribe\<close>. For a filter in which nothing follows \<open>#\<close>, and a client not
  yet subscribed to it, unsubscribing right after subscribing reports a removal and leaves the
  table as it was.
\<close>

theorem unsubscribe_undoes_subscribe:
  assumes "ok_node root" and "valid_filter f" and "\<not> has_key (subscribe_key c f) (table root)"
  shows "fst (unsubscribe c f (subscribe c f q i root)) \<and>
    table (snd (unsubscribe c f (subscribe c f q i root))) = table root"
  using trie.unsub_sub [OF assms] by blast

theorem unsubscribe_undoes_subscribe_witness:
  "fst (unsubscribe (lit ''c'') (lit ''a/#'') (subscribe (lit ''c'') (lit ''a/#'') 1 None empty_node))"
proof -
  have "valid_filter (lit ''a/#'')"
    by (simp add: valid_filter_def parse_shared_subscription_def starts_with_def segments_def slash_def hash_seg_def)
  with unsubscribe_undoes_subscribe [of empty_node "lit ''a/#''" "lit ''c''" 1 None] show ?thesis by simp
qed

text \<open>
  \<open>unsubscribe\<close> returns true exactly when it removed a subscription of that client, filter and
  group, and then it removed exactly that one; any other client's or filter's subscription is kept.
\<close>

theorem unsubscribe_exact:
  assumes "ok_node root"
  shows "(fst (unsubscribe c f root) \<longleftrightarrow> has_key (unsubscribe_key c f) (table root)) \<and>
    table (snd (unsubscribe c f root)) = without (unsubscribe_key c f) (table root)"
  using trie.removed [OF assms] trie.tab_unsub [OF assms] by blast

theorem unsubscribe_exact_witness:
  "fst (unsubscribe (lit ''d'') (lit ''a'') empty_node) = False"
  using unsubscribe_exact [of empty_node "lit ''d''" "lit ''a''"] by simp

text \<open>
  C40: a filter with something after \<open>#\<close> can be subscribed and never unsubscribed. \<open>subscribe\<close> stops at
  \<open>#\<close> and stores the subscription there, \<open>unsubscribe\<close> goes on below it: on every trie it answers
  false and removes nothing, so the client keeps receiving the messages of \<open>a/#\<close> after it
  unsubscribed from \<open>a/#/b\<close>.
\<close>

theorem inner_hash_never_unsubscribed:
  assumes "ok_node root" and "\<not> valid_filter f"
  shows "\<not> fst (unsubscribe c f root) \<and> table (snd (unsubscribe c f root)) = table root \<and>
    has_key (subscribe_key c f) (table (snd (unsubscribe c f (subscribe c f q i root))))"
proof -
  have absent: "\<not> has_key (unsubscribe_key c f) (table t)" if "ok_node t" for t
    using path_hash_last [OF _ that] assms(2)
    by (auto simp: unsubscribe_key_def valid_filter_def split_beta)
  have ok: "ok_node (subscribe c f q i root)" using assms(1) by (rule trie.ok_sub)
  have "has_key (subscribe_key c f) (table (subscribe c f q i root))"
    by (simp add: trie.tab_sub [OF assms(1)])
  with absent [OF assms(1)] absent [OF ok] show ?thesis
    by (simp add: trie.removed trie.tab_unsub assms(1) ok without_absent)
qed

theorem inner_hash_never_unsubscribed_witness:
  "\<not> fst (unsubscribe (lit ''c'') (lit ''a/#/b'') (subscribe (lit ''c'') (lit ''a/#/b'') 1 None empty_node))"
proof -
  have v: "\<not> valid_filter (lit ''a/#/b'')"
    by (simp add: valid_filter_def parse_shared_subscription_def starts_with_def segments_def slash_def hash_seg_def)
  have ok: "ok_node (subscribe (lit ''c'') (lit ''a/#/b'') 1 None empty_node)" by (simp add: trie.ok_sub)
  show ?thesis using inner_hash_never_unsubscribed [OF ok v] by blast
qed

text \<open>
  A subscription takes effect at once: after \<open>subscribe\<close>, every topic that the filter matches
  is routed to the client with the granted QoS and identifier, in the filter's group. The first
  level is no exception, so \<open>#\<close> also receives the topics that begin with \<open>$\<close>.
\<close>

theorem subscribe_takes_effect:
  assumes "ok_node root" and "matches_topic f topic"
  shows "\<lparr>si_client_id = c, si_qos = q, si_subscription_identifier = i\<rparr>
    \<in># routed (match_topic topic (subscribe c f q i root)) (filter_group f)"
  by (rule trie.route_new [OF assms])

theorem subscribe_takes_effect_witness:
  "\<lparr>si_client_id = lit ''c'', si_qos = 0, si_subscription_identifier = None\<rparr>
    \<in># routed (match_topic (lit ''$SYS/load'') (subscribe (lit ''c'') (lit ''#'') 0 None empty_node)) None"
proof -
  have m: "matches_topic (lit ''#'') (lit ''$SYS/load'')" and g: "filter_group (lit ''#'') = None"
    by (simp_all add: matches_topic_def filter_group_def parse_shared_subscription_def starts_with_def
        segments_def slash_def hash_seg_def)
  show ?thesis using subscribe_takes_effect [OF empty_node_facts(3) m, of "lit ''c''" 0 None]
    by (simp only: g)
qed

end
