(* ===== verification/Auth.thy ===== *)
theory Auth imports Router_Match Utf8 begin

text \<open>
  Authentication and access control, \<open>src/config.rs\<close>: how the configuration is loaded, the check of
  a login, the ACL rules and the matcher of their filters. The Argon2 library and the JSON parser
  are parameters; the file system and the environment are the fields of a record.
\<close>

section \<open>The configuration\<close>

record acl_rule =
  ar_topic :: rstr
  ar_access :: rstr

record user_config =
  uc_username :: rstr
  uc_password_hash :: rstr
  uc_acl :: "acl_rule list"

text \<open>\<open>None\<close>: anonymous mode was explicitly enabled. \<open>Some\<close>, an empty map included: authentication is enforced.\<close>

record auth_config =
  ac_users :: "(rstr \<times> user_config) list option"

definition auth_closed :: auth_config where
  "auth_closed = \<lparr>ac_users = Some []\<rparr>"

definition auth_anonymous :: auth_config where
  "auth_anonymous = \<lparr>ac_users = None\<rparr>"

section \<open>Loading it\<close>

text \<open>The UTF-8 encodings of the characters of \<open>White_Space\<close>, which \<open>str::trim\<close> takes off both ends.\<close>

definition white_space :: "rstr list" where
  "white_space = map utf8_encode
     ([9, 10, 11, 12, 13, 0x20, 0x85, 0xA0, 0x1680] @ [0x2000..<0x200B] @ [0x2028, 0x2029, 0x202F, 0x205F, 0x3000])"

function strip_front :: "'a list list \<Rightarrow> 'a list \<Rightarrow> 'a list" where
  "strip_front ws s =
     (case find (\<lambda>w. w \<noteq> [] \<and> starts_with w s) ws of
        None \<Rightarrow> s
      | Some w \<Rightarrow> if s = [] then s else strip_front ws (drop (length w) s))"
  by pat_completeness auto
termination
  by (relation "measure (\<lambda>(ws, s). length s)") (auto simp: find_Some_iff)

declare strip_front.simps [simp del]

definition trim :: "rstr \<Rightarrow> rstr" where
  "trim s = rev (strip_front (map rev white_space) (rev (strip_front white_space s)))"

definition to_ascii_lowercase :: "rstr \<Rightarrow> rstr" where
  "to_ascii_lowercase s = map (\<lambda>b. if 65 \<le> unat b \<and> unat b \<le> 90 then b + 32 else b) s"

definition anonymous_access_enabled :: "rstr option \<Rightarrow> bool" where
  "anonymous_access_enabled var =
     (case var of
        None \<Rightarrow> False
      | Some val \<Rightarrow> to_ascii_lowercase (trim val) \<in> set [lit ''1'', lit ''true'', lit ''yes'', lit ''on''])"

text \<open>
  What \<open>load\<close> finds: does the credentials file exist, what opening it and reading it as a string
  gives (\<open>None\<close> when it fails), and the value of \<open>PIPISTRELLE_ALLOW_ANONYMOUS\<close> when it is set and is
  Unicode.
\<close>

record credentials_env =
  ce_exists :: bool
  ce_open :: "rstr option option"
  ce_allow_anonymous :: "rstr option"

fun insert_users :: "user_config list \<Rightarrow> (rstr \<times> user_config) list \<Rightarrow> (rstr \<times> user_config) list" where
  "insert_users [] m = m"
| "insert_users (user # users) m = insert_users users (AList.update (uc_username user) user m)"

definition load_auth :: "(rstr \<Rightarrow> user_config list option) \<Rightarrow> credentials_env \<Rightarrow> auth_config" where
  "load_auth parse env =
     (if \<not> ce_exists env then
        (if anonymous_access_enabled (ce_allow_anonymous env) then auth_anonymous else auth_closed)
      else case ce_open env of
        Some file \<Rightarrow>
          (case file of
             None \<Rightarrow> auth_closed
           | Some content \<Rightarrow>
               (case parse content of
                  Some users \<Rightarrow> \<lparr>ac_users = Some (insert_users users [])\<rparr>
                | None \<Rightarrow> auth_closed))
      | None \<Rightarrow> auth_closed)"

section \<open>Authentication\<close>

text \<open>
  \<open>parse_hash\<close> stands for \<open>PasswordHash::new\<close> and \<open>check\<close> for \<open>Argon2::verify_password\<close>.
\<close>

definition verify_password :: "(rstr \<Rightarrow> 'h option) \<Rightarrow> (rstr \<Rightarrow> 'h \<Rightarrow> bool) \<Rightarrow> rstr \<Rightarrow> rstr \<Rightarrow> bool" where
  "verify_password parse_hash check password encoded_hash =
     (case parse_hash encoded_hash of
        None \<Rightarrow> False
      | Some parsed_hash \<Rightarrow> check password parsed_hash)"

definition authenticate :: "(rstr \<Rightarrow> rstr \<Rightarrow> bool) \<Rightarrow> auth_config \<Rightarrow> rstr \<Rightarrow> rstr \<Rightarrow> bool" where
  "authenticate verify auth username password =
     (case ac_users auth of
        None \<Rightarrow> True
      | Some users \<Rightarrow>
          (case map_of users username of
             Some user \<Rightarrow> verify password (uc_password_hash user)
           | None \<Rightarrow> False))"

section \<open>Authorization\<close>

text \<open>The \<open>while\<close> loop over the index \<open>i\<close>.\<close>

function acl_loop :: "rstr list \<Rightarrow> rstr list \<Rightarrow> nat \<Rightarrow> bool" where
  "acl_loop topic_levels filter_levels i =
     (if i < length filter_levels then
        if filter_levels ! i = hash_seg then True
        else if length topic_levels \<le> i then False
        else if filter_levels ! i \<noteq> plus_seg \<and> filter_levels ! i \<noteq> topic_levels ! i then False
        else acl_loop topic_levels filter_levels (i + 1)
      else i = length topic_levels)"
  by pat_completeness auto
termination
  by (relation "measure (\<lambda>(t, f, i). length f - i)") auto

declare acl_loop.simps [simp del]

definition topic_matches_acl_filter :: "rstr \<Rightarrow> rstr \<Rightarrow> bool" where
  "topic_matches_acl_filter topic filt = acl_loop (segments topic) (segments filt) 0"

definition action_allowed :: "rstr \<Rightarrow> rstr \<Rightarrow> bool" where
  "action_allowed access action =
     (if access = lit ''readwrite'' then True
      else if access = lit ''read'' then action = lit ''read''
      else if access = lit ''write'' then action = lit ''write''
      else False)"

fun authorize_rules :: "acl_rule list \<Rightarrow> rstr \<Rightarrow> rstr \<Rightarrow> bool" where
  "authorize_rules [] topic action = False"
| "authorize_rules (rule # acl) topic action =
     (if action_allowed (ar_access rule) action \<and> topic_matches_acl_filter topic (ar_topic rule) then True
      else authorize_rules acl topic action)"

definition authorize :: "auth_config \<Rightarrow> rstr \<Rightarrow> rstr \<Rightarrow> rstr \<Rightarrow> bool" where
  "authorize auth username topic action =
     (case ac_users auth of
        None \<Rightarrow> True
      | Some users \<Rightarrow>
          (case map_of users username of
             Some user \<Rightarrow> authorize_rules (uc_acl user) topic action
           | None \<Rightarrow> False))"

section \<open>Lemmas\<close>

lemma acl_loop_drop:
  "i \<le> length f \<Longrightarrow> i \<le> length t \<Longrightarrow> acl_loop t f i \<longleftrightarrow> filter_matches (drop i f) (drop i t)"
proof (induction t f i rule: acl_loop.induct)
  case (1 t f i)
  show ?case
  proof (cases "i < length f")
    case True
    then have f: "drop i f = f ! i # drop (Suc i) f" by (simp add: Cons_nth_drop_Suc)
    show ?thesis
    proof (cases "i < length t")
      case True
      then have t: "drop i t = t ! i # drop (Suc i) t" by (simp add: Cons_nth_drop_Suc)
      from 1 \<open>i < length f\<close> True show ?thesis
        by (subst acl_loop.simps) (auto simp: f t)
    next
      case False
      with \<open>i < length f\<close> show ?thesis by (subst acl_loop.simps) (simp add: f)
    qed
  next
    case False
    with 1(2,3) show ?thesis by (subst acl_loop.simps) auto
  qed
qed

lemma acl_filter_matches: "topic_matches_acl_filter topic filt \<longleftrightarrow> filter_matches (segments filt) (segments topic)"
  using acl_loop_drop [of 0 "segments filt" "segments topic"] by (simp add: topic_matches_acl_filter_def)

lemma authorize_rules_iff:
  "authorize_rules acl topic action \<longleftrightarrow>
    (\<exists>rule \<in> set acl. action_allowed (ar_access rule) action \<and> filter_matches (segments (ar_topic rule)) (segments topic))"
  by (induction acl) (auto simp: acl_filter_matches)

lemma map_of_insert_users:
  "map_of (insert_users users m) name =
    (case find (\<lambda>u. uc_username u = name) (rev users) of Some u \<Rightarrow> Some u | None \<Rightarrow> map_of m name)"
proof (induction users arbitrary: m)
  case (Cons u users)
  have "find P (xs @ [x]) = (case find P xs of Some y \<Rightarrow> Some y | None \<Rightarrow> if P x then Some x else None)"
    for P :: "user_config \<Rightarrow> bool" and xs x
    by (induction xs) auto
  with Cons show ?case by (auto simp: update_conv' split: option.split)
qed simp

lemma find_Some_iff_ex: "(\<exists>u. find P xs = Some u) \<longleftrightarrow> (\<exists>x \<in> set xs. P x)"
  by (induction xs) auto

text \<open>Matching is transitive through a filter that has no \<open>#\<close>.\<close>

lemma filter_matches_trans:
  assumes "filter_matches acl filt" and "hash_seg \<notin> set filt" and "filter_matches filt topic"
    and "plus_seg \<notin> set topic"
  shows "filter_matches acl topic"
  using assms
proof (induction acl filt arbitrary: topic rule: filter_matches.induct)
  case (1 filt)
  then show ?case by (cases topic) (auto split: list.splits)
next
  case (2 f fs filt)
  show ?case
  proof (cases "f = hash_seg")
    case False
    then obtain t ts where filt: "filt = t # ts" and *: "f = plus_seg \<or> f = t" "filter_matches fs ts"
      using 2(2) by (auto split: list.splits)
    then obtain u us where topic: "topic = u # us" and **: "t = plus_seg \<or> t = u" "filter_matches ts us"
      using 2(3,4) by (auto split: list.splits if_splits)
    from 2(1) [OF False, of t ts us] filt * ** 2(3-5) topic have "filter_matches fs us" by auto
    with False * ** topic show ?thesis by auto
  qed simp
qed

section \<open>Properties\<close>

text \<open>
  C26: the ACL matcher and the router agree. The index loop of \<open>topic_matches_acl_filter\<close> computes, on
  every pair of strings and without an index out of range, the relation by which the trie routes:
  a rule \<open>f\<close> covers a topic exactly when a subscription to \<open>f\<close> would receive it.
\<close>

theorem acl_matcher_is_router_relation:
  "topic_matches_acl_filter topic filt \<longleftrightarrow> filter_matches (segments filt) (segments topic)"
  by (rule acl_filter_matches)

text \<open>
  Authentication is fail-closed. A login succeeds only in two cases: there is no credentials
  file and anonymous access was enabled by one of the four words, or the file was opened, read and
  parsed, the user is in it (its last entry counts) and the password verifies against its hash.
\<close>

theorem authenticate_exact:
  "authenticate verify (load_auth parse env) username password \<longleftrightarrow>
     (if ce_exists env then
        (\<exists>content users user. ce_open env = Some (Some content) \<and> parse content = Some users \<and>
          find (\<lambda>u. uc_username u = username) (rev users) = Some user \<and>
          verify password (uc_password_hash user))
      else anonymous_access_enabled (ce_allow_anonymous env))"
  by (auto simp: authenticate_def load_auth_def auth_closed_def auth_anonymous_def map_of_insert_users
      split: option.splits)

text \<open>
  Authorization is what the rules say. With authentication enforced, an action on a topic is
  allowed exactly when the user is known and one of its rules grants the action and covers the
  topic; an unknown access word grants nothing.
\<close>

theorem authorize_exact:
  "authorize \<lparr>ac_users = Some users\<rparr> username topic action \<longleftrightarrow>
     (\<exists>user rule. map_of users username = Some user \<and> rule \<in> set (uc_acl user) \<and>
       (ar_access rule = lit ''readwrite'' \<or>
        ar_access rule = action \<and> (action = lit ''read'' \<or> action = lit ''write'')) \<and>
       filter_matches (segments (ar_topic rule)) (segments topic))"
proof -
  have "action_allowed access action \<longleftrightarrow> access = lit ''readwrite'' \<or>
      access = action \<and> (action = lit ''read'' \<or> action = lit ''write'')" for access
    by (auto simp: action_allowed_def)
  then show ?thesis
    by (auto simp: authorize_def authorize_rules_iff split: option.split)
qed

text \<open>
  C27: for subscription filters without \<open>#\<close> (and no shared prefix) the check of a subscription is
  sound: if a user may read the filter, it may read every topic the filter matches. Treating the
  filter as a topic, as the code does, is enough there, because a \<open>+\<close> of the filter is matched only
  by a \<open>+\<close> or \<open>#\<close> of the rule.
\<close>

theorem subscribe_check_sound:
  assumes "authorize auth username filt action" and "hash_seg \<notin> set (segments filt)"
    and "filter_matches (segments filt) (segments topic)" and "plus_seg \<notin> set (segments topic)"
  shows "authorize auth username topic action"
  using assms filter_matches_trans
  by (fastforce simp: authorize_def authorize_rules_iff split: option.splits)

text \<open>A user \<open>u\<close> with one rule.\<close>

definition one_rule :: "rstr \<Rightarrow> auth_config" where
  "one_rule topic = \<lparr>ac_users = Some [(lit ''u'', \<lparr>uc_username = lit ''u'', uc_password_hash = [],
     uc_acl = [\<lparr>ar_topic = topic, ar_access = lit ''read''\<rparr>]\<rparr>)]\<rparr>"

lemma one_rule_authorize:
  "authorize (one_rule rule) (lit ''u'') topic (lit ''read'') \<longleftrightarrow> filter_matches (segments rule) (segments topic)"
  by (simp add: one_rule_def authorize_def authorize_rules_iff action_allowed_def)

lemmas segments_eval = segments_def slash_def hash_seg_def plus_seg_def

theorem subscribe_check_sound_witness:
  "authorize (one_rule (lit ''a/#'')) (lit ''u'') (lit ''a/x/b'') (lit ''read'')"
proof -
  have "authorize (one_rule (lit ''a/#'')) (lit ''u'') (lit ''a/+/b'') (lit ''read'')"
    unfolding one_rule_authorize by (simp add: segments_eval)
  from subscribe_check_sound [OF this, of "lit ''a/x/b''"] show ?thesis
    by (simp add: segments_eval)
qed

text \<open>
  C39: a subscription with \<open>#\<close> escapes the ACL. A user whose only rule is \<open>read sensor/+\<close> may
  subscribe to \<open>sensor/#\<close>, since \<open>+\<close> covers the segment \<open>#\<close>; that subscription receives
  \<open>sensor/a/b\<close>, which the same user may not read.
\<close>

theorem hash_subscription_escapes_acl:
  "authorize (one_rule (lit ''sensor/+'')) (lit ''u'') (lit ''sensor/#'') (lit ''read'') \<and>
   \<lparr>si_client_id = c, si_qos = q, si_subscription_identifier = i\<rparr> \<in>#
     routed (match_topic (lit ''sensor/a/b'') (Router.subscribe c (lit ''sensor/#'') q i empty_node)) None \<and>
   \<not> authorize (one_rule (lit ''sensor/+'')) (lit ''u'') (lit ''sensor/a/b'') (lit ''read'')"
proof -
  have p: "parse_shared_subscription (lit ''sensor/#'') = (None, lit ''sensor/#'')"
    by (rule parse_unshared) (simp add: starts_with_def)
  have m: "filter_matches (segments (lit ''sensor/#'')) (segments (lit ''sensor/a/b''))"
    "filter_matches (segments (lit ''sensor/+'')) (segments (lit ''sensor/#''))"
    "\<not> filter_matches (segments (lit ''sensor/+'')) (segments (lit ''sensor/a/b''))"
    by (simp_all add: segments_eval)
  from m p trie.route_new [of empty_node "lit ''sensor/#''" "lit ''sensor/a/b''"] show ?thesis
    by (simp add: one_rule_authorize matches_topic_def filter_group_def del: lit_simps)
qed

text \<open>
  The ACL checks a shared subscription with its prefix on. A user whose only rule is
  \<open>read +/+/a\<close> may subscribe to \<open>$share/g/a\<close>, which receives the topic \<open>a\<close> that it may not read;
  and a user who may read \<open>a\<close> may not subscribe to \<open>$share/g/a\<close>.
\<close>

theorem share_prefix_not_stripped:
  "(authorize (one_rule (lit ''+/+/a'')) (lit ''u'') (lit ''$share/g/a'') (lit ''read'') \<and>
    matches_topic (lit ''$share/g/a'') (lit ''a'') \<and>
    \<not> authorize (one_rule (lit ''+/+/a'')) (lit ''u'') (lit ''a'') (lit ''read'')) \<and>
   (authorize (one_rule (lit ''a'')) (lit ''u'') (lit ''a'') (lit ''read'') \<and>
    \<not> authorize (one_rule (lit ''a'')) (lit ''u'') (lit ''$share/g/a'') (lit ''read''))"
proof -
  have "lit ''$share/g/a'' = lit ''$share/'' @ lit ''g'' @ slash # lit ''a''" by (simp add: slash_def)
  moreover have "slash \<notin> set (lit ''g'')" by (simp add: slash_def)
  ultimately have "parse_shared_subscription (lit ''$share/g/a'') = (Some (lit ''g''), lit ''a'')"
    using parse_shared by (simp only:)
  moreover have "filter_matches (segments (lit ''a'')) (segments (lit ''a''))"
    "filter_matches (segments (lit ''+/+/a'')) (segments (lit ''$share/g/a''))"
    "\<not> filter_matches (segments (lit ''+/+/a'')) (segments (lit ''a''))"
    "\<not> filter_matches (segments (lit ''a'')) (segments (lit ''$share/g/a''))"
    by (simp_all add: segments_eval)
  ultimately show ?thesis
    by (simp add: one_rule_authorize matches_topic_def del: lit_simps)
qed

end
