(* ===== verification/Broker.thy ===== *)
theory Broker imports Session Persistence Auth Packets begin

text \<open>
  The shared state of the broker, \<open>BrokerState\<close> of \<open>src/session.rs\<close>, and its operations. An
  \<open>Arc<ClientSession>\<close> is an index into the store \<open>b_heap\<close>: the map of sessions and the connections
  hold indices, so that two connections of one client id are two sessions, as in the code. A future
  given to \<open>tokio::spawn\<close> is appended to \<open>b_tasks\<close>. \<open>Instant::now()\<close> reads \<open>b_clock\<close>.
\<close>

section \<open>The state\<close>

record broker =
  b_router :: trie_node
  b_sessions :: "(rstr \<times> nat) list"
  b_auth :: auth_config
  b_shared_group_counters :: "(rstr \<times> u64) list"
  b_messages_published :: u64
  b_subscriptions :: u64
  b_bridge_sender :: "(rstr \<times> bytes) list option"
  b_heap :: "client_session list"
  b_tasks :: "db_task list"
  b_clock :: nat

definition new_broker :: "auth_config \<Rightarrow> broker" where
  "new_broker auth =
     \<lparr>b_router = empty_node, b_sessions = [], b_auth = auth, b_shared_group_counters = [],
      b_messages_published = 0, b_subscriptions = 0, b_bridge_sender = None, b_heap = [],
      b_tasks = [], b_clock = 0\<rparr>"

text \<open>\<open>Arc::new(session)\<close>, a change of the session behind an \<open>Arc\<close>, and \<open>tokio::spawn\<close>.\<close>

definition alloc_session :: "client_session \<Rightarrow> broker \<Rightarrow> nat \<times> broker" where
  "alloc_session s b = (length (b_heap b), b\<lparr>b_heap := b_heap b @ [s]\<rparr>)"

definition session_at :: "broker \<Rightarrow> nat \<Rightarrow> client_session" where
  "session_at b i = b_heap b ! i"

definition on_session :: "nat \<Rightarrow> (client_session \<Rightarrow> client_session) \<Rightarrow> broker \<Rightarrow> broker" where
  "on_session i f b = b\<lparr>b_heap := (b_heap b)[i := f (session_at b i)]\<rparr>"

definition spawn :: "db_task \<Rightarrow> broker \<Rightarrow> broker" where
  "spawn task b = b\<lparr>b_tasks := b_tasks b @ [task]\<rparr>"

section \<open>Sessions\<close>

definition register_session :: "nat \<Rightarrow> broker \<Rightarrow> broker" where
  "register_session i b =
     (let session = session_at b i;
          client_id = cs_client_id session;
          expiry = cs_session_expiry_interval session;
          b = b\<lparr>b_sessions := AList.update client_id i (b_sessions b)\<rparr> in
      if 0 < expiry then spawn (SaveSession client_id (cs_username session) (cs_clean_start session) expiry) b
      else b)"

definition remove_session :: "rstr \<Rightarrow> broker \<Rightarrow> broker" where
  "remove_session client_id b =
     (case map_of (b_sessions b) client_id of
        None \<Rightarrow> b
      | Some i \<Rightarrow>
          let session = session_at b i;
              b = b\<lparr>b_sessions := AList.delete client_id (b_sessions b)\<rparr> in
          if cs_clean_start session \<or> cs_session_expiry_interval session = 0
          then spawn (DeleteSession client_id) b else b)"

section \<open>Subscriptions\<close>

definition broker_subscribe :: "rstr \<Rightarrow> rstr \<Rightarrow> u8 \<Rightarrow> u32 option \<Rightarrow> broker \<Rightarrow> broker" where
  "broker_subscribe client_id topic_filter qos subscription_identifier b =
     (let b = b\<lparr>b_subscriptions := b_subscriptions b + 1\<rparr>;
          b = b\<lparr>b_router := Router.subscribe client_id topic_filter qos subscription_identifier (b_router b)\<rparr> in
      spawn (SaveSubscription client_id topic_filter qos subscription_identifier) b)"

definition broker_unsubscribe :: "rstr \<Rightarrow> rstr \<Rightarrow> broker \<Rightarrow> bool \<times> broker" where
  "broker_unsubscribe client_id topic_filter b =
     (let (removed, router) = Router.unsubscribe client_id topic_filter (b_router b);
          b = b\<lparr>b_router := router\<rparr> in
      (removed, if removed then spawn (DeleteSubscription client_id topic_filter) b else b))"

section \<open>Publishing\<close>

definition publish_packet :: "rstr \<Rightarrow> bytes \<Rightarrow> u8 \<Rightarrow> bool \<Rightarrow> u16 option \<Rightarrow> u32 option \<Rightarrow> packet" where
  "publish_packet topic payload qos retain packet_id subscription_identifier =
     Publish \<lparr>p_dup = False, p_qos = qos, p_retain = retain, p_topic = topic, p_packet_id = packet_id,
       p_properties = publish_properties_default\<lparr>pp_subscription_identifier := subscription_identifier\<rparr>,
       p_payload = payload\<rparr>"

text \<open>The session's part of \<open>send_publish_to_client\<close>: identifier, in-flight entry, channel.\<close>

definition session_publish ::
  "nat \<Rightarrow> rstr \<Rightarrow> bytes \<Rightarrow> u8 \<Rightarrow> bool \<Rightarrow> u32 option \<Rightarrow> client_session \<Rightarrow> u16 option \<times> client_session" where
  "session_publish now topic payload qos retain subscription_identifier session =
     (let (packet_id, session) =
        (if 0 < qos then
           let (pid, session) = get_next_packet_id session in
           (Some pid, add_in_flight now pid topic payload qos session)
         else (None, session)) in
      (packet_id,
       send_buf (encode_packet (publish_packet topic payload qos retain packet_id subscription_identifier)) session))"

definition send_publish_to_client ::
  "rstr \<Rightarrow> rstr \<Rightarrow> bytes \<Rightarrow> u8 \<Rightarrow> bool \<Rightarrow> u32 option \<Rightarrow> broker \<Rightarrow> broker" where
  "send_publish_to_client client_id topic payload qos retain subscription_identifier b =
     (case map_of (b_sessions b) client_id of
        None \<Rightarrow> b
      | Some i \<Rightarrow>
          let (packet_id, session) =
                session_publish (b_clock b) topic payload qos retain subscription_identifier (session_at b i);
              b = (case packet_id of
                     None \<Rightarrow> b
                   | Some pid \<Rightarrow> spawn (SaveInFlight client_id pid topic payload qos) b) in
          on_session i (\<lambda>_. session) b)"

fun route_normal :: "subscription_info list \<Rightarrow> rstr \<Rightarrow> bytes \<Rightarrow> u8 \<Rightarrow> bool \<Rightarrow> broker \<Rightarrow> broker" where
  "route_normal [] topic payload qos retain b = b"
| "route_normal (sub # subs) topic payload qos retain b =
     route_normal subs topic payload qos retain
       (send_publish_to_client (si_client_id sub) topic payload qos retain (si_subscription_identifier sub) b)"

text \<open>\<open>fetch_add\<close> on the group's counter, which is created at 0.\<close>

definition next_index :: "rstr \<Rightarrow> broker \<Rightarrow> u64 \<times> broker" where
  "next_index grp b =
     (let index = (case map_of (b_shared_group_counters b) grp of None \<Rightarrow> 0 | Some n \<Rightarrow> n) in
      (index, b\<lparr>b_shared_group_counters := AList.update grp (index + 1) (b_shared_group_counters b)\<rparr>))"

fun route_shared ::
  "(rstr \<times> subscription_info list) list \<Rightarrow> rstr \<Rightarrow> bytes \<Rightarrow> u8 \<Rightarrow> bool \<Rightarrow> broker \<Rightarrow> broker" where
  "route_shared [] topic payload qos retain b = b"
| "route_shared ((grp, subs) # groups) topic payload qos retain b =
     (if subs = [] then route_shared groups topic payload qos retain b
      else
        let (index, b) = next_index grp b;
            selected_sub = subs ! (unat index mod length subs) in
        route_shared groups topic payload qos retain
          (send_publish_to_client (si_client_id selected_sub) topic payload qos retain
            (si_subscription_identifier selected_sub) b))"

definition bridge_client :: rstr where
  "bridge_client = lit ''bridge_client''"

definition route_publish :: "rstr \<Rightarrow> rstr \<Rightarrow> bytes \<Rightarrow> u8 \<Rightarrow> bool \<Rightarrow> broker \<Rightarrow> broker" where
  "route_publish from_client topic payload qos retain b =
     (let b = b\<lparr>b_messages_published := b_messages_published b + 1\<rparr>;
          b = (if from_client \<noteq> bridge_client then
                 b\<lparr>b_bridge_sender := map_option (\<lambda>tx. tx @ [(topic, payload)]) (b_bridge_sender b)\<rparr>
               else b);
          route = match_topic topic (b_router b);
          b = route_normal (normal route) topic payload qos retain b in
      route_shared (shared route) topic payload qos retain b)"

section \<open>Restart and shutdown\<close>

fun restore_sessions :: "(rstr \<times> rstr option \<times> bool \<times> u32) list \<Rightarrow> broker \<Rightarrow> broker" where
  "restore_sessions [] b = b"
| "restore_sessions ((client_id, username, clean_start, expiry) # rows) b =
     (let (i, b) = alloc_session (new_session (b_clock b) client_id username clean_start 0 expiry False) b in
      restore_sessions rows (b\<lparr>b_sessions := AList.update client_id i (b_sessions b)\<rparr>))"

fun restore_subscriptions :: "(rstr \<times> rstr \<times> u8 \<times> u32 option) list \<Rightarrow> broker \<Rightarrow> broker" where
  "restore_subscriptions [] b = b"
| "restore_subscriptions ((client_id, topic_filter, qos, sub_id) # rows) b =
     restore_subscriptions rows
       (b\<lparr>b_router := Router.subscribe client_id topic_filter qos sub_id (b_router b)\<rparr>)"

fun restore_in_flight :: "(rstr \<times> u16 \<times> rstr \<times> bytes \<times> u8) list \<Rightarrow> broker \<Rightarrow> broker" where
  "restore_in_flight [] b = b"
| "restore_in_flight ((client_id, packet_id, topic, payload, qos) # rows) b =
     restore_in_flight rows
       (case map_of (b_sessions b) client_id of
          None \<Rightarrow> b
        | Some i \<Rightarrow> on_session i (add_in_flight (b_clock b) packet_id topic payload qos) b)"

text \<open>The three queries may fail one by one; a failure is logged and its part left out.\<close>

definition restore_sessions_from_db :: "bool \<times> bool \<times> bool \<Rightarrow> database \<Rightarrow> broker \<Rightarrow> broker" where
  "restore_sessions_from_db oks db b =
     (let (ok1, ok2, ok3) = oks;
          b = (case load_all_sessions ok1 db of Some rows \<Rightarrow> restore_sessions rows b | None \<Rightarrow> b);
          b = (case load_all_subscriptions ok2 db of Some rows \<Rightarrow> restore_subscriptions rows b | None \<Rightarrow> b) in
      case load_all_in_flight ok3 db of Some rows \<Rightarrow> restore_in_flight rows b | None \<Rightarrow> b)"

fun shutdown_sessions :: "(rstr \<times> nat) list \<Rightarrow> broker \<Rightarrow> broker" where
  "shutdown_sessions [] b = b"
| "shutdown_sessions ((client_id, i) # sessions) b =
     shutdown_sessions sessions
       (on_session i (send_buf (encode_packet (Disconnect
          \<lparr>d_reason_code = 0, d_properties = disconnect_properties_default\<rparr>))) b)"

definition graceful_shutdown :: "broker \<Rightarrow> broker" where
  "graceful_shutdown b = shutdown_sessions (b_sessions b) b"

end
