(* ===== verification/Delivery.thy ===== *)
theory Delivery imports Broker Codec begin

text \<open>
  The broker's invariant, and what \<open>route_publish\<close> puts on each client's channel: the routes of the
  table, one message per route, in the bytes of the codec.
\<close>

section \<open>The invariant\<close>

text \<open>
  The trie is well formed, and every entry of the session map points to a session of that client.
  In particular two clients never share a session.
\<close>

definition broker_ok :: "broker \<Rightarrow> bool" where
  "broker_ok b \<longleftrightarrow> ok_node (b_router b) \<and> distinct_keys (b_sessions b) \<and>
     (\<forall>(c, i) \<in> set (b_sessions b). i < length (b_heap b) \<and> cs_client_id (session_at b i) = c)"

text \<open>Client \<open>c\<close> is connected through session \<open>i\<close>.\<close>

definition live :: "broker \<Rightarrow> rstr \<Rightarrow> nat \<Rightarrow> bool" where
  "live b c i \<longleftrightarrow> map_of (b_sessions b) c = Some i"

lemma live_ok: "broker_ok b \<Longrightarrow> live b c i \<Longrightarrow> i < length (b_heap b) \<and> cs_client_id (session_at b i) = c"
  by (auto simp: broker_ok_def live_def dest!: map_of_SomeD)

lemma live_unique: "broker_ok b \<Longrightarrow> live b c i \<Longrightarrow> live b c' i \<Longrightarrow> c = c'"
  using live_ok by blast

lemma broker_ok_new: "broker_ok (new_broker auth)"
  by (simp add: broker_ok_def new_broker_def)

lemma session_at_on_session:
  "i < length (b_heap b) \<Longrightarrow> session_at (on_session i f b) j = (if i = j then f (session_at b i) else session_at b j)"
  by (simp add: session_at_def on_session_def nth_list_update)

lemma on_session_fields [simp]:
  "b_router (on_session i f b) = b_router b" "b_sessions (on_session i f b) = b_sessions b"
  "b_auth (on_session i f b) = b_auth b" "b_clock (on_session i f b) = b_clock b"
  "b_shared_group_counters (on_session i f b) = b_shared_group_counters b"
  "b_tasks (on_session i f b) = b_tasks b" "length (b_heap (on_session i f b)) = length (b_heap b)"
  "b_bridge_sender (on_session i f b) = b_bridge_sender b"
  by (simp_all add: on_session_def)

lemma spawn_fields [simp]:
  "b_router (spawn t b) = b_router b" "b_sessions (spawn t b) = b_sessions b" "b_auth (spawn t b) = b_auth b"
  "b_clock (spawn t b) = b_clock b" "b_shared_group_counters (spawn t b) = b_shared_group_counters b"
  "b_heap (spawn t b) = b_heap b" "session_at (spawn t b) i = session_at b i"
  "b_tasks (spawn t b) = b_tasks b @ [t]" "b_bridge_sender (spawn t b) = b_bridge_sender b"
  by (simp_all add: spawn_def session_at_def)

lemma broker_ok_spawn [simp]: "broker_ok (spawn t b) = broker_ok b"
  by (simp add: broker_ok_def)

lemma broker_ok_on_session:
  assumes "broker_ok b" and "\<And>s. cs_client_id (f s) = cs_client_id s"
  shows "broker_ok (on_session i f b)"
proof (cases "i < length (b_heap b)")
  case True
  with assms show ?thesis by (fastforce simp: broker_ok_def session_at_on_session)
next
  case False
  then have "on_session i f b = b" by (cases b) (simp add: on_session_def list_update_beyond)
  with assms show ?thesis by simp
qed

lemma broker_ok_router:
  "broker_ok b \<Longrightarrow> ok_node r \<Longrightarrow> broker_ok (b\<lparr>b_router := r\<rparr>)"
  by (simp add: broker_ok_def session_at_def)

lemma broker_ok_same:
  "b_router b' = b_router b \<Longrightarrow> b_sessions b' = b_sessions b \<Longrightarrow> b_heap b' = b_heap b \<Longrightarrow>
    broker_ok b' = broker_ok b"
  by (simp add: broker_ok_def session_at_def)

section \<open>One message\<close>

definition deliver :: "nat \<Rightarrow> rstr \<Rightarrow> bytes \<Rightarrow> u8 \<Rightarrow> bool \<Rightarrow> u32 option \<Rightarrow> client_session \<Rightarrow> client_session" where
  "deliver now topic payload qos retain sid s = snd (session_publish now topic payload qos retain sid s)"

lemma session_fields [simp]:
  "cs_client_id (add_in_flight now p t d q s) = cs_client_id s" "cs_receiver (add_in_flight now p t d q s) = cs_receiver s"
  "cs_sent (add_in_flight now p t d q s) = cs_sent s"
  "cs_next_packet_id (add_in_flight now p t d q s) = cs_next_packet_id s"
  "cs_client_id (send_buf buf s) = cs_client_id s" "cs_receiver (send_buf buf s) = cs_receiver s"
  "cs_next_packet_id (send_buf buf s) = cs_next_packet_id s" "cs_in_flight (send_buf buf s) = cs_in_flight s"
  by (simp_all add: add_in_flight_def send_buf_def)

lemma get_next_fields:
  "get_next_packet_id s = (pid, s') \<Longrightarrow> cs_client_id s' = cs_client_id s \<and> cs_receiver s' = cs_receiver s
    \<and> cs_sent s' = cs_sent s \<and> cs_in_flight s' = cs_in_flight s"
  by (auto simp: get_next_packet_id_def Let_def split: if_splits)

lemma deliver_fields [simp]:
  "cs_client_id (deliver now topic payload qos retain sid s) = cs_client_id s"
  "cs_receiver (deliver now topic payload qos retain sid s) = cs_receiver s"
  by (auto simp: deliver_def session_publish_def Let_def split: prod.split dest: get_next_fields)

lemma packet_ids_cong: "cs_next_packet_id s = cs_next_packet_id s' \<Longrightarrow> packet_ids n s = packet_ids n s'"
  by (simp add: packet_ids_spec)

text \<open>The identifiers of the next \<open>n\<close> messages.\<close>

definition delivery_ids :: "u8 \<Rightarrow> nat \<Rightarrow> client_session \<Rightarrow> u16 option list" where
  "delivery_ids qos n s = (if 0 < qos then map Some (packet_ids n s) else replicate n None)"

definition publish_bytes :: "rstr \<Rightarrow> bytes \<Rightarrow> u8 \<Rightarrow> bool \<Rightarrow> u32 option \<times> u16 option \<Rightarrow> bytes" where
  "publish_bytes topic payload qos retain ids =
     encode_packet (publish_packet topic payload qos retain (snd ids) (fst ids))"

lemma deliver_sent:
  assumes "cs_receiver s"
  shows "\<exists>pid. cs_sent (deliver now topic payload qos retain sid s) =
      cs_sent s @ [publish_bytes topic payload qos retain (sid, pid)] \<and>
    delivery_ids qos (Suc n) s = pid # delivery_ids qos n (deliver now topic payload qos retain sid s)"
proof (cases "0 < qos")
  case True
  obtain pid s' where g: "get_next_packet_id s = (pid, s')" by (cases "get_next_packet_id s")
  have "packet_ids n (deliver now topic payload qos retain sid s) = packet_ids n s'"
    by (rule packet_ids_cong) (use True g in \<open>simp add: deliver_def session_publish_def\<close>)
  with True g get_next_fields [OF g] assms show ?thesis
    by (intro exI [of _ "Some pid"])
      (simp add: deliver_def session_publish_def delivery_ids_def publish_bytes_def send_buf_def)
next
  case False
  with assms show ?thesis
    by (intro exI [of _ None])
      (simp add: deliver_def session_publish_def delivery_ids_def publish_bytes_def send_buf_def)
qed

lemma fold_deliver_sent:
  assumes "cs_receiver s"
  shows "cs_sent (fold (deliver now topic payload qos retain) sids s) =
    cs_sent s @ map (publish_bytes topic payload qos retain) (zip sids (delivery_ids qos (length sids) s))"
  using assms
proof (induction sids arbitrary: s)
  case (Cons sid sids)
  obtain pid where p: "cs_sent (deliver now topic payload qos retain sid s) =
      cs_sent s @ [publish_bytes topic payload qos retain (sid, pid)]"
    "delivery_ids qos (Suc (length sids)) s = pid # delivery_ids qos (length sids) (deliver now topic payload qos retain sid s)"
    using deliver_sent [OF Cons.prems] by blast
  with Cons.IH [of "deliver now topic payload qos retain sid s"] Cons.prems show ?case by simp
qed simp

lemma length_packet_ids [simp]: "length (packet_ids n s) = n"
  by (simp add: packet_ids_spec)

lemma length_delivery_ids [simp]: "length (delivery_ids qos n s) = n"
  by (simp add: delivery_ids_def)

section \<open>Sending to one client changes that client's session only\<close>

lemma send_publish_spec:
  fixes c topic :: rstr and payload :: bytes and qos :: u8 and retain :: bool and sid :: "u32 option"
  assumes ok: "broker_ok b"
  defines "b' \<equiv> send_publish_to_client c topic payload qos retain sid b"
  shows "broker_ok b'" and "b_sessions b' = b_sessions b" and "b_router b' = b_router b"
    and "b_clock b' = b_clock b" and "b_shared_group_counters b' = b_shared_group_counters b"
    and "b_auth b' = b_auth b" and "b_bridge_sender b' = b_bridge_sender b"
    and "live b c' i \<Longrightarrow> session_at b' i =
      (if c = c' then deliver (b_clock b) topic payload qos retain sid (session_at b i) else session_at b i)"
    and "(\<And>c'. \<not> live b c' i) \<Longrightarrow> session_at b' i = session_at b i"
proof -
  have "broker_ok b' \<and> b_sessions b' = b_sessions b \<and> b_router b' = b_router b \<and> b_clock b' = b_clock b
    \<and> b_shared_group_counters b' = b_shared_group_counters b \<and> b_auth b' = b_auth b
    \<and> b_bridge_sender b' = b_bridge_sender b
    \<and> (live b c' i \<longrightarrow> session_at b' i =
        (if c = c' then deliver (b_clock b) topic payload qos retain sid (session_at b i) else session_at b i))
    \<and> ((\<forall>c'. \<not> live b c' i) \<longrightarrow> session_at b' i = session_at b i)" for c' i
  proof (cases "map_of (b_sessions b) c")
    case None
    then show ?thesis using ok by (auto simp: b'_def send_publish_to_client_def live_def)
  next
    case (Some k)
    then have k: "live b c k" by (simp add: live_def)
    note k_ok = live_ok [OF ok k]
    obtain pid s where sp: "session_publish (b_clock b) topic payload qos retain sid (session_at b k) = (pid, s)"
      by (cases "session_publish (b_clock b) topic payload qos retain sid (session_at b k)")
    then have s: "s = deliver (b_clock b) topic payload qos retain sid (session_at b k)"
      by (simp add: deliver_def)
    define b1 where "b1 = (case pid of None \<Rightarrow> b | Some p \<Rightarrow> spawn (SaveInFlight c p topic payload qos) b)"
    have b1: "broker_ok b1" "b_sessions b1 = b_sessions b" "b_router b1 = b_router b" "b_clock b1 = b_clock b"
      "b_shared_group_counters b1 = b_shared_group_counters b" "b_heap b1 = b_heap b" "b_auth b1 = b_auth b"
      "b_bridge_sender b1 = b_bridge_sender b" "\<And>j. session_at b1 j = session_at b j"
      using ok by (auto simp: b1_def session_at_def split: option.split)
    have b': "b' = on_session k (\<lambda>_. s) b1"
      by (simp add: b'_def send_publish_to_client_def Some sp Let_def b1_def)
    have at: "session_at b' j = (if k = j then s else session_at b j)" for j
      unfolding b' by (subst session_at_on_session) (use k_ok b1 in auto)
    have "cs_client_id s = c" using k_ok s by simp
    then have "broker_ok b'"
      using b1 at k_ok ok unfolding broker_ok_def by (fastforce simp: b')
    with b1 at s k show ?thesis
      by (auto simp: b' live_def dest: live_unique [OF ok, unfolded live_def])
  qed
  then show "broker_ok b'" "b_sessions b' = b_sessions b" "b_router b' = b_router b" "b_clock b' = b_clock b"
    "b_shared_group_counters b' = b_shared_group_counters b" "b_auth b' = b_auth b"
    "b_bridge_sender b' = b_bridge_sender b"
    "live b c' i \<Longrightarrow> session_at b' i =
      (if c = c' then deliver (b_clock b) topic payload qos retain sid (session_at b i) else session_at b i)"
    "(\<And>c'. \<not> live b c' i) \<Longrightarrow> session_at b' i = session_at b i"
    by blast+
qed

section \<open>The targets of a publication\<close>

type_synonym target = "rstr \<times> u32 option"

definition target_of :: "subscription_info \<Rightarrow> target" where
  "target_of info = (si_client_id info, si_subscription_identifier info)"

text \<open>The member each group's counter selects.\<close>

fun picks :: "(rstr \<times> subscription_info list) list \<Rightarrow> (rstr \<times> u64) list \<Rightarrow> target list" where
  "picks [] counters = []"
| "picks ((grp, subs) # groups) counters =
     (if subs = [] then picks groups counters
      else
        let index = (case map_of counters grp of None \<Rightarrow> 0 | Some n \<Rightarrow> n) in
        target_of (subs ! (unat index mod length subs)) # picks groups (AList.update grp (index + 1) counters))"

definition route_targets :: "broker \<Rightarrow> rstr \<Rightarrow> target list" where
  "route_targets b topic =
     (let route = match_topic topic (b_router b) in
      map target_of (normal route) @ picks (shared route) (b_shared_group_counters b))"

definition sids_for :: "rstr \<Rightarrow> target list \<Rightarrow> u32 option list" where
  "sids_for c targets = map snd (filter (\<lambda>t. fst t = c) targets)"

lemma sids_for_simps [simp]:
  "sids_for c [] = []"
  "sids_for c (t # ts) = (if fst t = c then [snd t] else []) @ sids_for c ts"
  "sids_for c (ts @ us) = sids_for c ts @ sids_for c us"
  by (simp_all add: sids_for_def)

lemma fst_target [simp]: "fst (target_of info) = si_client_id info" "snd (target_of info) = si_subscription_identifier info"
  by (simp_all add: target_of_def)

lemma route_normal_spec:
  fixes subs :: "subscription_info list" and topic :: rstr and payload :: bytes and qos :: u8 and retain :: bool
  assumes "broker_ok b"
  defines "b' \<equiv> route_normal subs topic payload qos retain b"
  shows "broker_ok b' \<and> b_sessions b' = b_sessions b \<and> b_router b' = b_router b \<and> b_clock b' = b_clock b
    \<and> b_shared_group_counters b' = b_shared_group_counters b \<and> b_auth b' = b_auth b
    \<and> b_bridge_sender b' = b_bridge_sender b
    \<and> (live b c i \<longrightarrow> session_at b' i =
        fold (deliver (b_clock b) topic payload qos retain) (sids_for c (map target_of subs)) (session_at b i))
    \<and> ((\<forall>c'. \<not> live b c' i) \<longrightarrow> session_at b' i = session_at b i)"
  using assms(1) unfolding b'_def
proof (induction subs arbitrary: b)
  case (Cons sub subs)
  let ?b = "send_publish_to_client (si_client_id sub) topic payload qos retain (si_subscription_identifier sub) b"
  note step = send_publish_spec [OF Cons.prems, where c = "si_client_id sub" and topic = topic and payload = payload and
      qos = qos and retain = retain and sid = "si_subscription_identifier sub"]
  from Cons.IH [OF step(1)] step(2-7) step(8) [where c' = c and i = i] step(9) [of i] show ?case
    by (auto simp: live_def)
qed simp

lemma next_index_fields:
  "next_index g b = (index, b') \<Longrightarrow> index = (case map_of (b_shared_group_counters b) g of None \<Rightarrow> 0 | Some n \<Rightarrow> n)
    \<and> b' = b\<lparr>b_shared_group_counters := AList.update g (index + 1) (b_shared_group_counters b)\<rparr>"
  by (auto simp: next_index_def Let_def)

lemma route_shared_spec:
  fixes groups :: "(rstr \<times> subscription_info list) list"
    and topic :: rstr and payload :: bytes and qos :: u8 and retain :: bool
  assumes "broker_ok b"
  defines "b' \<equiv> route_shared groups topic payload qos retain b"
  shows "broker_ok b' \<and> b_sessions b' = b_sessions b \<and> b_router b' = b_router b \<and> b_clock b' = b_clock b
    \<and> b_auth b' = b_auth b \<and> b_bridge_sender b' = b_bridge_sender b
    \<and> (live b c i \<longrightarrow> session_at b' i =
        fold (deliver (b_clock b) topic payload qos retain)
          (sids_for c (picks groups (b_shared_group_counters b))) (session_at b i))
    \<and> ((\<forall>c'. \<not> live b c' i) \<longrightarrow> session_at b' i = session_at b i)"
  using assms(1) unfolding b'_def
proof (induction groups arbitrary: b)
  case (Cons gs groups)
  obtain g subs where gs: "gs = (g, subs)" by (cases gs)
  show ?case
  proof (cases "subs = []")
    case False
    obtain index b1 where n: "next_index g b = (index, b1)" by (cases "next_index g b")
    note nf = next_index_fields [OF n]
    have ok1: "broker_ok b1" using Cons.prems nf broker_ok_same [of b1 b] by simp
    let ?sub = "subs ! (unat index mod length subs)"
    note step = send_publish_spec [OF ok1, where c = "si_client_id ?sub" and topic = topic and payload = payload and
        qos = qos and retain = retain and sid = "si_subscription_identifier ?sub"]
    have at: "session_at b1 i = session_at b i" using nf by (simp add: session_at_def)
    have lv: "live b1 c i = live b c i" for c using nf by (simp add: live_def)
    from Cons.IH [OF step(1)] step(2-7) step(8) [where c' = c and i = i] step(9) [of i] nf lv at False n show ?thesis
      by (auto simp: gs live_def Let_def)
  qed (use Cons gs in simp)
qed simp

lemma route_publish_spec:
  fixes from_client topic :: rstr and payload :: bytes and qos :: u8 and retain :: bool
  assumes "broker_ok b"
  defines "b' \<equiv> route_publish from_client topic payload qos retain b"
  shows "broker_ok b'" and "b_sessions b' = b_sessions b" and "b_router b' = b_router b" and "b_clock b' = b_clock b"
    and "b_auth b' = b_auth b"
    and "b_bridge_sender b' = (if from_client = bridge_client then b_bridge_sender b
      else map_option (\<lambda>tx. tx @ [(topic, payload)]) (b_bridge_sender b))"
    and "live b c i \<Longrightarrow> session_at b' i = fold (deliver (b_clock b) topic payload qos retain)
        (sids_for c (route_targets b topic)) (session_at b i)"
    and "(\<And>c'. \<not> live b c' i) \<Longrightarrow> session_at b' i = session_at b i"
proof -
  define b1 where "b1 = (let b = b\<lparr>b_messages_published := b_messages_published b + 1\<rparr> in
    if from_client \<noteq> bridge_client then
      b\<lparr>b_bridge_sender := map_option (\<lambda>tx. tx @ [(topic, payload)]) (b_bridge_sender b)\<rparr>
    else b)"
  have f: "b_sessions b1 = b_sessions b" "b_router b1 = b_router b" "b_clock b1 = b_clock b" "b_heap b1 = b_heap b"
    "b_shared_group_counters b1 = b_shared_group_counters b" "b_auth b1 = b_auth b"
    "b_bridge_sender b1 = (if from_client = bridge_client then b_bridge_sender b
      else map_option (\<lambda>tx. tx @ [(topic, payload)]) (b_bridge_sender b))"
    by (simp_all add: b1_def Let_def)
  have ok1: "broker_ok b1" using assms(1) broker_ok_same [of b1 b] f by simp
  have at: "session_at b1 i = session_at b i" "live b1 c i = live b c i" for c i
    using f by (simp_all add: session_at_def live_def)
  let ?route = "match_topic topic (b_router b)"
  have b': "b' = route_shared (shared ?route) topic payload qos retain
      (route_normal (normal ?route) topic payload qos retain b1)"
    by (simp add: b'_def route_publish_def b1_def Let_def)
  note n = route_normal_spec [OF ok1, where subs = "normal ?route" and topic = topic and payload = payload and
      qos = qos and retain = retain]
  note s = route_shared_spec [OF n [THEN conjunct1], where groups = "shared ?route" and topic = topic and
      payload = payload and qos = qos and retain = retain]
  show "broker_ok b'" "b_sessions b' = b_sessions b" "b_router b' = b_router b" "b_clock b' = b_clock b"
    "b_auth b' = b_auth b"
    "b_bridge_sender b' = (if from_client = bridge_client then b_bridge_sender b
      else map_option (\<lambda>tx. tx @ [(topic, payload)]) (b_bridge_sender b))"
    using n s f unfolding b' by auto
  show "session_at b' i = fold (deliver (b_clock b) topic payload qos retain)
        (sids_for c (route_targets b topic)) (session_at b i)" if "live b c i"
    using n [where c = c and i = i] s [where c = c and i = i] f at that unfolding b'
    by (auto simp: route_targets_def Let_def live_def)
  show "session_at b' i = session_at b i" if "\<And>c'. \<not> live b c' i"
    using n [where i = i] s [where i = i] f at that unfolding b' by (auto simp: live_def)
qed

end
