(* ===== verification/Broker_Properties.thy ===== *)
theory Broker_Properties imports Delivery begin

text \<open>
  The properties of \<open>src/session.rs\<close>: who receives a publication and in which bytes, packet
  identifiers, and the round-robin of shared groups.
\<close>

section \<open>The bytes of a delivery\<close>

lemma publish_packet_wf:
  assumes "str_ok topic" and "qos \<le> 2" and "pid \<noteq> None \<longleftrightarrow> 0 < qos" and "pred_option varint_ok sid"
    and "length payload + 2 ^ 17 \<le> 2 ^ 28"
  shows "wf_packet (publish_packet topic payload qos retain pid sid)"
proof -
  have wf: "wf_fields (publish_packet topic payload qos retain pid sid)"
    using assms by (simp add: publish_packet_def wf_publish_def wf_publish_properties_def
        publish_properties_default_def user_properties_ok_def)
  let ?props = "publish_properties_default\<lparr>pp_subscription_identifier := sid\<rparr>"
  have "length (encode_varint v) \<le> 4" if "varint_ok v" for v
    using that length_encode_varint_le [of 4 v] by (simp add: varint_ok_def)
  then have body: "length (publish_properties_body ?props) \<le> 5"
    using assms(4) by (cases sid) (auto simp: publish_properties_body_def publish_properties_default_def opt_prop_def)
  then have "unat (of_nat (length (publish_properties_body ?props)) :: u32) < 128"
    by (subst unat_of_nat) simp
  with body have props: "length (publish_properties_encode ?props) \<le> 6"
    by (simp add: publish_properties_encode_def encode_properties_def Let_def encode_varint_small)
  have "length (case pid of None \<Rightarrow> [] | Some x \<Rightarrow> write_u16 x) \<le> 2" by (simp split: option.split)
  moreover have "length topic < 2 ^ 16" using assms(1) by (simp add: str_ok_def)
  ultimately show ?thesis
    using wf props assms(5) by (simp add: wf_packet_def publish_packet_def encode_publish_def)
qed

section \<open>Routes\<close>

lemma picks_map:
  assumes "distinct_keys groups" and "\<forall>(g, subs) \<in> set groups. subs \<noteq> []"
  shows "picks groups counters = map (\<lambda>(g, subs). target_of (subs !
    (unat (case map_of counters g of None \<Rightarrow> 0 | Some n \<Rightarrow> n) mod length subs))) groups"
  using assms
proof (induction groups arbitrary: counters)
  case (Cons gs groups)
  obtain g subs where gs: "gs = (g, subs)" by (cases gs)
  have "picks groups (AList.update g n counters) = picks groups counters" for n
  proof -
    have "g' \<noteq> g" if "(g', subs') \<in> set groups" for g' subs' using Cons.prems(1) that gs by force
    then show ?thesis using Cons by (auto simp: update_conv' intro!: map_cong)
  qed
  with Cons gs show ?case by (simp add: Let_def)
qed simp

lemma group_list:
  assumes "ok_node root" and "(g, subs) \<in> set (shared (match_topic topic root))"
  shows "mset subs = picked (segments topic) (Some g) (table root)" and "subs \<noteq> []"
proof -
  from match_topic_spec [OF assms(1), of topic "Some g"]
  have r: "routed (match_topic topic root) (Some g) = picked (segments topic) (Some g) (table root)"
    and ok: "ok_result (match_topic topic root)" by auto
  have "map_of (shared (match_topic topic root)) g = Some subs"
    using ok assms(2) by (simp add: ok_result_def)
  with r show "mset subs = picked (segments topic) (Some g) (table root)" by (simp add: routed_def or_nil_def)
  show "subs \<noteq> []" using ok assms(2) by (auto simp: ok_result_def)
qed

lemma groups_of_match:
  assumes "ok_node root"
  shows "set (map fst (shared (match_topic topic root))) =
    {g. picked (segments topic) (Some g) (table root) \<noteq> {#}}" (is "?L = ?R")
proof -
  from match_topic_spec [OF assms]
  have r: "\<And>g. routed (match_topic topic root) (Some g) = picked (segments topic) (Some g) (table root)" by auto
  have "g \<in> ?L \<longleftrightarrow> g \<in> ?R" for g
  proof
    assume "g \<in> ?L"
    then obtain subs where "(g, subs) \<in> set (shared (match_topic topic root))" by auto
    from group_list [OF assms this] show "g \<in> ?R" by auto
  next
    assume "g \<in> ?R"
    with r [of g] have "map_of (shared (match_topic topic root)) g \<noteq> None"
      by (auto simp: routed_def or_nil_def split: option.splits)
    then show "g \<in> ?L" by (simp add: map_of_eq_None_iff)
  qed
  then show ?thesis by blast
qed

section \<open>A broker with one client\<close>

text \<open>Client \<open>c\<close>, connected through session 0 and subscribed to \<open>a/#\<close> with QoS 0.\<close>

definition demo_broker :: broker where
  "demo_broker =
     (let (i, b) = alloc_session (new_session 0 (lit ''c'') None True 0 0 True) (new_broker auth_closed) in
      broker_subscribe (lit ''c'') (lit ''a/#'') 0 None (register_session i b))"

lemma demo_broker_facts:
  "broker_ok demo_broker" "live demo_broker (lit ''c'') 0" "cs_receiver (session_at demo_broker 0)"
  "sids_for (lit ''c'') (route_targets demo_broker (lit ''a/b'')) = [None]"
  "cs_sent (session_at demo_broker 0) = []" "cs_next_packet_id (session_at demo_broker 0) = 1"
proof -
  note defs = demo_broker_def alloc_session_def new_session_def new_broker_def register_session_def
    session_at_def broker_subscribe_def spawn_def Let_def
  have r: "b_router demo_broker = Router.subscribe (lit ''c'') (lit ''a/#'') 0 None empty_node"
    by (simp add: defs)
  then have "ok_node (b_router demo_broker)" by (simp add: trie.ok_sub)
  then show "broker_ok demo_broker" by (simp add: broker_ok_def) (simp add: defs)
  show "live demo_broker (lit ''c'') 0" by (simp add: live_def defs)
  show "cs_receiver (session_at demo_broker 0)" "cs_sent (session_at demo_broker 0) = []"
    "cs_next_packet_id (session_at demo_broker 0) = 1"
    by (simp_all add: defs)
  have "match_topic (lit ''a/b'') (b_router demo_broker) =
      \<lparr>normal = [\<lparr>si_client_id = lit ''c'', si_qos = 0, si_subscription_identifier = None\<rparr>], shared = []\<rparr>"
    unfolding r
    by (simp add: Router.subscribe_def parse_shared_subscription_def starts_with_def segments_eval
        add_subscription_def empty_node_def or_empty_def match_topic_def visit_def
        collect_node_subscriptions_def route_result_default_def)
  then show "sids_for (lit ''c'') (route_targets demo_broker (lit ''a/b'')) = [None]"
    by (simp add: route_targets_def Let_def target_of_def)
qed

section \<open>Properties of a publication\<close>

text \<open>
  Who receives a publication, and what. When \<open>route_publish\<close> handles a message, the channel of
  a connected client gets one buffer for each target of the route that names the client, in the
  order of the route and after what was there; the buffer is the codec's encoding of a PUBLISH with
  the publisher's topic, payload, QoS and retain flag, the identifier of that subscription and,
  when the QoS is above 0, the session's next packet identifier. A client that is no target gets
  nothing.
\<close>

theorem route_publish_delivers:
  fixes topic :: rstr
  assumes "broker_ok b" and "live b c i" and "cs_receiver (session_at b i)"
  defines "sids \<equiv> sids_for c (route_targets b topic)"
  shows "cs_sent (session_at (route_publish from_client topic payload qos retain b) i) =
    cs_sent (session_at b i) @ map (publish_bytes topic payload qos retain)
      (zip sids (delivery_ids qos (length sids) (session_at b i)))"
  unfolding route_publish_spec(7) [OF assms(1,2)] sids_def by (rule fold_deliver_sent [OF assms(3)])

theorem route_publish_delivers_witness:
  "cs_sent (session_at (route_publish (lit ''p'') (lit ''a/b'') [7] 1 False demo_broker) 0) =
     [publish_bytes (lit ''a/b'') [7] 1 False (None, Some 1)]"
proof -
  have "delivery_ids 1 (Suc 0) (session_at demo_broker 0) = [Some 1]"
    by (simp add: delivery_ids_def packet_ids_spec first_id_def demo_broker_facts(6))
  with route_publish_delivers [OF demo_broker_facts(1-3), of "lit ''p''" "lit ''a/b''" "[7]" 1 False]
  show ?thesis by (simp add: demo_broker_facts(4,5) del: lit_simps)
qed

lemma route_targets_spec:
  assumes "ok_node (b_router b)"
  shows "\<exists>direct chosen groups. route_targets b topic = direct @ chosen \<and>
    mset direct = image_mset target_of (picked (segments topic) None (table (b_router b))) \<and>
    distinct groups \<and> set groups = {g. picked (segments topic) (Some g) (table (b_router b)) \<noteq> {#}} \<and>
    list_all2 (\<lambda>g t. t \<in># image_mset target_of (picked (segments topic) (Some g) (table (b_router b)))) groups chosen"
proof -
  let ?r = "match_topic topic (b_router b)"
  note spec = match_topic_spec [OF assms, of topic]
  from spec [of None] have n: "mset (normal ?r) = picked (segments topic) None (table (b_router b))"
    by (simp add: routed_def)
  from spec have d: "distinct_keys (shared ?r)" and ne: "\<forall>(g, subs) \<in> set (shared ?r). subs \<noteq> []"
    by (auto simp: ok_result_def)
  let ?sel = "\<lambda>(g, subs). target_of (subs !
    (unat (case map_of (b_shared_group_counters b) g of None \<Rightarrow> 0 | Some n \<Rightarrow> n) mod length subs))"
  have sel: "?sel gs \<in># image_mset target_of (picked (segments topic) (Some (fst gs)) (table (b_router b)))"
    if "gs \<in> set (shared ?r)" for gs
  proof -
    obtain g subs where gs: "gs = (g, subs)" by (cases gs)
    note gl = group_list [OF assms that [unfolded gs]]
    have "subs ! (k mod length subs) \<in># picked (segments topic) (Some g) (table (b_router b))" for k
      unfolding gl(1) [symmetric] using gl(2) by simp
    then show ?thesis by (auto simp: gs)
  qed
  have "list_all2 (\<lambda>g t. t \<in># image_mset target_of (picked (segments topic) (Some g) (table (b_router b))))
      (map fst (shared ?r)) (map ?sel (shared ?r))"
    unfolding list_all2_map1 list_all2_map2 list_all2_same using sel by blast
  then show ?thesis
    using n d groups_of_match [OF assms] picks_map [OF d ne]
    by (intro exI [of _ "map target_of (normal ?r)"] exI [of _ "map ?sel (shared ?r)"] exI [of _ "map fst (shared ?r)"])
      (simp add: route_targets_def Let_def)
qed

lemma route_targets_entry:
  assumes "ok_node (b_router b)" and "t \<in> set (route_targets b topic)"
  shows "\<exists>e \<in># table (b_router b). t = target_of (snd (snd e))"
proof -
  obtain direct chosen groups where r: "route_targets b topic = direct @ chosen"
    and d: "mset direct = image_mset target_of (picked (segments topic) None (table (b_router b)))"
    and c: "list_all2 (\<lambda>g t. t \<in># image_mset target_of (picked (segments topic) (Some g) (table (b_router b)))) groups chosen"
    using route_targets_spec [OF assms(1), of topic] by blast
  have "\<exists>g. t \<in># image_mset target_of (picked (segments topic) g (table (b_router b)))"
  proof (cases "t \<in> set direct")
    case True
    then have "t \<in># mset direct" by simp
    with d show ?thesis by metis
  next
    case False
    with assms(2) r have "t \<in> set chosen" by simp
    then obtain k where k: "k < length chosen" "t = chosen ! k" by (auto simp: in_set_conv_nth)
    from list_all2_nthD2 [OF c k(1)] k(2) show ?thesis by blast
  qed
  then show ?thesis by (force simp: picked_def)
qed

text \<open>
  The targets of a publication. They are the client of every normal subscription whose filter
  matches the topic, each subscription once, and one member for each shared group that has a
  matching subscription; no group is left out and none is served twice.
\<close>

theorem route_targets_exact:
  assumes "ok_node (b_router b)"
  shows "\<exists>direct chosen groups. route_targets b topic = direct @ chosen \<and>
    mset direct = image_mset target_of (picked (segments topic) None (table (b_router b))) \<and>
    distinct groups \<and> set groups = {g. picked (segments topic) (Some g) (table (b_router b)) \<noteq> {#}} \<and>
    list_all2 (\<lambda>g t. t \<in># image_mset target_of (picked (segments topic) (Some g) (table (b_router b)))) groups chosen"
  using assms by (rule route_targets_spec)

text \<open>
  What is delivered can be read. A PUBLISH built by the broker is decoded back, by the codec, to
  the same topic, payload, QoS, identifier and properties, whatever follows it on the connection,
  provided the topic is a string of the wire, the QoS is 0, 1 or 2 and the payload leaves room for
  the header in the four-byte length.
\<close>

theorem delivered_bytes_decode:
  assumes "str_ok topic" and "qos \<le> 2" and "pid \<noteq> None \<longleftrightarrow> 0 < qos" and "pred_option varint_ok sid"
    and "length payload + 2 ^ 17 \<le> 2 ^ 28"
  shows "decode_packet (publish_bytes topic payload qos retain (sid, pid) @ rest) =
    Ok (publish_packet topic payload qos retain pid sid, length (publish_bytes topic payload qos retain (sid, pid)))"
  using packet_roundtrip [OF publish_packet_wf [OF assms]] by (simp add: publish_bytes_def)

theorem delivered_bytes_decode_witness:
  "\<exists>n. decode_packet (publish_bytes (lit ''a'') [1, 2] 1 False (Some 5, Some 9)) =
    Ok (publish_packet (lit ''a'') [1, 2] 1 False (Some 9) (Some 5), n)"
  using delivered_bytes_decode [of "lit ''a''" 1 "Some 9" "Some 5" "[1, 2]" False "[]"]
  by (simp add: str_ok_def utf8_valid_ascii varint_ok_def)

theorem route_targets_exact_witness:
  "\<exists>direct chosen. route_targets demo_broker (lit ''a/b'') = direct @ chosen \<and>
    mset direct = image_mset target_of (picked (segments (lit ''a/b'')) None (table (b_router demo_broker)))"
proof -
  have "ok_node (b_router demo_broker)" using demo_broker_facts(1) by (simp add: broker_ok_def)
  from route_targets_exact [OF this, of "lit ''a/b''"] show ?thesis
    by - (elim exE conjE, intro exI conjI, assumption+)
qed

section \<open>Packet identifiers\<close>

text \<open>
  C30: packet identifiers. Whatever the state of a session's counter, none of the identifiers that
  \<open>get_next_packet_id\<close> gives is 0, and any 65535 calls in a row give 65535 different ones: the
  wrap-around of the 16-bit counter skips the reserved 0 and repeats no identifier early.
\<close>

theorem packet_identifiers:
  "0 \<notin> set (packet_ids n s) \<and> distinct (packet_ids 65535 s)"
  using packet_ids_nonzero packet_ids_distinct by blast

section \<open>Round-robin\<close>

definition counter_of :: "rstr \<Rightarrow> broker \<Rightarrow> u64" where
  "counter_of g b = (case map_of (b_shared_group_counters b) g of None \<Rightarrow> 0 | Some n \<Rightarrow> n)"

lemma counter_next: "counter_of g (snd (next_index g' b)) = (if g = g' then counter_of g b + 1 else counter_of g b)"
  by (simp add: next_index_def counter_of_def update_conv' Let_def)

lemma counter_same: "b_shared_group_counters b' = b_shared_group_counters b \<Longrightarrow> counter_of g b' = counter_of g b"
  by (simp add: counter_of_def)

lemma counter_route_shared:
  assumes "broker_ok b" and "distinct_keys groups" and "\<forall>(g, subs) \<in> set groups. subs \<noteq> []"
  shows "counter_of g (route_shared groups topic payload qos retain b) =
    (if g \<in> fst ` set groups then counter_of g b + 1 else counter_of g b)"
  using assms
proof (induction groups arbitrary: b)
  case (Cons gs groups)
  obtain g' subs where gs: "gs = (g', subs)" by (cases gs)
  obtain index b1 where n: "next_index g' b = (index, b1)" by (cases "next_index g' b")
  have ok: "broker_ok b1" using Cons.prems(1) next_index_fields [OF n] broker_ok_same [of b1 b] by simp
  let ?sub = "subs ! (unat index mod length subs)"
  note step = send_publish_spec [OF ok, where c = "si_client_id ?sub" and topic = topic and payload = payload and
      qos = qos and retain = retain and sid = "si_subscription_identifier ?sub"]
  from counter_next [of g g' b] n counter_same [OF step(5), of g]
  have "counter_of g (send_publish_to_client (si_client_id ?sub) topic payload qos retain (si_subscription_identifier ?sub) b1) =
      (if g = g' then counter_of g b + 1 else counter_of g b)" by simp
  with Cons.IH [OF step(1)] Cons.prems(2,3) gs n show ?case by (auto simp: Let_def)
qed simp

lemma counter_route_publish:
  assumes "broker_ok b"
  shows "counter_of g (route_publish from_client topic payload qos retain b) =
    (if g \<in> fst ` set (shared (match_topic topic (b_router b))) then counter_of g b + 1 else counter_of g b)"
proof -
  define b1 where "b1 = (let b = b\<lparr>b_messages_published := b_messages_published b + 1\<rparr> in
    if from_client \<noteq> bridge_client then
      b\<lparr>b_bridge_sender := map_option (\<lambda>tx. tx @ [(topic, payload)]) (b_bridge_sender b)\<rparr>
    else b)"
  let ?r = "match_topic topic (b_router b)"
  have ok: "broker_ok b1" "counter_of g b1 = counter_of g b"
    using assms broker_ok_same [of b1 b] by (simp_all add: b1_def Let_def counter_of_def)
  note n = route_normal_spec [OF ok(1), where subs = "normal ?r" and topic = topic and payload = payload and
      qos = qos and retain = retain]
  have "ok_result ?r" using match_topic_spec assms by (simp add: broker_ok_def)
  then have "distinct_keys (shared ?r)" "\<forall>(g, subs) \<in> set (shared ?r). subs \<noteq> []" by (simp_all add: ok_result_def)
  note counter_route_shared [OF n [THEN conjunct1] this, of g topic payload qos retain]
  moreover have "counter_of g (route_normal (normal ?r) topic payload qos retain b1) = counter_of g b"
    using n counter_same ok(2) by metis
  moreover have "route_publish from_client topic payload qos retain b =
      route_shared (shared ?r) topic payload qos retain (route_normal (normal ?r) topic payload qos retain b1)"
    by (simp add: route_publish_def b1_def Let_def)
  ultimately show ?thesis by simp
qed

text \<open>
  How often the member list gives client \<open>c\<close> when \<open>n\<close> publications in a row take the members from
  position \<open>k\<close> on.
\<close>

definition served :: "rstr \<Rightarrow> subscription_info list \<Rightarrow> nat \<Rightarrow> nat \<Rightarrow> nat" where
  "served c subs k n = count_list (map (\<lambda>j. si_client_id (subs ! ((k + j) mod length subs))) [0..<n]) c"

lemma upt_shift: "[0..<m + n] = [0..<m] @ map (\<lambda>j. m + j) [0..<n]"
  by (induction n) simp_all

lemma served_add: "served c subs k (m + n) = served c subs k m + served c subs (k + m) n"
  by (simp add: served_def upt_shift comp_def add.assoc)

lemma served_simps [simp]:
  "served c subs k 0 = 0"
  "served c subs k (Suc n) = (if si_client_id (subs ! (k mod length subs)) = c then 1 else 0) + served c subs (Suc k) n"
  using served_add [of c subs k 1 n] by (simp_all add: served_def)

lemma mset_rotate: "mset (rotate n xs) = mset xs"
proof (induction n)
  case (Suc n)
  have "mset (rotate1 ys) = mset ys" for ys :: "'a list" by (cases ys) simp_all
  with Suc show ?case by simp
qed simp

text \<open>One round serves every member once.\<close>

lemma served_once: "served c subs k (length subs) = count_list (map si_client_id subs) c"
proof -
  have "map (\<lambda>j. si_client_id (subs ! ((k + j) mod length subs))) [0..<length subs] = map si_client_id (rotate k subs)"
    by (rule nth_equalityI) (simp_all add: nth_rotate)
  moreover have "mset (rotate k subs) = mset subs" by (rule mset_rotate)
  then have "mset (map si_client_id (rotate k subs)) = mset (map si_client_id subs)" by simp
  ultimately show ?thesis by (metis count_mset served_def)
qed

lemma served_rounds: "length subs dvd n \<Longrightarrow> served c subs k n = n div length subs * count_list (map si_client_id subs) c"
proof (elim dvdE)
  fix m
  assume "n = length subs * m"
  moreover have "served c subs k (length subs * m) = m * count_list (map si_client_id subs) c"
    by (induction m arbitrary: k) (simp_all add: served_add served_once)
  moreover have "subs = [] \<Longrightarrow> count_list (map si_client_id subs) c = 0" by simp
  ultimately show "served c subs k n = n div length subs * count_list (map si_client_id subs) c"
    by (cases "subs = []") simp_all
qed

text \<open>Publications one after the other: publisher, payload, QoS and retain flag of each.\<close>

definition publish_all :: "rstr \<Rightarrow> (rstr \<times> bytes \<times> u8 \<times> bool) list \<Rightarrow> broker \<Rightarrow> broker" where
  "publish_all topic = fold (\<lambda>(from_client, payload, qos, retain). route_publish from_client topic payload qos retain)"

lemma length_sids_for:
  fixes topic :: rstr
  assumes "broker_ok b"
  defines "r \<equiv> match_topic topic (b_router b)"
  shows "length (sids_for c (route_targets b topic)) = count_list (map si_client_id (normal r)) c +
    (\<Sum>(g, subs) \<leftarrow> shared r. served c subs (unat (counter_of g b)) 1)"
proof -
  have "ok_result r" using match_topic_spec assms by (simp add: broker_ok_def)
  then have p: "picks (shared r) (b_shared_group_counters b) = map (\<lambda>(g, subs). target_of (subs !
      (unat (counter_of g b) mod length subs))) (shared r)"
    by (subst picks_map) (auto simp: ok_result_def counter_of_def)
  have "length (sids_for c (map target_of subs)) = count_list (map si_client_id subs) c" for subs
    by (induction subs) (simp_all add: target_of_def)
  moreover have "length (sids_for c (map (\<lambda>(g, subs). target_of (subs ! (unat (counter_of g b) mod length subs))) gss)) =
      (\<Sum>(g, subs) \<leftarrow> gss. served c subs (unat (counter_of g b)) 1)" for gss
    by (induction gss) (auto simp: target_of_def)
  ultimately show ?thesis using p by (simp add: route_targets_def r_def Let_def)
qed

lemma publish_all_sent:
  fixes topic :: rstr
  assumes "broker_ok b" and "live b c i" and "cs_receiver (session_at b i)"
  defines "r \<equiv> match_topic topic (b_router b)"
  assumes "\<And>g. g \<in> fst ` set (shared r) \<Longrightarrow> unat (counter_of g b) + length msgs < 2 ^ 64"
  shows "\<exists>new. cs_sent (session_at (publish_all topic msgs b) i) = cs_sent (session_at b i) @ new \<and>
    length new = length msgs * count_list (map si_client_id (normal r)) c +
      (\<Sum>(g, subs) \<leftarrow> shared r. served c subs (unat (counter_of g b)) (length msgs))"
  using assms(1-3,5) unfolding r_def
proof (induction msgs arbitrary: b)
  case (Cons msg msgs)
  obtain from_client payload qos retain where msg: "msg = (from_client, payload, qos, retain)" by (cases msg)
  define b' where "b' = route_publish from_client topic payload qos retain b"
  let ?r = "match_topic topic (b_router b)"
  note spec = route_publish_spec [OF Cons.prems(1), where from_client = from_client and topic = topic and
      payload = payload and qos = qos and retain = retain, folded b'_def]
  have b': "live b' c i" "match_topic topic (b_router b') = ?r" using spec(2,3) Cons.prems(2) by (simp_all add: live_def)
  have "cs_receiver (fold (deliver now topic payload qos retain) sids s) = cs_receiver s" for now sids s
    by (induction sids arbitrary: s) simp_all
  with spec(7) [OF Cons.prems(2)] Cons.prems(3) have open': "cs_receiver (session_at b' i)" by simp
  have counter: "unat (counter_of g b') = Suc (unat (counter_of g b))" if "g \<in> fst ` set (shared ?r)" for g
  proof -
    have "unat (counter_of g b) + 1 < 2 ^ 64" using Cons.prems(4) [OF that] by simp
    then have "unat (counter_of g b + 1) = unat (counter_of g b) + 1" by (subst unat_word_ariths(1)) simp
    then show ?thesis using counter_route_publish [OF Cons.prems(1)] that by (simp add: b'_def)
  qed
  have all: "publish_all topic (msg # msgs) b = publish_all topic msgs b'" by (simp add: publish_all_def msg b'_def)
  have sum: "(\<Sum>(g, subs) \<leftarrow> shared ?r. served c subs (unat (counter_of g b)) 1) +
      (\<Sum>(g, subs) \<leftarrow> shared ?r. served c subs (unat (counter_of g b')) (length msgs)) =
      (\<Sum>(g, subs) \<leftarrow> shared ?r. served c subs (unat (counter_of g b)) (Suc (length msgs)))"
  proof -
    have "(\<Sum>(g, subs) \<leftarrow> gss. served c subs (unat (counter_of g b)) 1) +
        (\<Sum>(g, subs) \<leftarrow> gss. served c subs (unat (counter_of g b')) (length msgs)) =
        (\<Sum>(g, subs) \<leftarrow> gss. served c subs (unat (counter_of g b)) (Suc (length msgs)))"
      if "set gss \<subseteq> set (shared ?r)" for gss
      using that
    proof (induction gss)
      case (Cons gs gss)
      obtain g subs where gs: "gs = (g, subs)" by (cases gs)
      with Cons.prems have "g \<in> fst ` set (shared ?r)" by force
      with counter Cons gs show ?case by simp
    qed simp
    then show ?thesis by blast
  qed
  have "unat (counter_of g b') + length msgs < 2 ^ 64" if "g \<in> fst ` set (shared (match_topic topic (b_router b')))" for g
    using Cons.prems(4) [of g] counter [of g] that b'(2) by simp
  from Cons.IH [OF spec(1) b'(1) open' this] obtain new where
    new: "cs_sent (session_at (publish_all topic msgs b') i) = cs_sent (session_at b' i) @ new"
      "length new = length msgs * count_list (map si_client_id (normal ?r)) c +
        (\<Sum>(g, subs) \<leftarrow> shared ?r. served c subs (unat (counter_of g b')) (length msgs))"
    unfolding b'(2) by blast
  let ?sids = "sids_for c (route_targets b topic)"
  let ?own = "map (publish_bytes topic payload qos retain) (zip ?sids (delivery_ids qos (length ?sids) (session_at b i)))"
  have "cs_sent (session_at b' i) = cs_sent (session_at b i) @ ?own"
    unfolding spec(7) [OF Cons.prems(2)] by (rule fold_deliver_sent [OF Cons.prems(3)])
  moreover have "length ?own = count_list (map si_client_id (normal ?r)) c +
      (\<Sum>(g, subs) \<leftarrow> shared ?r. served c subs (unat (counter_of g b)) 1)"
    using length_sids_for [OF Cons.prems(1), of c topic] by simp
  ultimately show ?case
    using new sum by (intro exI [of _ "?own @ new"]) (simp add: all)
qed (simp add: publish_all_def)

text \<open>
  C31: shared groups are served in turn. Let publications on one topic, of any publishers, payloads
  and QoS, be routed one after the other, their number a multiple of the size of each group with a
  matching subscription, while the subscriptions stay the same and no group's 64-bit counter wraps.
  Then the channel of a connected client gets, behind what was there, one message per publication for
  each of its own matching subscriptions, and for each of its places in a group exactly one out of
  as many publications as the group has places: with one group and as many publications as it has
  members, every member is handed exactly one.
\<close>

theorem round_robin_fair:
  fixes msgs :: "(rstr \<times> bytes \<times> u8 \<times> bool) list" and topic :: rstr
  assumes "broker_ok b" and "live b c i" and "cs_receiver (session_at b i)"
  defines "r \<equiv> match_topic topic (b_router b)"
  assumes "\<And>g subs. (g, subs) \<in> set (shared r) \<Longrightarrow>
      length subs dvd length msgs \<and> unat (counter_of g b) + length msgs < 2 ^ 64"
  defines "b' \<equiv> fold (\<lambda>(from_client, payload, qos, retain). route_publish from_client topic payload qos retain) msgs b"
  shows "\<exists>new. cs_sent (session_at b' i) = cs_sent (session_at b i) @ new \<and>
    length new = length msgs * count_list (map si_client_id (normal r)) c +
      (\<Sum>(g, subs) \<leftarrow> shared r. length msgs div length subs * count_list (map si_client_id subs) c)"
proof -
  have "unat (counter_of g b) + length msgs < 2 ^ 64" if "g \<in> fst ` set (shared r)" for g
    using assms(5) that by auto
  moreover have "(\<Sum>(g, subs) \<leftarrow> gss. served c subs (unat (counter_of g b)) (length msgs)) =
      (\<Sum>(g, subs) \<leftarrow> gss. length msgs div length subs * count_list (map si_client_id subs) c)"
    if "set gss \<subseteq> set (shared r)" for gss
    using that assms(5) by (induction gss) (auto simp: served_rounds)
  moreover note publish_all_sent [OF assms(1-3), of topic msgs]
  ultimately show ?thesis unfolding b'_def publish_all_def [symmetric] r_def by (metis (no_types, lifting) order_refl)
qed

text \<open>Clients \<open>c\<close> and \<open>d\<close>, connected through sessions 0 and 1, share the group \<open>g\<close> on the topic \<open>t\<close>.\<close>

definition group_broker :: broker where
  "group_broker =
     (let (i, b) = alloc_session (new_session 0 (lit ''c'') None True 0 0 True) (new_broker auth_closed);
          b = register_session i b;
          (j, b) = alloc_session (new_session 0 (lit ''d'') None True 0 0 True) b;
          b = register_session j b in
      broker_subscribe (lit ''d'') (lit ''$share/g/t'') 0 None (broker_subscribe (lit ''c'') (lit ''$share/g/t'') 0 None b))"

lemma group_broker_facts:
  "broker_ok group_broker" "live group_broker (lit ''c'') 0" "live group_broker (lit ''d'') 1"
  "cs_receiver (session_at group_broker 0)" "cs_receiver (session_at group_broker 1)"
  "cs_sent (session_at group_broker 0) = []" "cs_sent (session_at group_broker 1) = []"
  "counter_of g group_broker = 0"
  "match_topic (lit ''t'') (b_router group_broker) =
     \<lparr>normal = [], shared = [(lit ''g'', [\<lparr>si_client_id = lit ''c'', si_qos = 0, si_subscription_identifier = None\<rparr>,
       \<lparr>si_client_id = lit ''d'', si_qos = 0, si_subscription_identifier = None\<rparr>])]\<rparr>"
proof -
  note defs = group_broker_def alloc_session_def new_session_def new_broker_def register_session_def
    session_at_def broker_subscribe_def spawn_def Let_def counter_of_def
  have r: "b_router group_broker = Router.subscribe (lit ''d'') (lit ''$share/g/t'') 0 None
      (Router.subscribe (lit ''c'') (lit ''$share/g/t'') 0 None empty_node)"
    by (simp add: defs)
  then have "ok_node (b_router group_broker)" by (simp add: trie.ok_sub)
  then show "broker_ok group_broker" by (simp add: broker_ok_def) (simp add: defs)
  show "live group_broker (lit ''c'') 0" "live group_broker (lit ''d'') 1" by (simp_all add: live_def defs)
  show "cs_receiver (session_at group_broker 0)" "cs_receiver (session_at group_broker 1)"
    "cs_sent (session_at group_broker 0) = []" "cs_sent (session_at group_broker 1) = []" "counter_of g group_broker = 0"
    by (simp_all add: defs)
  show "match_topic (lit ''t'') (b_router group_broker) =
     \<lparr>normal = [], shared = [(lit ''g'', [\<lparr>si_client_id = lit ''c'', si_qos = 0, si_subscription_identifier = None\<rparr>,
       \<lparr>si_client_id = lit ''d'', si_qos = 0, si_subscription_identifier = None\<rparr>])]\<rparr>"
    unfolding r by code_simp
qed

theorem round_robin_fair_witness:
  "\<exists>m n. let b = fold (\<lambda>(from_client, payload, qos, retain). route_publish from_client (lit ''t'') payload qos retain)
       [(lit ''p'', [1], 0, False), (lit ''q'', [2], 1, False)] group_broker in
     cs_sent (session_at b 0) = [m] \<and> cs_sent (session_at b 1) = [n]"
proof -
  let ?msgs = "[(lit ''p'', [1], 0, False), (lit ''q'', [2], 1, False)] :: (rstr \<times> bytes \<times> u8 \<times> bool) list"
  let ?b = "fold (\<lambda>(from_client, payload, qos, retain). route_publish from_client (lit ''t'') payload qos retain) ?msgs group_broker"
  note f = group_broker_facts
  have hyp: "length subs dvd length ?msgs \<and> unat (counter_of g group_broker) + length ?msgs < 2 ^ 64"
    if "(g, subs) \<in> set (shared (match_topic (lit ''t'') (b_router group_broker)))" for g subs
    using that by (simp add: f(8,9) del: lit_simps)
  have "\<exists>new. cs_sent (session_at ?b 0) = new \<and> length new = 1"
    using round_robin_fair [where topic = "lit ''t''" and msgs = ?msgs, OF f(1,2,4) hyp] f(6,9) by simp
  moreover have "\<exists>new. cs_sent (session_at ?b 1) = new \<and> length new = 1"
    using round_robin_fair [where topic = "lit ''t''" and msgs = ?msgs, OF f(1,3,5) hyp] f(7,9) by simp
  ultimately show ?thesis by (auto simp: length_Suc_conv Let_def)
qed

end
