(* ===== verification/Recovery.thy ===== *)
theory Recovery imports Broker_Properties begin

text \<open>
  Sessions over time: what a takeover, a disconnect and a restart from the database keep and lose.
\<close>

section \<open>The table in the database\<close>

text \<open>The entries that the rows of the subscriptions table stand for.\<close>

definition row_entry :: "rstr \<times> rstr \<Rightarrow> subscription_row \<Rightarrow> entry multiset" where
  "row_entry key row = {#new_entry (fst key) (snd key) (ur_qos row) (ur_sub_id row)#}"

definition db_table :: "database \<Rightarrow> entry multiset" where
  "db_table db = over row_entry (db_subscriptions db)"

definition valid_rows :: "database \<Rightarrow> bool" where
  "valid_rows db \<longleftrightarrow> db_ok db \<and> (\<forall>(key, row) \<in> set (db_subscriptions db). valid_filter (snd key))"

lemma subscribe_key_inject:
  assumes "valid_filter f" "valid_filter f'"
  shows "subscribe_key c f = subscribe_key c' f' \<longleftrightarrow> c = c' \<and> f = f'"
proof
  assume eq: "subscribe_key c f = subscribe_key c' f'"
  obtain g filt g' filt' where p: "parse_shared_subscription f = (g, filt)" "parse_shared_subscription f' = (g', filt')"
    by (metis surj_pair)
  from eq assms have "g = g'" "filt = filt'" "c = c'"
    by (auto simp: subscribe_key_def p valid_filter_def filter_path_id segments_eq_iff)
  with parse_shared_inverse [OF p(1)] parse_shared_inverse [OF p(2)] show "c = c' \<and> f = f'" by (metis (no_types))
qed simp

lemma without_rows:
  assumes "valid_rows db" and "valid_filter f"
  shows "without (subscribe_key c f) (db_table db) =
    over (\<lambda>key row. if key = (c, f) then {#} else row_entry key row) (db_subscriptions db)"
  unfolding db_table_def without_over
  by (rule over_cong) (use assms in \<open>auto simp: valid_rows_def row_entry_def subscribe_key_inject\<close>)

lemma db_table_save:
  assumes "valid_rows db" and "valid_filter f"
  shows "db_table (save_subscription True c f q i db) = add_mset (new_entry c f q i) (without (subscribe_key c f) (db_table db))"
    and "valid_rows (save_subscription True c f q i db)"
  using assms without_rows [OF assms, of c]
  by (auto simp: db_table_def save_subscription_def valid_rows_def db_ok_def over_update row_entry_def
      distinct_update dest!: in_set_update)

lemma db_table_delete:
  assumes "valid_rows db" and "valid_filter f"
  shows "db_table (delete_subscription True c f db) = without (subscribe_key c f) (db_table db)"
    and "valid_rows (delete_subscription True c f db)"
  using assms without_rows [OF assms, of c]
  by (fastforce simp: db_table_def delete_subscription_def valid_rows_def db_ok_def over_delete distinct_delete
      in_set_delete)+

section \<open>Operations and the tasks they spawn\<close>

fun op_filter :: "table_op \<Rightarrow> rstr" where
  "op_filter (SubscribeOp c f q i) = f"
| "op_filter (UnsubscribeOp c f) = f"

fun broker_op :: "table_op \<Rightarrow> broker \<Rightarrow> broker" where
  "broker_op (SubscribeOp c f q i) b = broker_subscribe c f q i b"
| "broker_op (UnsubscribeOp c f) b = snd (broker_unsubscribe c f b)"

lemma broker_op_spec:
  assumes "ok_node (b_router b)" and "valid_filter (op_filter op)" and "valid_rows (run_tasks now (b_tasks b) db)"
    and "db_table (run_tasks now (b_tasks b) db) = table (b_router b)"
  shows "ok_node (b_router (broker_op op b)) \<and> valid_rows (run_tasks now (b_tasks (broker_op op b)) db) \<and>
    db_table (run_tasks now (b_tasks (broker_op op b)) db) = table (b_router (broker_op op b))"
proof (cases op)
  case (SubscribeOp c f q i)
  with assms db_table_save [OF assms(3), of f c q i] show ?thesis
    by (simp add: broker_subscribe_def Let_def spawn_def trie.ok_sub trie.tab_sub all_ok_def)
next
  case (UnsubscribeOp c f)
  obtain rem r where u: "Router.unsubscribe c f (b_router b) = (rem, r)" by (cases "Router.unsubscribe c f (b_router b)")
  have f: "valid_filter f" using assms(2) UnsubscribeOp by simp
  note rem = trie.removed [OF assms(1), of c f, unfolded u fst_conv]
  note tab = trie.tab_unsub [OF assms(1), of c f, unfolded u snd_conv]
  note ok = trie.ok_unsub [OF assms(1), of c f, unfolded u snd_conv]
  show ?thesis
  proof (cases rem)
    case True
    with UnsubscribeOp u ok tab assms db_table_delete [OF assms(3) f, of c] key_eq [OF f] show ?thesis
      by (simp add: broker_unsubscribe_def Let_def spawn_def all_ok_def)
  next
    case False
    with rem tab have "table r = table (b_router b)" by (simp add: without_absent)
    with False UnsubscribeOp u ok assms show ?thesis
      by (simp add: broker_unsubscribe_def Let_def)
  qed
qed

lemma broker_ops_spec:
  assumes "list_all (\<lambda>op. valid_filter (op_filter op)) ops"
    and "ok_node (b_router b)" and "valid_rows (run_tasks now (b_tasks b) db)"
    and "db_table (run_tasks now (b_tasks b) db) = table (b_router b)"
  shows "ok_node (b_router (fold broker_op ops b)) \<and> valid_rows (run_tasks now (b_tasks (fold broker_op ops b)) db) \<and>
    db_table (run_tasks now (b_tasks (fold broker_op ops b)) db) = table (b_router (fold broker_op ops b))"
  using assms
proof (induction ops arbitrary: b)
  case (Cons op ops)
  then show ?case using broker_op_spec [of b op now db] by simp
qed simp

section \<open>Restoring\<close>

lemma restore_sessions_router [simp]: "b_router (restore_sessions rows b) = b_router b"
proof (induction rows arbitrary: b)
  case (Cons row rows)
  then show ?case by (cases row) (simp add: alloc_session_def)
qed simp

lemma restore_in_flight_router [simp]: "b_router (restore_in_flight rows b) = b_router b"
proof (induction rows arbitrary: b)
  case (Cons row rows)
  then show ?case by (cases row) (simp split: option.split)
qed simp

lemma restore_subscriptions_table:
  assumes "ok_node (b_router b)" and "distinct_keys m"
    and "\<forall>(key, row) \<in> set m. valid_filter (snd key) \<and> \<not> has_key (subscribe_key (fst key) (snd key)) (table (b_router b))"
  shows "ok_node (b_router (restore_subscriptions (map (\<lambda>((c, f), row). (c, f, ur_qos row, ur_sub_id row)) m) b)) \<and>
    table (b_router (restore_subscriptions (map (\<lambda>((c, f), row). (c, f, ur_qos row, ur_sub_id row)) m) b)) =
      over row_entry m + table (b_router b)"
  using assms
proof (induction m arbitrary: b)
  case (Cons kr m)
  obtain c f row where kr: "kr = ((c, f), row)" by (metis surj_pair)
  let ?b = "b\<lparr>b_router := Router.subscribe c f (ur_qos row) (ur_sub_id row) (b_router b)\<rparr>"
  have vf: "valid_filter f" and fresh: "\<not> has_key (subscribe_key c f) (table (b_router b))"
    using Cons.prems(3) kr by auto
  have t: "table (b_router ?b) = add_mset (new_entry c f (ur_qos row) (ur_sub_id row)) (table (b_router b))"
    by (simp add: trie.tab_sub [OF Cons.prems(1)] without_absent [OF fresh])
  have "\<forall>(key, row) \<in> set m. valid_filter (snd key) \<and> \<not> has_key (subscribe_key (fst key) (snd key)) (table (b_router ?b))"
  proof (clarify)
    fix c' f' row' assume i: "((c', f'), row') \<in> set m"
    with Cons.prems(2) kr have "(c', f') \<noteq> (c, f)" by force
    with i Cons.prems(3) kr vf show "valid_filter (snd (c', f')) \<and>
        \<not> has_key (subscribe_key (fst (c', f')) (snd (c', f'))) (table (b_router ?b))"
      unfolding t by (auto simp: subscribe_key_inject)
  qed
  with Cons.IH [of ?b] Cons.prems t show ?case
    by (simp add: kr trie.ok_sub row_entry_def)
qed simp

lemma restore_table:
  assumes "valid_rows db"
  shows "table (b_router (restore_sessions_from_db all_ok db (new_broker auth))) = db_table db"
proof -
  have "b_router (restore_sessions_from_db all_ok db (new_broker auth)) =
      b_router (restore_subscriptions (map (\<lambda>((c, f), row). (c, f, ur_qos row, ur_sub_id row)) (db_subscriptions db))
        (restore_sessions (map (\<lambda>(client_id, row). (client_id, sr_username row, sr_clean_start row \<noteq> 0,
          sr_session_expiry_interval row)) (db_sessions db)) (new_broker auth)))"
    by (simp add: restore_sessions_from_db_def all_ok_def load_all_sessions_def load_all_subscriptions_def
        load_all_in_flight_def Let_def)
  with restore_subscriptions_table [of _ "db_subscriptions db"] assms show ?thesis
    by (auto simp: new_broker_def valid_rows_def db_ok_def db_table_def)
qed

section \<open>The order of the tasks\<close>

text \<open>
  The tasks that touch the row of a subscription. Two orders of the tasks that agree on them, row by
  row, leave the same rows.
\<close>

fun touches :: "rstr \<times> rstr \<Rightarrow> db_task \<Rightarrow> bool" where
  "touches key (SaveSubscription c f q i) \<longleftrightarrow> key = (c, f)"
| "touches key (DeleteSubscription c f) \<longleftrightarrow> key = (c, f)"
| "touches key (DeleteSession c) \<longleftrightarrow> fst key = c"
| "touches key other \<longleftrightarrow> False"

definition rearranged :: "db_task list \<Rightarrow> db_task list \<Rightarrow> bool" where
  "rearranged tasks tasks' \<longleftrightarrow> (\<forall>key. filter (touches key) tasks' = filter (touches key) tasks)"

fun row_after :: "db_task \<Rightarrow> subscription_row option" where
  "row_after (SaveSubscription c f q i) = Some \<lparr>ur_qos = q, ur_sub_id = i\<rparr>"
| "row_after other = None"

lemma map_of_other_clients:
  "map_of (filter (\<lambda>row. \<not> of_client c row) m) key = (if fst key = c then None else map_of m key)"
  by (induction m) (auto simp: of_client_def)

lemma run_task_row:
  "map_of (db_subscriptions (run_task all_ok now task db)) key =
    (if touches key task then row_after task else map_of (db_subscriptions db) key)"
  by (cases task) (auto simp: task_defs all_ok_def update_conv' delete_conv' map_of_other_clients)

lemma run_tasks_row:
  "map_of (db_subscriptions (run_tasks now tasks db)) key =
    fold (\<lambda>task row. row_after task) (filter (touches key) tasks) (map_of (db_subscriptions db) key)"
  by (induction tasks arbitrary: db) (simp_all add: run_task_row)

lemma rearranged_rows:
  assumes "rearranged tasks tasks'" and "db_ok db"
  shows "mset (db_subscriptions (run_tasks now tasks' db)) = mset (db_subscriptions (run_tasks now tasks db))"
proof -
  let ?m = "db_subscriptions (run_tasks now tasks db)" and ?m' = "db_subscriptions (run_tasks now tasks' db)"
  have keys: "distinct_keys ?m" "distinct_keys ?m'" using run_tasks_ok [OF assms(2)] by (simp_all add: db_ok_def)
  have "map_of ?m' key = map_of ?m key" for key
    using assms(1) unfolding run_tasks_row rearranged_def by metis
  then have "set ?m' = set ?m" using in_set_map_of [OF keys(1)] in_set_map_of [OF keys(2)] by auto
  with keys show ?thesis by (simp add: set_eq_iff_mset_eq_distinct [symmetric] distinct_map)
qed

lemma over_mset: "mset m = mset m' \<Longrightarrow> over F m = over F m'"
  by (simp add: over_def flip: sum_mset_sum_list)

lemma rearranged_table:
  assumes "rearranged tasks tasks'" and "valid_rows (run_tasks now tasks empty_database)"
  shows "valid_rows (run_tasks now tasks' empty_database) \<and>
    db_table (run_tasks now tasks' empty_database) = db_table (run_tasks now tasks empty_database)"
proof -
  have ok: "db_ok empty_database" by (simp add: db_ok_def empty_database_def)
  note rows = rearranged_rows [OF assms(1) ok, of now]
  from run_tasks_ok [OF ok, of now tasks'] assms(2) mset_eq_setD [OF rows] over_mset [OF rows] show ?thesis
    by (simp add: valid_rows_def db_table_def)
qed

text \<open>Every prefix of the spawned tasks is what some prefix of the operations spawned.\<close>

lemma broker_op_tasks: "\<exists>spawned. b_tasks (broker_op op b) = b_tasks b @ spawned \<and> length spawned \<le> 1"
  by (cases op) (auto simp: broker_subscribe_def broker_unsubscribe_def Let_def spawn_def split: prod.split)

lemma tasks_prefix:
  assumes "b_tasks b = []"
  shows "\<exists>m. take n (b_tasks (fold broker_op ops b)) = b_tasks (fold broker_op (take m ops) b) \<and>
    (length (b_tasks (fold broker_op ops b)) \<le> n \<longrightarrow> m = length ops)"
proof (induction ops rule: rev_induct)
  case Nil
  show ?case by (simp add: assms)
next
  case (snoc op ops)
  let ?b = "fold broker_op ops b"
  obtain spawned where s: "b_tasks (broker_op op ?b) = b_tasks ?b @ spawned" "length spawned \<le> 1"
    using broker_op_tasks by blast
  show ?case
  proof (cases "length (b_tasks (broker_op op ?b)) \<le> n")
    case True
    then show ?thesis by (intro exI [of _ "Suc (length ops)"]) simp
  next
    case False
    with s have "n \<le> length (b_tasks ?b)" by simp
    moreover from snoc obtain m where "take n (b_tasks ?b) = b_tasks (fold broker_op (take m ops) b)"
      "length (b_tasks ?b) \<le> n \<longrightarrow> m = length ops" by blast
    ultimately show ?thesis using False s(1) by (intro exI [of _ "min m (length ops)"]) (simp add: min_def)
  qed
qed

text \<open>
  C17: a restart recovers the subscriptions, also after a crash. Take any sequence of subscriptions
  and unsubscriptions (with filters in which nothing follows \<open>#\<close>) on a new broker, and let some of
  the first database tasks they spawned have run, in any order that keeps the order of the tasks about
  the same row. A broker that restores itself from that database has exactly the subscription table,
  QoS and identifiers included, that the one that stopped had after a part of the sequence, and after
  all of it when all tasks have run.
\<close>

theorem restart_recovers_subscriptions:
  fixes auth :: auth_config
  assumes "list_all (\<lambda>op. valid_filter (op_filter op)) ops"
    and "rearranged (take n (b_tasks (fold broker_op ops (new_broker auth)))) tasks"
  shows "\<exists>m. table (b_router (restore_sessions_from_db all_ok (run_tasks now tasks empty_database) (new_broker auth))) =
      table (b_router (fold broker_op (take m ops) (new_broker auth))) \<and>
    (length (b_tasks (fold broker_op ops (new_broker auth))) \<le> n \<longrightarrow> m = length ops)"
proof -
  have start: "ok_node (b_router (new_broker auth))" "b_tasks (new_broker auth) = []" "valid_rows empty_database"
    "db_table empty_database = table (b_router (new_broker auth))"
    by (simp_all add: new_broker_def valid_rows_def db_ok_def empty_database_def db_table_def)
  from tasks_prefix [OF start(2), of n ops] obtain m where
    m: "take n (b_tasks (fold broker_op ops (new_broker auth))) = b_tasks (fold broker_op (take m ops) (new_broker auth))"
      "length (b_tasks (fold broker_op ops (new_broker auth))) \<le> n \<longrightarrow> m = length ops" by blast
  have "list_all (\<lambda>op. valid_filter (op_filter op)) (take m ops)"
    using assms(1) by (auto simp: list_all_iff dest: in_set_takeD)
  with broker_ops_spec [of "take m ops" "new_broker auth" now empty_database] start
  have "valid_rows (run_tasks now (b_tasks (fold broker_op (take m ops) (new_broker auth))) empty_database)"
    "db_table (run_tasks now (b_tasks (fold broker_op (take m ops) (new_broker auth))) empty_database) =
      table (b_router (fold broker_op (take m ops) (new_broker auth)))" by simp_all
  with rearranged_table [OF assms(2) [unfolded m(1)]] restore_table m(2) show ?thesis by metis
qed

text \<open>Two subscriptions of a client whose rows are written in the other order.\<close>

theorem restart_recovers_subscriptions_witness:
  "table (b_router (restore_sessions_from_db all_ok
     (run_tasks 0 [SaveSubscription (lit ''c'') (lit ''b'') 0 None, SaveSubscription (lit ''c'') (lit ''a'') 1 None]
       empty_database) (new_broker auth_closed)))
   = {#new_entry (lit ''c'') (lit ''a'') 1 None, new_entry (lit ''c'') (lit ''b'') 0 None#}"
proof -
  let ?ops = "[SubscribeOp (lit ''c'') (lit ''a'') 1 None, SubscribeOp (lit ''c'') (lit ''b'') 0 None]"
  let ?b = "fold broker_op ?ops (new_broker auth_closed)"
  have p: "parse_shared_subscription (lit ''a'') = (None, lit ''a'')" "parse_shared_subscription (lit ''b'') = (None, lit ''b'')"
    by (simp_all add: parse_unshared starts_with_def)
  have s: "segments (lit ''a'') = [lit ''a'']" "segments (lit ''b'') = [lit ''b'']" by (simp_all add: segments_eval)
  have v: "list_all (\<lambda>op. valid_filter (op_filter op)) ?ops" by (simp add: valid_filter_def p s del: lit_simps)
  have tasks: "b_tasks ?b = [SaveSubscription (lit ''c'') (lit ''a'') 1 None, SaveSubscription (lit ''c'') (lit ''b'') 0 None]"
    by (simp add: broker_subscribe_def Let_def spawn_def new_broker_def del: lit_simps)
  have t: "table (b_router ?b) = {#new_entry (lit ''c'') (lit ''a'') 1 None, new_entry (lit ''c'') (lit ''b'') 0 None#}"
    by (simp add: broker_subscribe_def Let_def spawn_def new_broker_def trie.tab_sub trie.ok_sub new_entry_def
        without_def subscribe_key_def p s del: lit_simps) (simp add: hash_seg_def)
  have "rearranged (take 2 (b_tasks ?b)) [SaveSubscription (lit ''c'') (lit ''b'') 0 None, SaveSubscription (lit ''c'') (lit ''a'') 1 None]"
    unfolding tasks rearranged_def by simp
  from restart_recovers_subscriptions [OF v this, of 0] tasks t show ?thesis by simp
qed

text \<open>
  The order of the spawned tasks matters, and nothing in the program fixes it: each is a future
  of its own given to \<open>tokio::spawn\<close>. When the deletion that an unsubscription spawned runs before
  the insertion of the subscription, the row stays, and the subscription that the client removed is
  back after a restart.
\<close>

theorem reordered_tasks_resurrect:
  fixes c :: rstr and q :: u8 and i :: "u32 option" and auth :: auth_config
  assumes "valid_filter f"
  defines "b \<equiv> fold broker_op [SubscribeOp c f q i, UnsubscribeOp c f] (new_broker auth)"
  shows "table (b_router b) = {#} \<and> b_tasks b = [SaveSubscription c f q i, DeleteSubscription c f] \<and>
    table (b_router (restore_sessions_from_db all_ok (run_tasks now (rev (b_tasks b)) empty_database) (new_broker auth)))
      = {#new_entry c f q i#}"
proof -
  let ?r = "Router.subscribe c f q i empty_node"
  have ok: "ok_node ?r" by (simp add: trie.ok_sub)
  have t: "table ?r = {#new_entry c f q i#}" by (simp add: trie.tab_sub)
  obtain r where u: "Router.unsubscribe c f ?r = (True, r)"
    using trie.removed [OF ok, of c f] key_eq [OF assms(1)] t by (cases "Router.unsubscribe c f ?r") auto
  with trie.tab_unsub [OF ok, of c f] key_eq [OF assms(1)] t have r: "table r = {#}" by simp
  have b: "b_router b = r" "b_tasks b = [SaveSubscription c f q i, DeleteSubscription c f]"
    by (simp_all add: b_def broker_subscribe_def broker_unsubscribe_def Let_def spawn_def new_broker_def u)
  let ?db = "run_tasks now (rev (b_tasks b)) empty_database"
  have db: "?db = save_subscription True c f q i empty_database"
    by (simp add: b all_ok_def delete_subscription_def empty_database_def)
  have "valid_rows empty_database" by (simp add: valid_rows_def db_ok_def empty_database_def)
  note save = db_table_save [OF this assms(1), of c q i]
  have "db_table empty_database = {#}" by (simp add: db_table_def empty_database_def)
  with save restore_table [OF save(2)] r b show ?thesis unfolding db by simp
qed

theorem reordered_tasks_resurrect_witness:
  "table (b_router (restore_sessions_from_db all_ok (run_tasks 0 (rev (b_tasks
     (fold broker_op [SubscribeOp (lit ''c'') (lit ''a'') 0 None, UnsubscribeOp (lit ''c'') (lit ''a'')]
       (new_broker auth_closed)))) empty_database) (new_broker auth_closed)))
   = {#new_entry (lit ''c'') (lit ''a'') 0 None#}"
proof -
  have "valid_filter (lit ''a'')"
    by (simp add: valid_filter_def parse_shared_subscription_def starts_with_def segments_eval)
  from reordered_tasks_resurrect [OF this, where c = "lit ''c''" and q = 0 and i = None and
      auth = auth_closed and now = 0] show ?thesis by blast
qed

section \<open>Taking over a client id\<close>

lemma broker_ok_register:
  assumes "broker_ok b" and "i < length (b_heap b)"
  shows "broker_ok (register_session i b)"
    and "live (register_session i b) c j \<longleftrightarrow> (if c = cs_client_id (session_at b i) then j = i else live b c j)"
    and "b_heap (register_session i b) = b_heap b" and "session_at (register_session i b) j = session_at b j"
    and "b_router (register_session i b) = b_router b"
  using assms
  by (auto simp: broker_ok_def register_session_def Let_def session_at_def live_def distinct_update update_conv'
      simp del: map_of_eq_Some_iff dest!: in_set_update)

lemma broker_ok_remove:
  assumes "broker_ok b"
  shows "broker_ok (remove_session c b)" and "live (remove_session c b) c' j \<longleftrightarrow> c' \<noteq> c \<and> live b c' j"
    and "b_heap (remove_session c b) = b_heap b" and "session_at (remove_session c b) j = session_at b j"
    and "b_router (remove_session c b) = b_router b"
  using assms
  by (auto simp: broker_ok_def remove_session_def Let_def session_at_def live_def distinct_delete delete_conv'
      in_set_delete split: option.splits)

text \<open>
  C38: a takeover leaves the new connection deaf. A second connection of a client id replaces the
  first in the session map, but when the first one ends, its clean-up removes whatever session the
  map holds for that id: the live second connection is in no map any more, and no publication on
  any topic reaches it.
\<close>

theorem takeover_cleanup_removes_new_session:
  assumes "broker_ok b" and "i1 < length (b_heap b)" and "i2 < length (b_heap b)"
    and "cs_client_id (session_at b i1) = c" and "cs_client_id (session_at b i2) = c"
  shows "live (register_session i2 (register_session i1 b)) c i2 \<and>
    (\<forall>j. \<not> live (remove_session c (register_session i2 (register_session i1 b))) c j) \<and>
    session_at (route_publish from_client topic payload qos retain
      (remove_session c (register_session i2 (register_session i1 b)))) i2 = session_at b i2"
proof -
  let ?b1 = "register_session i1 b"
  note r1 = broker_ok_register [OF assms(1,2)]
  have "i2 < length (b_heap ?b1)" using assms(3) r1(3) by simp
  note r2 = broker_ok_register [OF r1(1) this]
  note rm = broker_ok_remove [OF r2(1), of c]
  have none: "\<not> live (remove_session c (register_session i2 ?b1)) c' i2" for c'
    using rm(2) [of c' i2] live_ok [OF r2(1), of c' i2] r1(4) r2(4) assms(5) by auto
  from route_publish_spec(8) [OF rm(1) none, of from_client topic payload qos retain]
  show ?thesis using r1 r2 rm(2,4) assms(4,5) by simp
qed

definition two_sessions :: broker where
  "two_sessions =
     (let s = new_session 0 (lit ''c'') None True 0 0 True in
      snd (alloc_session s (snd (alloc_session s (new_broker auth_anonymous)))))"

theorem takeover_cleanup_removes_new_session_witness:
  "live (register_session 1 (register_session 0 two_sessions)) (lit ''c'') 1 \<and>
   \<not> live (remove_session (lit ''c'') (register_session 1 (register_session 0 two_sessions))) (lit ''c'') 1"
proof -
  have "broker_ok two_sessions" "0 < length (b_heap two_sessions)" "1 < length (b_heap two_sessions)"
    "cs_client_id (session_at two_sessions 0) = lit ''c''" "cs_client_id (session_at two_sessions 1) = lit ''c''"
    by (simp_all add: two_sessions_def Let_def alloc_session_def new_broker_def broker_ok_def session_at_def
        new_session_def)
  from takeover_cleanup_removes_new_session [OF this] show ?thesis by blast
qed

section \<open>Disconnecting\<close>

text \<open>
  A disconnected client loses messages and keeps its routes. The clean-up of a connection leaves
  the router as it was, so the client stays a target of every topic it subscribed to; but with no
  session in the map, sending to it changes nothing at all: no in-flight entry, no database task,
  even when the client asked for a persistent session and the message has QoS 1 or 2.
\<close>

theorem offline_messages_dropped:
  assumes "broker_ok b" and "live b c i"
  shows "b_router (remove_session c b) = b_router b \<and>
    route_targets (remove_session c b) topic = route_targets b topic \<and>
    send_publish_to_client c topic payload qos retain sid (remove_session c b) = remove_session c b"
proof -
  have "b_router (remove_session c b) = b_router b \<and>
    b_shared_group_counters (remove_session c b) = b_shared_group_counters b"
    by (simp add: remove_session_def Let_def split: option.split)
  moreover have "map_of (b_sessions (remove_session c b)) c = None"
    using broker_ok_remove(2) [OF assms(1), of c c] by (auto simp: live_def)
  ultimately show ?thesis by (simp add: route_targets_def send_publish_to_client_def)
qed

theorem offline_messages_dropped_witness:
  "sids_for (lit ''c'') (route_targets (remove_session (lit ''c'') demo_broker) (lit ''a/b'')) = [None] \<and>
   send_publish_to_client (lit ''c'') (lit ''a/b'') [1] 1 False None (remove_session (lit ''c'') demo_broker)
     = remove_session (lit ''c'') demo_broker"
  using offline_messages_dropped [OF demo_broker_facts(1,2), of "lit ''a/b''" "[1]" 1 False None] demo_broker_facts(4)
  by simp

section \<open>In-flight messages across a restart\<close>

text \<open>The session that a restart makes from its row.\<close>

definition restored_broker :: "auth_config \<Rightarrow> rstr \<Rightarrow> u16 \<Rightarrow> rstr \<Rightarrow> bytes \<Rightarrow> u8 \<Rightarrow> broker" where
  "restored_broker auth c pid topic payload qos =
     restore_sessions_from_db all_ok
       (run_tasks 0 [SaveSession c None False 60, SaveInFlight c pid topic payload qos] empty_database)
       (new_broker auth)"

lemma restored_session:
  "live (restored_broker auth c pid topic payload qos) c 0" (is ?l)
  "session_at (restored_broker auth c pid topic payload qos) 0 =
     add_in_flight 0 pid topic payload qos (new_session 0 c None False 0 60 False)" (is ?s)
proof -
  have "restore_sessions_from_db all_ok
      (run_tasks 0 [SaveSession c None False 60, SaveInFlight c pid topic payload qos] empty_database) (new_broker auth)
    = (new_broker auth)\<lparr>b_sessions := [(c, 0)],
        b_heap := [add_in_flight 0 pid topic payload qos (new_session 0 c None False 0 60 False)]\<rparr>"
    by (simp add: restore_sessions_from_db_def all_ok_def load_all_sessions_def load_all_subscriptions_def
        load_all_in_flight_def Let_def task_defs empty_database_def alloc_session_def new_broker_def on_session_def
        session_at_def)
  then show ?l ?s by (simp_all add: restored_broker_def live_def session_at_def)
qed

text \<open>
  A restart forgets where the packet identifiers were. The restored session holds the in-flight
  message of the database under its identifier, but its counter starts at 1 again: when that
  identifier is 1, the first QoS 1 message for the still absent client takes it and overwrites the
  restored message in the session, and the task it spawns overwrites the row in the database.
\<close>

theorem restart_reuses_packet_identifiers:
  "map_option if_payload (map_of (cs_in_flight (session_at (restored_broker auth c 1 topic payload qos) 0)) 1) = Some payload \<and>
   map_option if_payload (map_of (cs_in_flight (session_at
     (send_publish_to_client c topic' payload' 1 retain sid (restored_broker auth c 1 topic payload qos)) 0)) 1) = Some payload' \<and>
   SaveInFlight c 1 topic' payload' 1 \<in> set (b_tasks
     (send_publish_to_client c topic' payload' 1 retain sid (restored_broker auth c 1 topic payload qos)))"
proof -
  let ?b = "restored_broker auth c 1 topic payload qos"
  have m: "map_of (b_sessions ?b) c = Some 0" using restored_session(1) by (simp add: live_def)
  have h: "0 < length (b_heap ?b)"
    by (simp add: restored_broker_def restore_sessions_from_db_def all_ok_def load_all_sessions_def
        load_all_subscriptions_def load_all_in_flight_def Let_def task_defs empty_database_def alloc_session_def
        new_broker_def on_session_def session_at_def)
  obtain s where s: "session_publish (b_clock ?b) topic' payload' 1 retain sid (session_at ?b 0) = (Some 1, s)"
    and f: "map_of (cs_in_flight s) 1 \<noteq> None" "if_payload (the (map_of (cs_in_flight s) 1)) = payload'"
    by (simp add: restored_session(2) session_publish_def get_next_packet_id_def Let_def add_in_flight_def
        new_session_def update_conv' send_buf_def)
  show ?thesis
  proof (intro conjI)
    show "map_option if_payload (map_of (cs_in_flight (session_at ?b 0)) 1) = Some payload"
      by (simp add: restored_session(2) add_in_flight_def update_conv')
    have "session_at (send_publish_to_client c topic' payload' 1 retain sid ?b) 0 = s"
      using h by (simp add: send_publish_to_client_def m s session_at_on_session)
    with f show "map_option if_payload (map_of (cs_in_flight (session_at
        (send_publish_to_client c topic' payload' 1 retain sid ?b) 0)) 1) = Some payload'" by auto
    show "SaveInFlight c 1 topic' payload' 1 \<in> set (b_tasks
        (send_publish_to_client c topic' payload' 1 retain sid ?b))"
      by (simp add: send_publish_to_client_def m s)
  qed
qed

text \<open>
  Restored in-flight messages are never sent again. When the client reconnects, the connection
  registers a new session in place of the restored one; its in-flight map and its channel are
  empty, so the message that the database kept is neither retransmitted nor acknowledgeable.
\<close>

theorem reconnect_drops_restored_messages:
  assumes "b = restored_broker auth c pid topic payload qos"
    and "alloc_session (new_session now c username clean_start keep_alive expiry True) b = (i, b')"
  shows "map_of (cs_in_flight (session_at b 0)) pid \<noteq> None \<and> live (register_session i b') c i \<and>
    cs_in_flight (session_at (register_session i b') i) = [] \<and> cs_sent (session_at (register_session i b') i) = []"
proof -
  have "session_at (register_session i b') j = session_at b' j" for j
    by (simp add: register_session_def Let_def session_at_def)
  moreover have "session_at b' i = new_session now c username clean_start keep_alive expiry True"
    using assms(2) by (auto simp: alloc_session_def session_at_def)
  moreover from this have "live (register_session i b') c i"
    by (simp add: register_session_def Let_def live_def new_session_def update_conv')
  ultimately show ?thesis
    by (simp add: assms(1) restored_session(2) add_in_flight_def update_conv' new_session_def)
qed

theorem reconnect_drops_restored_messages_witness:
  "cs_in_flight (session_at (register_session 1 (snd (alloc_session (new_session 5 (lit ''c'') None False 0 60 True)
     (restored_broker auth_anonymous (lit ''c'') 3 (lit ''t'') [9] 1)))) 1) = []"
proof -
  let ?b = "restored_broker auth_anonymous (lit ''c'') 3 (lit ''t'') [9] 1"
  have "length (b_heap ?b) = 1"
    by (simp add: restored_broker_def restore_sessions_from_db_def all_ok_def load_all_sessions_def
        load_all_subscriptions_def load_all_in_flight_def Let_def task_defs empty_database_def alloc_session_def
        new_broker_def on_session_def session_at_def)
  then have "alloc_session (new_session 5 (lit ''c'') None False 0 60 True) ?b =
      (1, snd (alloc_session (new_session 5 (lit ''c'') None False 0 60 True) ?b))"
    by (simp add: alloc_session_def)
  from reconnect_drops_restored_messages [OF refl this] show ?thesis by blast
qed

end
