(* ===== verification/Connection.thy ===== *)
theory Connection imports Recovery Packet_Stream begin

text \<open>
  A client connection, \<open>handle_connection\<close> and \<open>process_client_packet\<close> of \<open>src/main.rs\<close>: the
  handshake on the first read, the loop that takes packets off the read buffer, the handler of each
  packet and the clean-up. A connection is driven by what its socket gives it; the sockets, the
  timers and the writer task are not modelled beyond that.
\<close>

section \<open>Handling one packet\<close>

datatype conn_error = DuplicateConnect | CodecFailure codec_error | ReadFailure

text \<open>\<open>encode_packet\<close> into a fresh buffer, then \<open>session.sender.send\<close>.\<close>

definition reply :: "nat \<Rightarrow> packet \<Rightarrow> broker \<Rightarrow> broker" where
  "reply i packet b = on_session i (send_buf (encode_packet packet)) b"

definition session_username :: "broker \<Rightarrow> nat \<Rightarrow> rstr" where
  "session_username b i = (case cs_username (session_at b i) of None \<Rightarrow> lit '''' | Some u \<Rightarrow> u)"

definition puback_packet :: "u16 \<Rightarrow> u8 \<Rightarrow> packet" where
  "puback_packet packet_id reason_code =
     PubAck \<lparr>pa_packet_id = packet_id, pa_reason_code = reason_code, pa_properties = puback_properties_default\<rparr>"

definition acknowledge :: "nat \<Rightarrow> publish \<Rightarrow> u8 \<Rightarrow> broker \<Rightarrow> broker" where
  "acknowledge i pkt reason_code b =
     (if p_qos pkt = 1 then
        (case p_packet_id pkt of None \<Rightarrow> b | Some pid \<Rightarrow> reply i (puback_packet pid reason_code) b)
      else b)"

definition process_publish :: "nat \<Rightarrow> publish \<Rightarrow> broker \<Rightarrow> broker" where
  "process_publish i pkt b =
     (if \<not> authorize (b_auth b) (session_username b i) (p_topic pkt) (lit ''write'') then
        acknowledge i pkt 0x87 b
      else
        acknowledge i pkt 0
          (route_publish (cs_client_id (session_at b i)) (p_topic pkt) (p_payload pkt) (p_qos pkt) (p_retain pkt) b))"

text \<open>The loop over the filters of a SUBSCRIBE, with the reason codes so far.\<close>

fun subscribe_filters :: "nat \<Rightarrow> u32 option \<Rightarrow> subscription list \<Rightarrow> u8 list \<Rightarrow> broker \<Rightarrow> u8 list \<times> broker" where
  "subscribe_filters i ident [] reason_codes b = (reason_codes, b)"
| "subscribe_filters i ident (sub # subs) reason_codes b =
     (if authorize (b_auth b) (session_username b i) (s_topic_filter sub) (lit ''read'') then
        subscribe_filters i ident subs (reason_codes @ [s_options sub AND 0x03])
          (broker_subscribe (cs_client_id (session_at b i)) (s_topic_filter sub) (s_options sub AND 0x03) ident b)
      else subscribe_filters i ident subs (reason_codes @ [0x87]) b)"

definition process_subscribe :: "nat \<Rightarrow> subscribe \<Rightarrow> broker \<Rightarrow> broker" where
  "process_subscribe i pkt b =
     (let (reason_codes, b) =
        subscribe_filters i (sp_subscription_identifier (sub_properties pkt)) (sub_subscriptions pkt) [] b in
      reply i (SubAck \<lparr>sa_packet_id = sub_packet_id pkt, sa_properties = suback_properties_default,
        sa_reason_codes = reason_codes\<rparr>) b)"

definition process_puback :: "nat \<Rightarrow> puback \<Rightarrow> broker \<Rightarrow> broker" where
  "process_puback i pkt b =
     (let b = on_session i (\<lambda>s. snd (remove_in_flight (pa_packet_id pkt) s)) b in
      spawn (DeleteInFlight (cs_client_id (session_at b i)) (pa_packet_id pkt)) b)"

fun process_client_packet :: "nat \<Rightarrow> packet \<Rightarrow> broker \<Rightarrow> (broker, conn_error) outcome" where
  "process_client_packet i (Publish pkt) b = Ok (process_publish i pkt b)"
| "process_client_packet i (Subscribe pkt) b = Ok (process_subscribe i pkt b)"
| "process_client_packet i (PubAck pkt) b = Ok (process_puback i pkt b)"
| "process_client_packet i PingReq b = Ok (reply i PingResp b)"
| "process_client_packet i (Disconnect pkt) b = Ok b"
| "process_client_packet i (Connect pkt) b = Err DuplicateConnect"
| "process_client_packet i other b = Ok b"

section \<open>The read buffer\<close>

text \<open>
  The inner loop of the reading task: take packets off the buffer until one is incomplete. An error
  is a packet that cannot be decoded or a second CONNECT; a panic of the decoder ends the task.
\<close>

function (sequential) drain :: "nat \<Rightarrow> broker \<Rightarrow> bytes \<Rightarrow> (broker, conn_error) drained" where
  "drain i b read_buf =
     (case decode_packet read_buf of
        Ok (packet, bytes_read) \<Rightarrow>
          (case process_client_packet i packet b of
             Ok b' \<Rightarrow> drain i b' (drop bytes_read read_buf)
           | Err e \<Rightarrow> Failed e b
           | Panic \<Rightarrow> Crashed b)
      | Err Incomplete \<Rightarrow> Waiting b read_buf
      | Err e \<Rightarrow> Failed (CodecFailure e) b
      | Panic \<Rightarrow> Crashed b)"
  by pat_completeness auto
termination
proof (relation "measure (\<lambda>(i, b, buf). length buf)")
  fix i b buf x packet n b'
  assume "decode_packet buf = Ok x" "(packet, n) = x"
  then show "((i, b', drop n buf), (i, b, buf)) \<in> measure (\<lambda>(i, b, buf). length buf)"
    using packet_sound(2,3) [of buf packet n] by auto
qed simp

declare drain.simps [simp del]

section \<open>The handshake\<close>

definition connack_packet :: "u8 \<Rightarrow> packet" where
  "connack_packet reason_code =
     ConnAck \<lparr>ca_session_present = False, ca_reason_code = reason_code, ca_properties = connack_properties_default\<rparr>"

definition authenticate_client ::
  "(rstr \<Rightarrow> rstr \<Rightarrow> bool) \<Rightarrow> auth_config \<Rightarrow> rstr option \<Rightarrow> rstr option \<Rightarrow> bool" where
  "authenticate_client verify auth username password =
     (case (username, password) of
        (Some u, Some p) \<Rightarrow> authenticate verify auth u p
      | (None, None) \<Rightarrow> authenticate verify auth (lit '''') (lit '''')
      | _ \<Rightarrow> False)"

text \<open>In milliseconds.\<close>

definition keep_alive_duration :: "u16 \<Rightarrow> nat" where
  "keep_alive_duration keep_alive = (if 0 < keep_alive then unat keep_alive * 1500 else 3600 * 24 * 1000)"

text \<open>
  What the first read makes of a connection: it is closed, after the given bytes were written to the
  socket, or it runs with a session and the bytes left in the buffer, or the task panics.
\<close>

datatype first_read = Refused bytes | Accepted nat broker bytes | HandshakeCrash

definition handshake :: "(rstr \<Rightarrow> rstr \<Rightarrow> bool) \<Rightarrow> bytes \<Rightarrow> broker \<Rightarrow> first_read" where
  "handshake verify read_buf b =
     (case decode_packet read_buf of
        Ok (packet, bytes_read) \<Rightarrow>
          (case packet of
             Connect pkt \<Rightarrow>
               let username = c_username pkt;
                   password = map_option from_utf8_lossy (c_password pkt);
                   expiry = (case cp_session_expiry_interval (c_properties pkt) of None \<Rightarrow> 0 | Some e \<Rightarrow> e) in
               if \<not> authenticate_client verify (b_auth b) username password then
                 Refused (encode_packet (connack_packet 0x86))
               else
                 let (i, b) = alloc_session (new_session (b_clock b) (c_client_id pkt) username
                       (c_clean_start pkt) (c_keep_alive pkt) expiry True) b;
                     b = register_session i b;
                     b = reply i (connack_packet 0) b in
                 Accepted i b (drop bytes_read read_buf)
           | _ \<Rightarrow> Refused [])
      | Err e \<Rightarrow> Refused []
      | Panic \<Rightarrow> HandshakeCrash)"

section \<open>A connection\<close>

text \<open>
  \<open>Received\<close> is a read of at least one byte; \<open>Closed\<close> a read of none; \<open>TimedOut\<close> the five seconds of
  the handshake or the keep-alive of a running connection.
\<close>

datatype event = Received bytes | Closed | ReadFailed | TimedOut

datatype connection = Handshaking | Running nat bytes | Done "conn_error option" | Dead

text \<open>
  The clean-up: the session of that client id leaves the map, the writer task is aborted. The abort
  is modelled as done at once, with the receiver that the task drops; the task itself ends at its
  next point of waiting, and may until then still write what is on a channel whose connection is over.
\<close>

definition cleanup :: "nat \<Rightarrow> broker \<Rightarrow> broker" where
  "cleanup i b =
     on_session i (\<lambda>s. s\<lparr>cs_receiver := False\<rparr>) (remove_session (cs_client_id (session_at b i)) b)"

fun connection_event ::
  "(rstr \<Rightarrow> rstr \<Rightarrow> bool) \<Rightarrow> event \<Rightarrow> connection \<Rightarrow> broker \<Rightarrow> connection \<times> broker" where
  "connection_event verify (Received data) Handshaking b =
     (case handshake verify data b of
        Refused out \<Rightarrow> (Done None, b)
      | Accepted i b' rest \<Rightarrow> (Running i rest, b')
      | HandshakeCrash \<Rightarrow> (Dead, b))"
| "connection_event verify ev Handshaking b = (Done None, b)"
| "connection_event verify (Received data) (Running i read_buf) b =
     (case drain i (on_session i (update_activity (b_clock b)) b) (read_buf @ data) of
        Waiting b' rest \<Rightarrow> (Running i rest, b')
      | Failed e b' \<Rightarrow> (Done (Some e), cleanup i b')
      | Crashed b' \<Rightarrow> (Dead, b'))"
| "connection_event verify Closed (Running i read_buf) b = (Done None, cleanup i b)"
| "connection_event verify TimedOut (Running i read_buf) b = (Done None, cleanup i b)"
| "connection_event verify ReadFailed (Running i read_buf) b = (Done (Some ReadFailure), cleanup i b)"
| "connection_event verify ev conn b = (conn, b)"

end
