(* ===== verification/Connection_Laws.thy ===== *)
theory Connection_Laws imports Connection begin

text \<open>
  Lemmas on a connection: its read loop as a packet stream, and what the handlers keep of the broker.
\<close>

section \<open>The read loop\<close>

lemma process_no_panic [simp]: "process_client_packet i p b \<noteq> Panic"
  by (cases p) auto

interpretation reader: packet_stream decode_packet "process_client_packet i" CodecFailure "drain i" for i
proof
  show "drain i b buf =
      (case decode_packet buf of
         Ok (p, n) \<Rightarrow>
           (case process_client_packet i p b of
              Ok b' \<Rightarrow> drain i b' (drop n buf)
            | Err e \<Rightarrow> Failed e b
            | Panic \<Rightarrow> Crashed b)
       | Err e \<Rightarrow> if e = Incomplete then Waiting b buf else Failed (CodecFailure e) b
       | Panic \<Rightarrow> Crashed b)" for b buf
    by (subst drain.simps) (simp split: outcome.split codec_error.split)
qed (use packet_decoder in auto)

declare reader.loop_Nil [simp]

lemmas drain_packet = reader.one_packet [where enc = encode_packet, OF packet_roundtrip]

section \<open>What the handlers keep\<close>

text \<open>The session map, the configuration, and who each session belongs to.\<close>

definition same_sessions :: "broker \<Rightarrow> broker \<Rightarrow> bool" where
  "same_sessions b b' \<longleftrightarrow> b_sessions b' = b_sessions b \<and> b_auth b' = b_auth b \<and>
     length (b_heap b') = length (b_heap b) \<and>
     (\<forall>j. cs_client_id (session_at b' j) = cs_client_id (session_at b j) \<and>
       cs_username (session_at b' j) = cs_username (session_at b j))"

lemma same_refl [simp]: "same_sessions b b"
  by (simp add: same_sessions_def)

lemma same_trans: "same_sessions a b \<Longrightarrow> same_sessions b c \<Longrightarrow> same_sessions a c"
  by (simp add: same_sessions_def)

lemma same_on_session:
  assumes "\<And>s. cs_client_id (f s) = cs_client_id s" "\<And>s. cs_username (f s) = cs_username s"
  shows "same_sessions b (on_session i f b)"
proof (cases "i < length (b_heap b)")
  case True
  with assms show ?thesis by (simp add: same_sessions_def session_at_on_session)
next
  case False
  then have "on_session i f b = b" by (cases b) (simp add: on_session_def list_update_beyond)
  then show ?thesis by simp
qed

lemma send_buf_fields [simp]: "cs_username (send_buf buf s) = cs_username s"
  by (simp add: send_buf_def)

lemma deliver_username [simp]: "cs_username (deliver now topic payload qos retain sid s) = cs_username s"
  by (simp add: deliver_def session_publish_def get_next_packet_id_def add_in_flight_def Let_def split: prod.split)

lemma same_reply: "same_sessions b (reply i p b)"
  unfolding reply_def by (rule same_on_session) simp_all

lemma ok_reply: "broker_ok b \<Longrightarrow> broker_ok (reply i p b)"
  unfolding reply_def by (rule broker_ok_on_session) simp_all

lemma router_reply [simp]: "b_router (reply i p b) = b_router b" "b_auth (reply i p b) = b_auth b"
  by (simp_all add: reply_def)

lemma fold_deliver_fields:
  "cs_client_id (fold (deliver now topic payload qos retain) sids s) = cs_client_id s \<and>
   cs_username (fold (deliver now topic payload qos retain) sids s) = cs_username s"
  by (induction sids arbitrary: s) simp_all

lemma length_heap_send [simp]: "length (b_heap (send_publish_to_client c t p q r sid b)) = length (b_heap b)"
  by (simp add: send_publish_to_client_def Let_def split: option.split prod.split)

lemma length_heap_route_normal [simp]: "length (b_heap (route_normal subs t p q r b)) = length (b_heap b)"
  by (induction subs arbitrary: b) simp_all

lemma length_heap_route_shared [simp]: "length (b_heap (route_shared groups t p q r b)) = length (b_heap b)"
proof (induction groups arbitrary: b)
  case (Cons gs groups)
  obtain g subs where "gs = (g, subs)" by (cases gs)
  with Cons show ?case by (simp add: next_index_def Let_def)
qed simp

lemma same_route:
  assumes "broker_ok b"
  shows "same_sessions b (route_publish from_client topic payload qos retain b)"
proof -
  note spec = route_publish_spec [OF assms, where from_client = from_client and topic = topic and payload = payload
      and qos = qos and retain = retain]
  have "cs_client_id (session_at (route_publish from_client topic payload qos retain b) j) = cs_client_id (session_at b j)
    \<and> cs_username (session_at (route_publish from_client topic payload qos retain b) j) = cs_username (session_at b j)" for j
  proof (cases "\<exists>c. live b c j")
    case True
    then obtain c where "live b c j" by blast
    from spec(7) [OF this] show ?thesis by (simp add: fold_deliver_fields)
  next
    case False
    then show ?thesis using spec(8) [of j] by simp
  qed
  moreover have "length (b_heap (route_publish from_client topic payload qos retain b)) = length (b_heap b)"
    by (simp add: route_publish_def Let_def)
  ultimately show ?thesis using spec by (simp add: same_sessions_def)
qed

lemma acknowledge_keeps: "same_sessions b (acknowledge i pkt rc b)" "broker_ok b \<Longrightarrow> broker_ok (acknowledge i pkt rc b)"
  "b_router (acknowledge i pkt rc b) = b_router b"
  by (auto simp: acknowledge_def same_reply ok_reply split: option.split)

lemma broker_ok_subscribe: "broker_ok b \<Longrightarrow> broker_ok (broker_subscribe c f q ident b)"
  by (simp add: broker_subscribe_def Let_def) (simp add: broker_ok_def session_at_def trie.ok_sub)

lemma same_subscribe: "same_sessions b (broker_subscribe c f q ident b)"
  by (simp add: broker_subscribe_def Let_def same_sessions_def spawn_def session_at_def)

lemma subscribe_filters_keeps:
  assumes "broker_ok b" and "subscribe_filters i ident subs codes b = (codes', b')"
  shows "broker_ok b' \<and> same_sessions b b'"
  using assms
proof (induction subs arbitrary: codes b)
  case (Cons sub subs)
  show ?case
  proof (cases "authorize (b_auth b) (session_username b i) (s_topic_filter sub) (lit ''read'')")
    case True
    let ?b = "broker_subscribe (cs_client_id (session_at b i)) (s_topic_filter sub) (s_options sub AND 3) ident b"
    have "broker_ok b' \<and> same_sessions ?b b'"
      using Cons.IH [of ?b] Cons.prems True broker_ok_subscribe by simp
    with same_trans [OF same_subscribe] show ?thesis by blast
  next
    case False
    with Cons show ?thesis by simp
  qed
qed simp

lemma process_keeps:
  assumes "broker_ok b" and "process_client_packet i p b = Ok b'"
  shows "broker_ok b' \<and> same_sessions b b'"
proof (cases p)
  case (Publish pkt)
  let ?b = "route_publish (cs_client_id (session_at b i)) (p_topic pkt) (p_payload pkt) (p_qos pkt) (p_retain pkt) b"
  have "broker_ok ?b" using assms(1) by (rule route_publish_spec(1))
  then have "broker_ok (process_publish i pkt b) \<and> same_sessions b (process_publish i pkt b)"
    using acknowledge_keeps(1,2) same_trans [OF same_route [OF assms(1)] acknowledge_keeps(1)] assms(1)
    by (simp add: process_publish_def)
  with assms Publish show ?thesis by simp
next
  case (Subscribe pkt)
  obtain codes b1 where s: "subscribe_filters i (sp_subscription_identifier (sub_properties pkt))
      (sub_subscriptions pkt) [] b = (codes, b1)"
    by (metis surj_pair)
  with subscribe_filters_keeps [OF assms(1) s] assms Subscribe show ?thesis
    by (auto simp: process_subscribe_def ok_reply intro: same_trans [OF _ same_reply])
next
  case (PubAck pkt)
  have f: "cs_client_id (snd (remove_in_flight pid s)) = cs_client_id s"
    "cs_username (snd (remove_in_flight pid s)) = cs_username s" for pid s
    by (simp_all add: remove_in_flight_def)
  let ?b = "on_session i (\<lambda>s. snd (remove_in_flight (pa_packet_id pkt) s)) b"
  have "broker_ok ?b" "same_sessions b ?b"
    using broker_ok_on_session [OF assms(1)] same_on_session f by simp_all
  moreover have "same_sessions ?b (spawn t ?b)" for t by (simp add: same_sessions_def)
  ultimately show ?thesis
    using assms(2) PubAck by (auto simp: process_puback_def Let_def intro: same_trans)
qed (use assms same_reply ok_reply in auto)

lemma drain_keeps:
  assumes "broker_ok b"
  shows "broker_ok (after (drain i b buf))" and "same_sessions b (after (drain i b buf))"
proof -
  have "broker_ok (after (drain i b buf)) \<and> same_sessions b (after (drain i b buf))"
    by (rule reader.keeps) (use assms process_keeps in \<open>auto intro: same_trans\<close>)
  then show "broker_ok (after (drain i b buf))" and "same_sessions b (after (drain i b buf))" by simp_all
qed

end
