(* ===== verification/Connection_Properties.thy ===== *)
theory Connection_Properties imports Connection_Laws Codec_Properties begin

text \<open>
  The properties of a connection, \<open>src/main.rs\<close>: the read loop against any chunking of the stream,
  what the handlers do, the handshake, and the end of a connection.
\<close>

section \<open>The read loop\<close>

text \<open>
  The read loop does not depend on how the network cuts the stream. Feeding the chunks of a
  stream one read at a time, with the unfinished packet kept in the buffer in between, leaves the
  broker in the same state, with the same bytes waiting or the same error, as the whole stream in
  one read. The loop ends on every buffer.
\<close>

theorem chunking_irrelevant:
  "foldl (feed (drain i)) (Waiting b []) chunks = drain i b (concat chunks)"
  by (rule reader.chunks)

text \<open>
  C16: the packets of a stream are handled once each, in order. When the peer's stream is the encoding
  of packets \<open>ps\<close>, cut into reads in any way, and the handlers accept them, the broker ends in the
  state of the handlers run on \<open>ps\<close> in sequence, with nothing left in the buffer.
\<close>

theorem stream_processed_in_order:
  assumes "list_all wf_packet ps" and "concat chunks = concat (map encode_packet ps)"
    and "handle_all (process_client_packet i) ps b = Ok b'"
  shows "foldl (feed (drain i)) (Waiting b []) chunks = Waiting b' []"
  using reader.chunks [of i b chunks] reader.in_order [OF _ assms(3), of encode_packet "[]"] assms(1,2)
  by (simp add: reader.loop_Nil list_all_iff packet_roundtrip)

lemma ping_bytes: "encode_packet PingReq = [0xC0, 0]" "wf_packet PingReq"
  by (simp_all add: encode_packet_def wf_packet_def encode_varint.simps)

theorem stream_processed_in_order_witness:
  "foldl (feed (drain 0)) (Waiting demo_broker []) [[0xC0], [0, 0xC0, 0]] =
     Waiting (reply 0 PingResp (reply 0 PingResp demo_broker)) []"
  using stream_processed_in_order [of "[PingReq, PingReq]" "[[0xC0], [0, 0xC0, 0]]" 0 demo_broker]
  by (simp add: ping_bytes)

lemma publish_topic_overruns:
  assumes "drop_bit 1 (flags AND 0x06) \<le> 2" and "length rest < unat len"
  shows "decode_publish flags (write_u16 len @ rest) = Err Incomplete"
  using assms by (simp add: decode_publish_def read_str_def Let_def not_less [symmetric])

lemma subscribe_properties_overrun:
  assumes "plen < 2 ^ 28" and "length rest < plen"
  shows "decode_subscribe 2 (write_u16 pid @ encode_varint (of_nat plen) @ rest) = Err Incomplete"
proof -
  have n: "unat (of_nat plen :: u32) = plen" using assms(1) by (simp add: unat_of_nat)
  with assms have v: "decode_varint (encode_varint (of_nat plen) @ rest) =
      Ok (of_nat plen, length (encode_varint (of_nat plen)))"
    by (simp add: decode_encode_varint)
  have "encode_varint (of_nat plen) \<noteq> []" by (subst encode_varint.simps) (simp add: Let_def)
  with v n assms(2) show ?thesis
    by (simp add: decode_subscribe_def property_codec_defs decode_properties_def slice_from_def)
qed

text \<open>
  C36: a complete but malformed frame can be reported \<open>Incomplete\<close> for ever. When the reader of a
  packet runs out of bytes inside its frame, it returns the error of a frame that has not arrived:
  then no later byte changes the answer, and a read loop that has come to the frame takes nothing off
  its buffer any more, whatever arrives, so the broker's state never changes again through this
  connection and the buffer keeps every byte. So it is with every PUBLISH whose topic is longer than
  its frame and every SUBSCRIBE whose property section is.
\<close>

theorem overrun_is_incomplete_for_ever:
  fixes h :: u8 and payload :: bytes
  assumes "length payload < 2 ^ 28"
  defines "frame \<equiv> h # encode_varint (of_nat (length payload)) @ payload"
    and "inside \<equiv> decode_payload (drop_bit 4 h) (h AND 0x0F) (of_nat (length payload)) payload"
  shows "(inside = Err Incomplete \<longrightarrow> decode_packet (frame @ later) = Err Incomplete \<and>
      foldl (feed (drain i)) (drain i b frame) chunks = Waiting b (frame @ concat chunks)) \<and>
    (drop_bit 4 h = 3 \<and> drop_bit 1 (h AND 0x06) \<le> 2 \<and> payload = write_u16 len @ rest \<and> length rest < unat len \<longrightarrow>
      inside = Err Incomplete) \<and>
    (h = 0x82 \<and> payload = write_u16 pid @ encode_varint (of_nat plen) @ rest \<and> plen < 2 ^ 28 \<and> length rest < plen \<longrightarrow>
      inside = Err Incomplete)"
proof (intro conjI impI)
  assume inside: "inside = Err Incomplete"
  show later: "decode_packet (frame @ later) = Err Incomplete" for later
    using split_frame_encode [OF assms(1), of h later] inside
    by (simp add: frame_def inside_def decode_packet_split)
  have "drain i b (frame @ later) = Waiting b (frame @ later)" for later
    by (subst drain.simps) (simp add: later)
  then show "foldl (feed (drain i)) (drain i b frame) chunks = Waiting b (frame @ concat chunks)"
    by (simp add: reader.feed_chunks)
next
  assume *: "drop_bit 4 h = 3 \<and> drop_bit 1 (h AND 0x06) \<le> 2 \<and> payload = write_u16 len @ rest \<and> length rest < unat len"
  have "(h AND 0x0F) AND 0x06 = h AND 0x06" unfolding and.assoc by simp
  with * publish_topic_overruns [of "h AND 0x0F" rest len] have "decode_publish (h AND 0x0F) payload = Err Incomplete"
    by metis
  with * show "inside = Err Incomplete" by (simp add: inside_def decode_payload_def)
next
  assume *: "h = 0x82 \<and> payload = write_u16 pid @ encode_varint (of_nat plen) @ rest \<and> plen < 2 ^ 28 \<and> length rest < plen"
  then have "drop_bit 4 h = 8" "h AND 0x0F = 2" by simp_all
  with * show "inside = Err Incomplete" by (simp add: inside_def decode_payload_def subscribe_properties_overrun)
qed

theorem overrun_is_incomplete_for_ever_witness:
  "decode_packet ([0x30, 2, 0, 5] @ [0xC0, 0]) = Err Incomplete \<and>
   foldl (feed (drain 0)) (drain 0 demo_broker [0x30, 2, 0, 5]) [[0xC0], [0]] = Waiting demo_broker [0x30, 2, 0, 5, 0xC0, 0]"
proof -
  have "encode_varint 2 = [2]" by (simp add: encode_varint.simps)
  moreover have "[0, 5] = write_u16 5 @ []" by (simp add: write_u16_def u16_to_be_bytes_def)
  ultimately show ?thesis
    using overrun_is_incomplete_for_ever [where payload = "[0, 5]" and h = "0x30" and later = "[0xC0, 0]" and i = 0 and b = demo_broker
        and chunks = "[[0xC0], [0]]" and len = 5 and rest = "[]"] by simp
qed

section \<open>Handlers\<close>

text \<open>
  A publication goes through the ACL. Without the right to write its topic, the message reaches
  nobody: the only effect is the refusal \<open>87\<close> on the publisher's own channel, and that only at QoS 1.
  With it, the message is routed as from that client and, at QoS 1, acknowledged with \<open>00\<close> after it
  was routed.
\<close>

theorem publish_checked:
  "process_client_packet i (Publish pkt) b = Ok
    (let ack = (\<lambda>rc b. case p_packet_id pkt of
                  Some pid \<Rightarrow> if p_qos pkt = 1 then reply i (puback_packet pid rc) b else b
                | None \<Rightarrow> b) in
     if authorize (b_auth b) (session_username b i) (p_topic pkt) (lit ''write'')
     then ack 0 (route_publish (cs_client_id (session_at b i)) (p_topic pkt) (p_payload pkt) (p_qos pkt) (p_retain pkt) b)
     else ack 0x87 b)"
  by (simp add: process_publish_def acknowledge_def Let_def split: option.split)

text \<open>What a SUBSCRIBE grants: per filter the code, and the subscriptions of the allowed ones.\<close>

definition grant :: "broker \<Rightarrow> nat \<Rightarrow> subscription \<Rightarrow> bool" where
  "grant b i sub \<longleftrightarrow> authorize (b_auth b) (session_username b i) (s_topic_filter sub) (lit ''read'')"

definition grant_ops :: "broker \<Rightarrow> nat \<Rightarrow> u32 option \<Rightarrow> subscription list \<Rightarrow> table_op list" where
  "grant_ops b i ident subs = map (\<lambda>sub. SubscribeOp (cs_client_id (session_at b i)) (s_topic_filter sub)
     (s_options sub AND 0x03) ident) (filter (grant b i) subs)"

lemma grant_subscribe:
  "session_at (broker_subscribe c f q ident b) i = session_at b i"
  "grant (broker_subscribe c f q ident b) i = grant b i"
  "grant_ops (broker_subscribe c f q ident b) i ident' subs = grant_ops b i ident' subs"
proof -
  show at: "session_at (broker_subscribe c f q ident b) i = session_at b i"
    by (simp add: broker_subscribe_def Let_def spawn_def session_at_def)
  have "b_auth (broker_subscribe c f q ident b) = b_auth b" by (simp add: broker_subscribe_def Let_def)
  with at show g: "grant (broker_subscribe c f q ident b) i = grant b i"
    by (simp add: fun_eq_iff grant_def session_username_def)
  show "grant_ops (broker_subscribe c f q ident b) i ident' subs = grant_ops b i ident' subs"
    by (simp add: grant_ops_def g at)
qed

lemma subscribe_filters_spec:
  "subscribe_filters i ident subs codes b =
    (codes @ map (\<lambda>sub. if grant b i sub then s_options sub AND 0x03 else 0x87) subs,
     fold broker_op (grant_ops b i ident subs) b)"
proof (induction subs arbitrary: codes b)
  case Nil
  show ?case by (simp add: grant_ops_def)
next
  case (Cons sub subs)
  show ?case
  proof (cases "grant b i sub")
    case True
    let ?b = "broker_subscribe (cs_client_id (session_at b i)) (s_topic_filter sub) (s_options sub AND 3) ident b"
    have "fold broker_op (grant_ops b i ident (sub # subs)) b = fold broker_op (grant_ops b i ident subs) ?b"
      using True by (simp add: grant_ops_def)
    moreover have "authorize (b_auth b) (session_username b i) (s_topic_filter sub) (lit ''read'')"
      using True by (simp only: grant_def)
    ultimately show ?thesis
      using True Cons [of "codes @ [s_options sub AND 3]" ?b] by (simp add: grant_subscribe del: lit_simps)
  next
    case False
    have "\<not> authorize (b_auth b) (session_username b i) (s_topic_filter sub) (lit ''read'')"
      using False by (simp add: grant_def del: lit_simps)
    with \<open>\<not> grant b i sub\<close> Cons show ?thesis by (simp add: grant_ops_def del: lit_simps)
  qed
qed

text \<open>
  C24: a SUBSCRIBE is answered filter by filter. The SUBACK carries one code per filter in the order of
  the request, the two QoS bits of the options for a filter the user may read and \<open>87\<close> for any
  other; exactly the allowed filters are subscribed, in order, each spawning its database task.
\<close>

theorem subscribe_answered:
  "process_client_packet i (Packets.Subscribe pkt) b = Ok
    (reply i (SubAck \<lparr>sa_packet_id = sub_packet_id pkt, sa_properties = suback_properties_default,
        sa_reason_codes = map (\<lambda>sub. if grant b i sub then s_options sub AND 0x03 else 0x87) (sub_subscriptions pkt)\<rparr>)
      (fold broker_op
        (grant_ops b i (sp_subscription_identifier (sub_properties pkt)) (sub_subscriptions pkt)) b))"
  by (simp add: process_subscribe_def subscribe_filters_spec)

text \<open>
  C29: a QoS 1 delivery is remembered until it is acknowledged, in memory and in the database, and no
  longer. Let the packet identifier that the session gives next be in use neither in the session's map
  of messages in flight nor in a row of the client in the database. Handing a message to the client
  then stores it under this identifier in the session and, once the spawned task has run, as a row of
  the client; when the client's PUBACK for it has been handled and its task has run, both are as
  before.
\<close>

theorem puback_completes_delivery:
  fixes db :: database and c topic :: rstr and payload :: bytes and qos :: u8 and retain :: bool and sid :: "u32 option"
  assumes "broker_ok b" and "live b c i" and "0 < qos"
    and "pa_packet_id ack = fst (get_next_packet_id (session_at b i))"
    and "map_of (cs_in_flight (session_at b i)) (pa_packet_id ack) = None"
    and "map_of (db_in_flight (run_tasks now (b_tasks b) db)) (c, pa_packet_id ack) = None"
  defines "b1 \<equiv> send_publish_to_client c topic payload qos retain sid b"
  shows "map_of (cs_in_flight (session_at b1 i)) (pa_packet_id ack) =
      Some \<lparr>if_packet_id = pa_packet_id ack, if_topic = topic, if_payload = payload, if_qos = qos, if_sent_at = b_clock b\<rparr> \<and>
    map_of (db_in_flight (run_tasks now (b_tasks b1) db)) (c, pa_packet_id ack) =
      Some \<lparr>fr_topic = topic, fr_payload = payload, fr_qos = qos\<rparr> \<and>
    (\<exists>b2. process_client_packet i (PubAck ack) b1 = Ok b2 \<and>
      cs_in_flight (session_at b2 i) = cs_in_flight (session_at b i) \<and>
      run_tasks now (b_tasks b2) db = run_tasks now (b_tasks b) db)"
proof -
  let ?pid = "pa_packet_id ack"
  obtain s' where g: "get_next_packet_id (session_at b i) = (?pid, s')"
    using assms(4) by (metis prod.collapse)
  note s' = get_next_fields [OF g]
  have i: "i < length (b_heap b)" and id: "cs_client_id (session_at b i) = c" using live_ok [OF assms(1,2)] by simp_all
  let ?s = "send_buf (encode_packet (publish_packet topic payload qos retain (Some ?pid) sid))
    (add_in_flight (b_clock b) ?pid topic payload qos s')"
  have b1: "b1 = on_session i (\<lambda>_. ?s) (spawn (SaveInFlight c ?pid topic payload qos) b)"
    using assms(2,3) g by (simp add: b1_def send_publish_to_client_def live_def session_publish_def)
  have at: "session_at b1 i = ?s" using i by (simp add: b1 session_at_on_session)
  have fresh: "AList.delete k (AList.update k v m) = m" if "map_of m k = None" for k :: 'k and v :: 'v and m
    using that by (induction m) (auto split: if_splits)
  have mem: "cs_in_flight ?s = AList.update ?pid \<lparr>if_packet_id = ?pid, if_topic = topic, if_payload = payload,
      if_qos = qos, if_sent_at = b_clock b\<rparr> (cs_in_flight (session_at b i))"
    using s' by (simp add: add_in_flight_def)
  let ?b2 = "process_puback i ack b1"
  have "cs_in_flight (session_at ?b2 i) = cs_in_flight (session_at b i)"
    using i at fresh [OF assms(5)] mem
    by (simp add: process_puback_def Let_def session_at_on_session b1 remove_in_flight_def)
  moreover have "b_tasks ?b2 = b_tasks b @ [SaveInFlight c ?pid topic payload qos, DeleteInFlight c ?pid]"
    using i at id s' by (simp add: process_puback_def Let_def b1 session_at_on_session remove_in_flight_def)
  then have "run_tasks now (b_tasks ?b2) db = run_tasks now (b_tasks b) db"
    using fresh [OF assms(6)] by (simp add: all_ok_def task_defs)
  ultimately show ?thesis
    using at mem b1 by (simp add: update_conv' all_ok_def task_defs)
qed

theorem puback_completes_delivery_witness:
  "cs_in_flight (session_at (send_publish_to_client (lit ''c'') (lit ''t'') [7] 1 False None demo_broker) 0) \<noteq> [] \<and>
   (\<exists>b2. process_client_packet 0 (puback_packet 1 0)
      (send_publish_to_client (lit ''c'') (lit ''t'') [7] 1 False None demo_broker) = Ok b2 \<and>
     cs_in_flight (session_at b2 0) = cs_in_flight (session_at demo_broker 0))"
proof -
  let ?ack = "\<lparr>pa_packet_id = 1, pa_reason_code = 0, pa_properties = puback_properties_default\<rparr>"
  have pid: "pa_packet_id ?ack = fst (get_next_packet_id (session_at demo_broker 0))"
    using demo_broker_facts(6) by (simp add: get_next_packet_id_def)
  have f: "map_of (cs_in_flight (session_at demo_broker 0)) (pa_packet_id ?ack) = None"
    by (simp add: demo_broker_def alloc_session_def new_session_def new_broker_def register_session_def
        session_at_def broker_subscribe_def spawn_def Let_def)
  have d: "map_of (db_in_flight (run_tasks 0 (b_tasks demo_broker) empty_database)) (lit ''c'', pa_packet_id ?ack) = None"
    by (simp add: demo_broker_def alloc_session_def new_session_def new_broker_def register_session_def
        session_at_def broker_subscribe_def spawn_def Let_def all_ok_def task_defs empty_database_def)
  from puback_completes_delivery [OF demo_broker_facts(1,2) _ pid f d, where qos = 1 and topic = "lit ''t''" and
      payload = "[7]" and retain = False and sid = None] show ?thesis
    by (auto simp: puback_packet_def)
qed

text \<open>
  A DISCONNECT is not heeded. The handler leaves the broker as it is and the read loop goes on
  with the next packet, so whatever the client sent behind its DISCONNECT is still handled: the
  stream with it and the stream without it have the same effect.
\<close>

theorem disconnect_ignored:
  assumes "wf_packet (Disconnect pkt)"
  shows "drain i b (encode_packet (Disconnect pkt) @ rest) = drain i b rest"
  using drain_packet [OF assms] by simp

theorem disconnect_ignored_witness:
  "drain 0 demo_broker ([0xE0, 0] @ [0xC0, 0]) = Waiting (reply 0 PingResp demo_broker) []"
proof -
  let ?d = "\<lparr>d_reason_code = 0, d_properties = disconnect_properties_default\<rparr>"
  have e: "encode_packet (Disconnect ?d) = [0xE0, 0]"
    by (simp add: encode_packet_def encode_disconnect_def disconnect_properties_default_def encode_varint.simps)
  have wf: "wf_packet (Disconnect ?d)"
    by (simp add: wf_packet_def encode_disconnect_def disconnect_properties_default_def
        wf_disconnect_properties_def user_properties_ok_def)
  have "drain 0 demo_broker [0xC0, 0] = Waiting (reply 0 PingResp demo_broker) []"
    using drain_packet [OF ping_bytes(2), of 0 demo_broker "[]"] by (simp add: ping_bytes(1))
  with disconnect_ignored [OF wf, of 0 demo_broker "[0xC0, 0]"] show ?thesis by (simp add: e)
qed

section \<open>The handshake\<close>

lemma handshake_accepts:
  assumes "broker_ok b" and "handshake verify data b = Accepted i b' rest"
  shows "\<exists>pkt n. decode_packet data = Ok (Connect pkt, n) \<and> rest = drop n data \<and>
    authenticate_client verify (b_auth b) (c_username pkt) (map_option from_utf8_lossy (c_password pkt)) \<and>
    i = length (b_heap b) \<and> live b' (c_client_id pkt) i \<and>
    cs_username (session_at b' i) = c_username pkt \<and>
    cs_sent (session_at b' i) = [encode_packet (connack_packet 0)] \<and> broker_ok b'"
proof -
  from assms(2) obtain pkt n where d: "decode_packet data = Ok (Connect pkt, n)"
    by (auto simp: handshake_def split: outcome.splits prod.splits packet.splits)
  define s where "s = new_session (b_clock b) (c_client_id pkt) (c_username pkt) (c_clean_start pkt)
    (c_keep_alive pkt) (case cp_session_expiry_interval (c_properties pkt) of None \<Rightarrow> 0 | Some e \<Rightarrow> e) True"
  define b1 where "b1 = b\<lparr>b_heap := b_heap b @ [s]\<rparr>"
  from assms(2) d have a: "authenticate_client verify (b_auth b) (c_username pkt) (map_option from_utf8_lossy (c_password pkt))"
    and i: "i = length (b_heap b)" and rest: "rest = drop n data"
    and b': "b' = reply i (connack_packet 0) (register_session i b1)"
    by (auto simp: handshake_def Let_def alloc_session_def s_def b1_def split: if_splits)
  have at: "session_at b1 j = (if j < length (b_heap b) then session_at b j else s)" if "j < length (b_heap b1)" for j
    using that by (auto simp: session_at_def b1_def nth_append less_Suc_eq)
  have ok1: "broker_ok b1"
    using assms(1) by (auto simp: broker_ok_def b1_def session_at_def nth_append)
  have il: "i < length (b_heap b1)" by (simp add: i b1_def)
  note r = broker_ok_register [OF ok1 il]
  have si: "session_at b1 i = s" using at [OF il] by (simp add: i)
  have "session_at b' i = send_buf (encode_packet (connack_packet 0)) s"
    unfolding b' reply_def using il r(3,4) si by (simp add: session_at_on_session)
  moreover have "live b' (c_client_id pkt) i"
    using r(2) [of "c_client_id pkt" i] si by (simp add: b' reply_def live_def s_def new_session_def)
  moreover have "broker_ok b'" unfolding b' using r(1) by (rule ok_reply)
  ultimately show ?thesis
    using a d i rest by (auto simp: s_def new_session_def send_buf_def)
qed

text \<open>
  C18: nobody gets a session without authentication. When the handshake accepts, the first packet was
  a CONNECT whose credentials passed: user name and password both given and accepted by the
  authentication, or both absent and the anonymous login accepted; the session made for it is new,
  is the one in the map for that client id, and the CONNACK \<open>00\<close> is the first buffer on its channel.
\<close>

theorem handshake_authenticates:
  assumes "broker_ok b" and "handshake verify data b = Accepted i b' rest"
  shows "\<exists>pkt n. decode_packet data = Ok (Connect pkt, n) \<and> rest = drop n data \<and>
    (case (c_username pkt, c_password pkt) of
       (Some u, Some p) \<Rightarrow> authenticate verify (b_auth b) u (from_utf8_lossy p)
     | (None, None) \<Rightarrow> authenticate verify (b_auth b) [] []
     | _ \<Rightarrow> False) \<and>
    i = length (b_heap b) \<and> live b' (c_client_id pkt) i \<and>
    cs_username (session_at b' i) = c_username pkt \<and>
    cs_sent (session_at b' i) = [encode_packet (connack_packet 0)] \<and> broker_ok b'"
proof -
  have "authenticate_client verify (b_auth b) u (map_option from_utf8_lossy p) \<longleftrightarrow>
    (case (u, p) of
       (Some u, Some p) \<Rightarrow> authenticate verify (b_auth b) u (from_utf8_lossy p)
     | (None, None) \<Rightarrow> authenticate verify (b_auth b) [] []
     | _ \<Rightarrow> False)" for u p
    by (simp add: authenticate_client_def split: option.split)
  with handshake_accepts [OF assms] show ?thesis by simp
qed

text \<open>A CONNECT of client \<open>a\<close> without credentials, in the bytes of the wire.\<close>

definition connect_bytes :: bytes where
  "connect_bytes = [0x10, 14, 0, 4, 0x4D, 0x51, 0x54, 0x54, 5, 2, 0, 60, 0, 0, 1, 0x61]"

definition sample_connect :: connect where
  "sample_connect = \<lparr>c_client_id = lit ''a'', c_keep_alive = 60, c_clean_start = True, c_username = None,
     c_password = None, c_properties = connect_properties_default\<rparr>"

lemma sample_connect_wf: "wf_packet (Connect sample_connect)"
  and sample_connect_bytes: "encode_packet (Connect sample_connect) = connect_bytes"
  by (simp_all add: sample_connect_def connect_bytes_def wf_packet_def wf_connect_def wf_connect_properties_def
      connect_properties_default_def connect_properties_body_def user_properties_ok_def str_ok_def utf8_valid_ascii
      encode_eval)

lemma connect_bytes_decode: "decode_packet (connect_bytes @ rest) = Ok (Connect sample_connect, 16)"
  using packet_roundtrip [OF sample_connect_wf, of rest]
  by (simp add: sample_connect_bytes) (simp add: connect_bytes_def)

lemma connect_bytes_accepted:
  "handshake verify (connect_bytes @ rest) (new_broker auth_anonymous) =
    (case handshake verify connect_bytes (new_broker auth_anonymous) of Accepted i b r \<Rightarrow> Accepted i b rest | h \<Rightarrow> h)"
  "\<exists>b. handshake verify connect_bytes (new_broker auth_anonymous) = Accepted 0 b []"
  using connect_bytes_decode [of rest] connect_bytes_decode [of "[]"]
  by (simp_all add: handshake_def Let_def authenticate_client_def authenticate_def new_broker_def auth_anonymous_def
      alloc_session_def sample_connect_def) (simp_all add: connect_bytes_def)

theorem handshake_authenticates_witness:
  "\<exists>b'. handshake (\<lambda>_ _. False) connect_bytes (new_broker auth_anonymous) = Accepted 0 b' [] \<and>
    live b' (lit ''a'') 0"
proof -
  obtain b' where h: "handshake (\<lambda>_ _. False) connect_bytes (new_broker auth_anonymous) = Accepted 0 b' []"
    using connect_bytes_accepted(2) by blast
  from handshake_authenticates [OF broker_ok_new h] connect_bytes_decode [of "[]"] h show ?thesis
    by (auto simp: sample_connect_def)
qed

text \<open>
  A CONNECT must arrive in one read. If the first read ends inside the CONNECT, wherever it is
  cut, the connection is closed without an answer, although the rest of the packet may be on its way.
\<close>

theorem split_connect_refused:
  assumes "wf_packet (Connect pkt)" and "k < length (encode_packet (Connect pkt))"
  shows "connection_event verify (Received (take k (encode_packet (Connect pkt)))) Handshaking b = (Done None, b)"
  using packet_strict_prefix [OF assms] by (simp add: handshake_def)

theorem split_connect_refused_witness:
  "connection_event (\<lambda>_ _. True) (Received [0x10, 14, 0]) Handshaking (new_broker auth_anonymous) =
    (Done None, new_broker auth_anonymous)"
  using split_connect_refused [OF sample_connect_wf, where k = 3 and verify = "\<lambda>_ _. True" and
      b = "new_broker auth_anonymous"]
  unfolding sample_connect_bytes by (simp add: connect_bytes_def)

text \<open>
  What a client sends right behind its CONNECT waits for the next read. The handshake keeps those
  bytes in the buffer and handles none of them: the broker is in the same state as if they had not
  been sent, so a client that pipelines a PINGREQ with its CONNECT and then waits gets no answer.
\<close>

theorem pipelined_packets_wait:
  "\<exists>b. connection_event verify (Received (connect_bytes @ rest)) Handshaking (new_broker auth_anonymous) =
      (Running 0 rest, b) \<and>
    connection_event verify (Received connect_bytes) Handshaking (new_broker auth_anonymous) = (Running 0 [], b)"
  using connect_bytes_accepted(1) [of verify rest] connect_bytes_accepted(2) [of verify] by auto

section \<open>The end of a connection\<close>

lemma connection_ended:
  assumes "broker_ok b" and "i < length (b_heap b)"
    and "connection_event verify ev (Running i read_buf) b = (Done reason, b')"
  shows "\<not> live b' (cs_client_id (session_at b i)) j \<and> \<not> cs_receiver (session_at b' i) \<and> broker_ok b'"
proof -
  have clean: "\<not> live (cleanup i x) (cs_client_id (session_at b i)) j \<and> \<not> cs_receiver (session_at (cleanup i x) i) \<and>
      broker_ok (cleanup i x)"
    if "broker_ok x" "same_sessions b x" for x
  proof -
    note rm = broker_ok_remove [OF that(1), of "cs_client_id (session_at x i)"]
    have "i < length (b_heap (remove_session (cs_client_id (session_at x i)) x))"
      using assms(2) that(2) rm(3) by (simp add: same_sessions_def)
    then have "\<not> cs_receiver (session_at (cleanup i x) i)"
      by (simp add: cleanup_def session_at_on_session)
    moreover have "broker_ok (cleanup i x)"
      unfolding cleanup_def by (rule broker_ok_on_session [OF rm(1)]) simp
    moreover have "\<not> live (cleanup i x) (cs_client_id (session_at b i)) j"
      using rm(2) [of "cs_client_id (session_at x i)" j] that(2)
      by (simp add: cleanup_def live_def same_sessions_def)
    ultimately show ?thesis by blast
  qed
  have upd: "broker_ok (on_session i (update_activity t) b)" "same_sessions b (on_session i (update_activity t) b)" for t
    by (rule broker_ok_on_session [OF assms(1)], simp add: update_activity_def)
      (rule same_on_session, simp_all add: update_activity_def)
  show ?thesis
  proof (cases ev)
    case (Received data)
    let ?b = "on_session i (update_activity (b_clock b)) b"
    obtain e x where x: "drain i ?b (read_buf @ data) = Failed e x" "b' = cleanup i x"
      using assms(3) Received by (auto split: drained.splits)
    from drain_keeps [OF upd(1) [of "b_clock b"], where i = i and buf = "read_buf @ data"] x(1)
    have "broker_ok x" "same_sessions ?b x" by simp_all
    then have "broker_ok x" "same_sessions b x" by (auto intro: same_trans [OF upd(2)])
    with clean x(2) show ?thesis by blast
  qed (use assms clean in auto)
qed

text \<open>
  C23: every regular end of a connection cleans up. When a running connection stops because the peer
  closed it, a read failed, the keep-alive expired, a packet could not be decoded or a second
  CONNECT came, the map holds no session of that client id any more, and its channel is closed.
\<close>

theorem connection_end_cleans_up:
  assumes "broker_ok b" and "i < length (b_heap b)"
    and "connection_event verify ev (Running i read_buf) b = (Done reason, b')"
  shows "\<not> live b' (cs_client_id (session_at b i)) j \<and> \<not> cs_receiver (session_at b' i) \<and> broker_ok b'"
  using assms by (rule connection_ended)

theorem connection_end_cleans_up_witness:
  "\<not> live (snd (connection_event (\<lambda>_ _. True) TimedOut (Running 0 []) demo_broker)) (lit ''c'') 0"
proof -
  have l: "0 < length (b_heap demo_broker)" "cs_client_id (session_at demo_broker 0) = lit ''c''"
    using live_ok [OF demo_broker_facts(1,2)] by simp_all
  have "connection_event (\<lambda>_ _. True) TimedOut (Running 0 []) demo_broker = (Done None, cleanup 0 demo_broker)"
    by simp
  from connection_end_cleans_up [OF demo_broker_facts(1) l(1) this] l(2) show ?thesis by auto
qed

text \<open>
  A panic leaves the session behind. A second CONNECT whose Will section overruns its frame
  panics the reading task of a running connection instead of ending it with an error: the clean-up
  does not run, and the session stays in the map with its channel open.
\<close>

theorem panic_skips_cleanup:
  assumes "broker_ok b" and "live b c i" and "cs_receiver (session_at b i)"
  shows "\<exists>b'. connection_event verify (Received will_overrun) (Running i []) b = (Dead, b') \<and>
    live b' c i \<and> cs_receiver (session_at b' i)"
proof -
  have p: "decode_packet will_overrun = Panic"
    by (simp add: will_overrun_def decode_eval cong: and_then_weak_cong)
  let ?b = "on_session i (update_activity (b_clock b)) b"
  have "drain i ?b will_overrun = Crashed ?b" using p by (subst drain.simps) simp
  then have "connection_event verify (Received will_overrun) (Running i []) b = (Dead, ?b)" by simp
  moreover have "live ?b c i" using assms(2) by (simp add: live_def)
  moreover have "cs_receiver (session_at ?b i)"
    using assms(3) live_ok [OF assms(1,2)] by (simp add: session_at_on_session update_activity_def)
  ultimately show ?thesis by blast
qed

theorem panic_skips_cleanup_witness:
  "\<exists>b'. connection_event (\<lambda>_ _. True) (Received will_overrun) (Running 0 []) demo_broker = (Dead, b') \<and>
    live b' (lit ''c'') 0 \<and> cs_receiver (session_at b' 0)"
  by (rule panic_skips_cleanup [OF demo_broker_facts(1-3)])

end
