(* ===== verification/Bridge.thy ===== *)
theory Bridge imports Connection_Properties begin

text \<open>
  The bridge to a remote broker, \<open>src/bridge.rs\<close>: the packets it opens the connection with, its main
  loop driven by remote bytes, local messages and pings, and the back-off between connections. The
  TCP and TLS connection is what feeds the events.
\<close>

section \<open>Opening the connection\<close>

definition local_pub_pattern :: rstr where
  "local_pub_pattern = lit ''sensor/''"

definition remote_sub_filter :: rstr where
  "remote_sub_filter = lit ''alerts/#''"

definition bridge_connect :: "rstr \<Rightarrow> rstr \<Rightarrow> packet" where
  "bridge_connect user pass =
     Connect \<lparr>c_client_id = lit ''pipistrelle_bridge_client'', c_keep_alive = 60, c_clean_start = True,
       c_username = (if user \<noteq> [] then Some user else None),
       c_password = (if pass \<noteq> [] then Some pass else None),
       c_properties = connect_properties_default\<rparr>"

definition bridge_subscribe :: packet where
  "bridge_subscribe =
     Packets.Subscribe \<lparr>sub_packet_id = 1, sub_properties = subscribe_properties_default,
       sub_subscriptions = [\<lparr>s_topic_filter = remote_sub_filter, s_options = 0\<rparr>]\<rparr>"

text \<open>The first read after CONNECT: rejected, or the bytes left behind the CONNACK.\<close>

definition bridge_connack :: "bytes \<Rightarrow> (bytes, unit) outcome" where
  "bridge_connack read_buf =
     (case decode_packet read_buf of
        Ok (ConnAck connack, bytes_read) \<Rightarrow>
          if ca_reason_code connack \<noteq> 0 then Err () else Ok (drop bytes_read read_buf)
      | Panic \<Rightarrow> Panic
      | _ \<Rightarrow> Err ())"

section \<open>The main loop\<close>

text \<open>One packet of the remote broker: a publication is routed, anything else is skipped.\<close>

fun bridge_packet :: "packet \<Rightarrow> broker \<Rightarrow> broker" where
  "bridge_packet (Publish pkt) b =
     route_publish bridge_client (p_topic pkt) (p_payload pkt) (p_qos pkt) (p_retain pkt) b"
| "bridge_packet other b = b"

text \<open>The inner loop over the read buffer.\<close>

function (sequential) bridge_drain :: "broker \<Rightarrow> bytes \<Rightarrow> (broker, conn_error) drained" where
  "bridge_drain b read_buf =
     (case decode_packet read_buf of
        Ok (packet, consumed) \<Rightarrow> bridge_drain (bridge_packet packet b) (drop consumed read_buf)
      | Err Incomplete \<Rightarrow> Waiting b read_buf
      | Err e \<Rightarrow> Failed (CodecFailure e) b
      | Panic \<Rightarrow> Crashed b)"
  by pat_completeness auto
termination
proof (relation "measure (\<lambda>(b, buf). length buf)")
  fix b buf x packet n
  assume "decode_packet buf = Ok x" "(packet, n) = x"
  then show "((bridge_packet packet b, drop n buf), (b, buf)) \<in> measure (\<lambda>(b, buf). length buf)"
    using packet_sound(2,3) [of buf packet n] by auto
qed simp

declare bridge_drain.simps [simp del]

text \<open>A message of the local channel: the bytes it is forwarded in, if it is.\<close>

definition bridge_forward :: "rstr \<times> bytes \<Rightarrow> bytes option" where
  "bridge_forward msg =
     (if starts_with local_pub_pattern (fst msg) then
        Some (encode_packet (publish_packet (fst msg) (snd msg) 0 False None None))
      else None)"

text \<open>
  One turn of \<open>select!\<close>: the state is the broker, the read buffer and what was written to the remote
  broker; every way out of the loop is an error.
\<close>

datatype bridge_event = RemoteBytes bytes | RemoteClosed | RemoteFailed | LocalMessage "rstr \<times> bytes" | PingDue | WriteFailed

record bridge_state =
  bs_broker :: broker
  bs_read_buf :: bytes
  bs_written :: bytes

datatype bridge_result = Looping bridge_state | BridgeError broker | BridgePanic broker

fun result_broker :: "bridge_result \<Rightarrow> broker" where
  "result_broker (Looping s) = bs_broker s"
| "result_broker (BridgeError b) = b"
| "result_broker (BridgePanic b) = b"

fun bridge_turn :: "bridge_event \<Rightarrow> bridge_state \<Rightarrow> bridge_result" where
  "bridge_turn (RemoteBytes data) s =
     (case bridge_drain (bs_broker s) (bs_read_buf s @ data) of
        Waiting b rest \<Rightarrow> Looping (s\<lparr>bs_broker := b, bs_read_buf := rest\<rparr>)
      | Failed e b \<Rightarrow> BridgeError b
      | Crashed b \<Rightarrow> BridgePanic b)"
| "bridge_turn RemoteClosed s = BridgeError (bs_broker s)"
| "bridge_turn RemoteFailed s = BridgeError (bs_broker s)"
| "bridge_turn (LocalMessage msg) s =
     (case bridge_forward msg of
        None \<Rightarrow> Looping s
      | Some out \<Rightarrow> Looping (s\<lparr>bs_written := bs_written s @ out\<rparr>))"
| "bridge_turn PingDue s = Looping (s\<lparr>bs_written := bs_written s @ encode_packet PingReq\<rparr>)"
| "bridge_turn WriteFailed s = BridgeError (bs_broker s)"

fun bridge_loop :: "bridge_event list \<Rightarrow> bridge_state \<Rightarrow> bridge_result" where
  "bridge_loop [] s = Looping s"
| "bridge_loop (ev # evs) s =
     (case bridge_turn ev s of Looping s' \<Rightarrow> bridge_loop evs s' | r \<Rightarrow> r)"

section \<open>Reconnecting\<close>

text \<open>
  Seconds. The result of a connection decides the next back-off and the time to the next attempt:
  \<open>True\<close> for \<open>Ok\<close>, \<open>False\<close> for an error.
\<close>

fun reconnect :: "bool \<Rightarrow> nat \<Rightarrow> nat \<times> nat" where
  "reconnect True backoff = (5, 5)"
| "reconnect False backoff = (min (backoff * 2) 60, backoff + 5)"

text \<open>The waits before the attempts, when every connection ends with the given result.\<close>

fun reconnect_waits :: "bool list \<Rightarrow> nat \<Rightarrow> nat list" where
  "reconnect_waits [] backoff = []"
| "reconnect_waits (r # rs) backoff = (let (backoff, wait) = reconnect r backoff in wait # reconnect_waits rs backoff)"

section \<open>Lemmas\<close>

interpretation bridge: packet_stream decode_packet "\<lambda>packet b. Ok (bridge_packet packet b)" CodecFailure bridge_drain
proof
  show "bridge_drain b buf =
      (case decode_packet buf of
         Ok (p, n) \<Rightarrow>
           (case Ok (bridge_packet p b) of
              Ok b' \<Rightarrow> bridge_drain b' (drop n buf)
            | Err e \<Rightarrow> Failed e b
            | Panic \<Rightarrow> Crashed b)
       | Err e \<Rightarrow> if e = Incomplete then Waiting b buf else Failed (CodecFailure e) b
       | Panic \<Rightarrow> Crashed b)" for b buf
    by (subst bridge_drain.simps) (simp split: outcome.split codec_error.split)
qed (use packet_decoder in auto)

text \<open>What the remote broker cannot change.\<close>

definition bridge_keeps :: "broker \<Rightarrow> broker \<Rightarrow> bool" where
  "bridge_keeps b b' \<longleftrightarrow> broker_ok b' \<and> b_bridge_sender b' = b_bridge_sender b \<and> b_router b' = b_router b \<and> same_sessions b b'"

lemma bridge_packet_keeps: "broker_ok b \<Longrightarrow> bridge_keeps b (bridge_packet packet b)"
  using route_publish_spec(1,3,6) [where from_client = bridge_client and b = b] same_route
  by (cases packet) (simp_all add: bridge_keeps_def)

lemma bridge_drain_keeps:
  assumes "broker_ok b"
  shows "bridge_keeps b (after (bridge_drain b buf))"
proof (rule bridge.keeps)
  show "bridge_keeps b b" using assms by (simp add: bridge_keeps_def)
  show "bridge_keeps b b2" if "bridge_keeps b b1" "Ok (bridge_packet p b1) = Ok b2" for p b1 b2
    using that bridge_packet_keeps [of b1 p] by (auto simp: bridge_keeps_def intro: same_trans)
qed

lemma bridge_turn_keeps:
  assumes "broker_ok (bs_broker s)"
  shows "bridge_keeps (bs_broker s) (result_broker (bridge_turn ev s))"
proof (cases ev)
  case (RemoteBytes data)
  with bridge_drain_keeps [OF assms, of "bs_read_buf s @ data"] show ?thesis
    by (auto split: drained.splits)
qed (use assms in \<open>auto simp: bridge_keeps_def split: option.splits\<close>)

lemma bridge_loop_keeps:
  assumes "broker_ok (bs_broker s)" and "bridge_loop evs s = Looping s'"
  shows "bridge_keeps (bs_broker s) (bs_broker s')"
  using assms
proof (induction evs arbitrary: s)
  case (Cons ev evs)
  then obtain s1 where t: "bridge_turn ev s = Looping s1" "bridge_loop evs s1 = Looping s'"
    by (auto split: bridge_result.splits)
  from bridge_turn_keeps [OF Cons.prems(1), of ev] t(1) have k: "bridge_keeps (bs_broker s) (bs_broker s1)" by simp
  with Cons.IH [OF _ t(2)] show ?case by (auto simp: bridge_keeps_def intro: same_trans)
qed (simp add: bridge_keeps_def)

section \<open>Properties\<close>

text \<open>
  The bridge does not echo, and the remote broker controls nothing but messages. Whatever it
  sends, in whatever chunks, nothing of it is put on the channel to the remote broker, so a message
  cannot travel in a circle through this bridge; the router, the session map and the configuration
  stay as they are, and the broker keeps its invariant.
\<close>

theorem bridge_never_echoes:
  assumes "broker_ok (bs_broker s)" and "bridge_loop evs s = Looping s'"
  shows "b_bridge_sender (bs_broker s') = b_bridge_sender (bs_broker s) \<and>
    b_router (bs_broker s') = b_router (bs_broker s) \<and> b_sessions (bs_broker s') = b_sessions (bs_broker s) \<and>
    b_auth (bs_broker s') = b_auth (bs_broker s) \<and> broker_ok (bs_broker s')"
  using bridge_loop_keeps [OF assms] by (simp add: bridge_keeps_def same_sessions_def)

theorem bridge_never_echoes_witness:
  "b_bridge_sender (route_publish bridge_client (lit ''sensor/x'') [1] 0 False (demo_broker\<lparr>b_bridge_sender := Some []\<rparr>)) = Some []"
proof -
  let ?b = "demo_broker\<lparr>b_bridge_sender := Some []\<rparr>"
  let ?p = "publish_packet (lit ''sensor/x'') [1] 0 False None None"
  have ok: "broker_ok ?b" using demo_broker_facts(1) broker_ok_same [of ?b demo_broker] by simp
  have wf: "wf_packet ?p" by (rule publish_packet_wf) (simp_all add: str_ok_def utf8_valid_ascii)
  have "bridge_drain ?b (encode_packet ?p) = Waiting (route_publish bridge_client (lit ''sensor/x'') [1] 0 False ?b) []"
    using packet_roundtrip [OF wf, of "[]"]
    by (subst bridge_drain.simps) (simp add: publish_packet_def, subst bridge_drain.simps, simp)
  then have l: "bridge_loop [RemoteBytes (encode_packet ?p)] \<lparr>bs_broker = ?b, bs_read_buf = [], bs_written = []\<rparr> =
      Looping \<lparr>bs_broker = route_publish bridge_client (lit ''sensor/x'') [1] 0 False ?b, bs_read_buf = [], bs_written = []\<rparr>"
    by simp
  from bridge_never_echoes [OF _ l] ok show ?thesis by simp
qed

text \<open>
  C19: the read loops terminate. Cut off after half as many turns as the buffer has bytes, and one,
  the loop of a client connection and the loop of the bridge have each come to their end on any
  buffer and in any state: every turn takes a packet of at least two bytes off the buffer, waits, or
  stops.
\<close>

theorem read_loops_terminate:
  "turns decode_packet (process_client_packet i) CodecFailure (length buf div 2 + 1) b buf = Some (drain i b buf) \<and>
   turns decode_packet (\<lambda>packet b. Ok (bridge_packet packet b)) CodecFailure (length buf div 2 + 1) b buf =
     Some (bridge_drain b buf)"
proof -
  have "length buf < 2 * (length buf div 2 + 1)" by presburger
  then show ?thesis by (intro conjI reader.turns_enough bridge.turns_enough)
qed

text \<open>
  What the bridge forwards. A local message leaves for the remote broker exactly when its topic
  begins with \<open>sensor/\<close>; it is then one PUBLISH of QoS 0, not retained, with the same topic and
  payload, which a peer's decoder reads back. The topic \<open>sensor\<close> itself stays local, although the
  filter \<open>sensor/#\<close> that the comment names matches it.
\<close>

theorem bridge_forwards:
  assumes "str_ok topic" and "length payload + 2 ^ 17 \<le> 2 ^ 28"
  shows "(case bridge_forward (topic, payload) of
      None \<Rightarrow> \<not> starts_with (lit ''sensor/'') topic
    | Some out \<Rightarrow> starts_with (lit ''sensor/'') topic \<and>
        decode_packet (out @ rest) = Ok (publish_packet topic payload 0 False None None, length out)) \<and>
    bridge_forward (lit ''sensor'', payload) = None \<and>
    filter_matches (segments (lit ''sensor/#'')) (segments (lit ''sensor''))"
proof -
  have "wf_packet (publish_packet topic payload 0 False None None)"
    using assms by (intro publish_packet_wf) simp_all
  from packet_roundtrip [OF this, of rest]
  have "case bridge_forward (topic, payload) of
      None \<Rightarrow> \<not> starts_with (lit ''sensor/'') topic
    | Some out \<Rightarrow> starts_with (lit ''sensor/'') topic \<and>
        decode_packet (out @ rest) = Ok (publish_packet topic payload 0 False None None, length out)"
    by (simp add: bridge_forward_def local_pub_pattern_def del: lit_simps)
  then show ?thesis
    by (simp add: bridge_forward_def local_pub_pattern_def starts_with_def segments_eval)
qed

theorem bridge_forwards_witness:
  "bridge_forward (lit ''sensor/t'', [4]) = Some (encode_packet (publish_packet (lit ''sensor/t'') [4] 0 False None None)) \<and>
   bridge_forward (lit ''sensor'', [4]) = None"
  using bridge_forwards [of "lit ''sensor/t''" "[4]" "[]"]
  by (simp add: str_ok_def utf8_valid_ascii) (simp add: bridge_forward_def local_pub_pattern_def starts_with_def)

lemma waits_60: "reconnect_waits (replicate n False) 60 = replicate n 65"
  by (induction n) (simp_all add: Let_def)

text \<open>
  The back-off only grows, up to a bound. Every way out of a connection of the bridge is an error
  (\<open>bridge_result\<close> has no other end), so the waits between attempts are 10, 15, 25 and 45 seconds and
  then 65 seconds for ever: the reset to 5 seconds, which the program has for a connection that
  ended well, is never reached, however long a connection lasted before it broke.
\<close>

theorem backoff_schedule:
  "reconnect_waits (replicate (n + 4) False) 5 = [10, 15, 25, 45] @ replicate n 65"
proof -
  have "replicate (n + 4) False = False # False # False # False # replicate n False"
    by (simp add: eval_nat_numeral)
  then show ?thesis by (simp add: Let_def waits_60)
qed

end
