(* ===== verification/Startup.thy ===== *)
theory Startup imports Numbers Bridge begin

text \<open>
  The start of the broker: what \<open>main\<close> of \<open>src/main.rs\<close> and \<open>start_bridge_engine\<close> of
  \<open>src/bridge.rs\<close> read from the environment and the command line, and the state that the first
  connection finds.
\<close>

section \<open>Ports\<close>

text \<open>\<open>std::env::var\<close>: \<open>None\<close> when the variable is not set or not Unicode.\<close>

type_synonym environment = "rstr \<Rightarrow> rstr option"

definition port_setting :: "environment \<Rightarrow> rstr \<Rightarrow> rstr \<Rightarrow> u16 \<Rightarrow> u16" where
  "port_setting env name dflt_text dflt =
     (case parse_u16 (case env name of Some s \<Rightarrow> s | None \<Rightarrow> dflt_text) of Some port \<Rightarrow> port | None \<Rightarrow> dflt)"

record port_settings =
  ps_tcp :: u16
  ps_tls :: u16
  ps_ws :: u16
  ps_metrics :: u16

definition ports :: "environment \<Rightarrow> port_settings" where
  "ports env =
     \<lparr>ps_tcp = port_setting env (lit ''PIPISTRELLE_PORT_TCP'') (lit ''1883'') 1883,
      ps_tls = port_setting env (lit ''PIPISTRELLE_PORT_TLS'') (lit ''8883'') 8883,
      ps_ws = port_setting env (lit ''PIPISTRELLE_PORT_WS'') (lit ''8083'') 8083,
      ps_metrics = port_setting env (lit ''PIPISTRELLE_PORT_METRICS'') (lit ''9090'') 9090\<rparr>"

section \<open>The command line\<close>

text \<open>The loop over the index \<open>i\<close>; \<open>None\<close> is the error of a missing value, with which \<open>main\<close> returns.\<close>

function parse_args :: "rstr list \<Rightarrow> nat \<Rightarrow> rstr option \<Rightarrow> rstr option \<Rightarrow> (rstr option \<times> rstr option) option" where
  "parse_args args i cert_path key_path =
     (if i < length args then
        if args ! i = lit ''--cert'' then
          if i + 1 < length args then parse_args args (i + 2) (Some (args ! (i + 1))) key_path else None
        else if args ! i = lit ''--key'' then
          if i + 1 < length args then parse_args args (i + 2) cert_path (Some (args ! (i + 1))) else None
        else parse_args args (i + 1) cert_path key_path
      else Some (cert_path, key_path))"
  by pat_completeness auto
termination
  by (relation "measure (\<lambda>(args, i, c, k). length args - i)") auto

declare parse_args.simps [simp del]

definition certificate_paths :: "rstr list \<Rightarrow> (rstr \<times> rstr) option" where
  "certificate_paths args =
     map_option (\<lambda>(cert_path, key_path).
       (case cert_path of Some p \<Rightarrow> p | None \<Rightarrow> lit ''cert.pem'',
        case key_path of Some p \<Rightarrow> p | None \<Rightarrow> lit ''key.pem'')) (parse_args args 1 None None)"

text \<open>What the arguments say, read as a list: the options in order, or a missing value.\<close>

fun options :: "rstr list \<Rightarrow> (rstr \<times> rstr) list option" where
  "options [] = Some []"
| "options [a] = (if a = lit ''--cert'' \<or> a = lit ''--key'' then None else Some [])"
| "options (a # b # args) =
     (if a = lit ''--cert'' \<or> a = lit ''--key'' then map_option ((#) (a, b)) (options args) else options (b # args))"

definition last_option :: "rstr \<Rightarrow> (rstr \<times> rstr) list \<Rightarrow> rstr option" where
  "last_option a opts = map_of (rev opts) a"

lemma parse_args_options:
  "parse_args args i c k = map_option (\<lambda>opts.
     (case last_option (lit ''--cert'') opts of Some p \<Rightarrow> Some p | None \<Rightarrow> c,
      case last_option (lit ''--key'') opts of Some p \<Rightarrow> Some p | None \<Rightarrow> k)) (options (drop i args))"
proof (induction args i c k rule: parse_args.induct)
  case (1 args i c k)
  have neq: "lit ''--cert'' \<noteq> lit ''--key''" by simp
  show ?case
  proof (cases "i < length args")
    case False
    then show ?thesis by (subst parse_args.simps) (simp add: last_option_def)
  next
    case True
    then have d: "drop i args = args ! i # drop (Suc i) args" by (simp add: Cons_nth_drop_Suc)
    show ?thesis
    proof (cases "args ! i = lit ''--cert'' \<or> args ! i = lit ''--key''")
      case opt: True
      show ?thesis
      proof (cases "i + 1 < length args")
        case more: True
        then have d2: "drop (Suc i) args = args ! Suc i # drop (Suc (Suc i)) args" by (simp add: Cons_nth_drop_Suc)
        show ?thesis
        proof (cases "args ! i = lit ''--cert''")
          case cert: True
          from 1(1) [OF True cert more] neq show ?thesis
            using True more cert
            by (subst parse_args.simps) (cases "options (drop (Suc (Suc i)) args)";
              simp add: d d2 last_option_def map_add_Some_iff map_of_append split: option.split del: lit_simps)
        next
          case False
          with opt have key: "args ! i = lit ''--key''" by blast
          from 1(2) [OF True False key more] neq show ?thesis
            using True more key
            by (subst parse_args.simps) (cases "options (drop (Suc (Suc i)) args)";
              simp add: d d2 last_option_def map_add_Some_iff map_of_append split: option.split del: lit_simps)
        qed
      next
        case False
        then have "drop (Suc i) args = []" by simp
        with False True opt show ?thesis
          by (subst parse_args.simps) (auto simp: d simp del: lit_simps)
      qed
    next
      case other: False
      from 1(3) [OF True] other have "parse_args args (i + 1) c k = map_option (\<lambda>opts.
         (case last_option (lit ''--cert'') opts of Some p \<Rightarrow> Some p | None \<Rightarrow> c,
          case last_option (lit ''--key'') opts of Some p \<Rightarrow> Some p | None \<Rightarrow> k)) (options (drop (i + 1) args))"
        by (simp del: lit_simps)
      moreover have "options (drop i args) = options (drop (i + 1) args)"
        using other by (cases "drop (Suc i) args") (simp_all add: d del: lit_simps)
      ultimately show ?thesis
        using True other by (subst parse_args.simps) (simp del: lit_simps)
    qed
  qed
qed

section \<open>The first state\<close>

record bridge_settings =
  br_host :: rstr
  br_user :: rstr
  br_pass :: rstr
  br_port :: u16

definition bridge_config :: "environment \<Rightarrow> bridge_settings option" where
  "bridge_config env =
     (case env (lit ''PIPISTRELLE_BRIDGE_HOST'') of
        None \<Rightarrow> None
      | Some h \<Rightarrow>
          if trim h = [] then None
          else Some \<lparr>br_host = h,
            br_user = (case env (lit ''PIPISTRELLE_BRIDGE_USER'') of Some u \<Rightarrow> u | None \<Rightarrow> []),
            br_pass = (case env (lit ''PIPISTRELLE_BRIDGE_PASS'') of Some p \<Rightarrow> p | None \<Rightarrow> []),
            br_port = port_setting env (lit ''PIPISTRELLE_BRIDGE_PORT'') (lit ''8883'') 8883\<rparr>)"

definition start_bridge_engine :: "environment \<Rightarrow> broker \<Rightarrow> broker" where
  "start_bridge_engine env b =
     (case bridge_config env of None \<Rightarrow> b | Some _ \<Rightarrow> b\<lparr>b_bridge_sender := Some []\<rparr>)"

definition start_broker ::
  "(rstr \<Rightarrow> user_config list option) \<Rightarrow> credentials_env \<Rightarrow> bool \<times> bool \<times> bool \<Rightarrow> database \<Rightarrow> environment \<Rightarrow> broker" where
  "start_broker parse credentials oks db env =
     start_bridge_engine env (restore_sessions_from_db oks db (new_broker (load_auth parse credentials)))"

section \<open>The broker's invariant holds from the start\<close>

lemma broker_ok_alloc:
  assumes "broker_ok b"
  shows "broker_ok (b\<lparr>b_heap := b_heap b @ [s]\<rparr>)"
  using assms by (auto simp: broker_ok_def session_at_def nth_append)

lemma broker_ok_insert:
  assumes "broker_ok b" and "i < length (b_heap b)" and "cs_client_id (session_at b i) = c"
  shows "broker_ok (b\<lparr>b_sessions := AList.update c i (b_sessions b)\<rparr>)"
  using assms by (auto simp: broker_ok_def session_at_def distinct_update dest!: in_set_update)

lemma broker_ok_restore_sessions: "broker_ok b \<Longrightarrow> broker_ok (restore_sessions rows b)"
proof (induction rows arbitrary: b)
  case (Cons row rows)
  obtain c u cs e where row: "row = (c, u, cs, e)" by (metis surj_pair)
  let ?s = "new_session (b_clock b) c u cs 0 e False"
  have "broker_ok ((b\<lparr>b_heap := b_heap b @ [?s]\<rparr>)\<lparr>b_sessions := AList.update c (length (b_heap b)) (b_sessions b)\<rparr>)"
    using broker_ok_insert [OF broker_ok_alloc [OF Cons.prems], of "length (b_heap b)" ?s c]
    by (simp add: session_at_def new_session_def)
  from Cons.IH [OF this] show ?case by (simp add: row alloc_session_def)
qed simp

lemma broker_ok_restore_subscriptions: "broker_ok b \<Longrightarrow> broker_ok (restore_subscriptions rows b)"
proof (induction rows arbitrary: b)
  case (Cons row rows)
  obtain c f q i where row: "row = (c, f, q, i)" by (metis surj_pair)
  have "ok_node (Router.subscribe c f q i (b_router b))"
    using Cons.prems by (simp add: broker_ok_def trie.ok_sub)
  from Cons.IH [OF broker_ok_router [OF Cons.prems this]] show ?case by (simp add: row)
qed simp

lemma broker_ok_restore_in_flight: "broker_ok b \<Longrightarrow> broker_ok (restore_in_flight rows b)"
proof (induction rows arbitrary: b)
  case (Cons row rows)
  obtain c p t d q where row: "row = (c, p, t, d, q)" by (metis surj_pair)
  from Cons show ?case by (simp add: row broker_ok_on_session split: option.split)
qed simp

lemma broker_ok_restore: "broker_ok (restore_sessions_from_db oks db (new_broker auth))"
  by (simp add: restore_sessions_from_db_def Let_def broker_ok_new broker_ok_restore_sessions
      broker_ok_restore_subscriptions broker_ok_restore_in_flight split: prod.split option.split)

lemma restore_sessions_keeps [simp]:
  "b_auth (restore_sessions rows b) = b_auth b \<and> b_messages_published (restore_sessions rows b) = b_messages_published b \<and>
   b_subscriptions (restore_sessions rows b) = b_subscriptions b"
proof (induction rows arbitrary: b)
  case (Cons row rows)
  then show ?case by (cases row) (simp add: alloc_session_def)
qed simp

lemma restore_subscriptions_keeps [simp]:
  "b_auth (restore_subscriptions rows b) = b_auth b \<and> b_messages_published (restore_subscriptions rows b) = b_messages_published b \<and>
   b_subscriptions (restore_subscriptions rows b) = b_subscriptions b"
proof (induction rows arbitrary: b)
  case (Cons row rows)
  then show ?case by (cases row) simp
qed simp

lemma restore_in_flight_keeps [simp]:
  "b_auth (restore_in_flight rows b) = b_auth b \<and> b_messages_published (restore_in_flight rows b) = b_messages_published b \<and>
   b_subscriptions (restore_in_flight rows b) = b_subscriptions b"
proof (induction rows arbitrary: b)
  case (Cons row rows)
  then show ?case by (cases row) (simp add: on_session_def split: option.split)
qed simp

lemma start_facts:
  "broker_ok (start_broker parse credentials oks db env)"
  "b_auth (start_broker parse credentials oks db env) = load_auth parse credentials"
  "b_messages_published (start_broker parse credentials oks db env) = 0"
  "b_subscriptions (start_broker parse credentials oks db env) = 0"
proof -
  let ?b = "restore_sessions_from_db oks db (new_broker (load_auth parse credentials))"
  have "broker_ok (?b\<lparr>b_bridge_sender := tx\<rparr>)" for tx
    using broker_ok_restore [of oks db] by (simp add: broker_ok_def session_at_def)
  then show "broker_ok (start_broker parse credentials oks db env)"
    by (simp add: start_broker_def start_bridge_engine_def broker_ok_restore split: option.split)
  have "b_auth ?b = load_auth parse credentials" "b_messages_published ?b = 0" "b_subscriptions ?b = 0"
    by (simp_all add: restore_sessions_from_db_def Let_def new_broker_def split: prod.split option.split)
  then show "b_auth (start_broker parse credentials oks db env) = load_auth parse credentials"
    "b_messages_published (start_broker parse credentials oks db env) = 0"
    "b_subscriptions (start_broker parse credentials oks db env) = 0"
    by (simp_all add: start_broker_def start_bridge_engine_def split: option.split)
qed

section \<open>The settings\<close>

text \<open>
  A port variable counts exactly when it is an optional \<open>+\<close> and a non-empty string of decimal
  digits of a value up to 65535, which it then is.
\<close>

definition strip_plus :: "rstr \<Rightarrow> rstr" where
  "strip_plus s = (case s of [] \<Rightarrow> [] | c # cs \<Rightarrow> if c = of_char CHR ''+'' then cs else s)"

definition port_spec :: "environment \<Rightarrow> rstr \<Rightarrow> u16 \<Rightarrow> u16" where
  "port_spec env name dflt =
     (case env name of
        None \<Rightarrow> dflt
      | Some s \<Rightarrow>
          let ds = strip_plus s in
          if ds \<noteq> [] \<and> list_all is_digit ds \<and> number 0 ds \<le> 65535 then of_nat (number 0 ds) else dflt)"

lemma parse_u16_spec:
  "parse_u16 s =
    (let ds = strip_plus s in
     if ds \<noteq> [] \<and> list_all is_digit ds \<and> number 0 ds \<le> 65535 then Some (of_nat (number 0 ds)) else None)"
proof (cases s)
  case (Cons c cs)
  show ?thesis
  proof (cases "parse_digits 65535 0 (strip_plus s)")
    case None
    then show ?thesis
      using parse_digits_iff [of 0 65535 "strip_plus s"] Cons
      by (auto simp: parse_u16_def strip_plus_def Let_def list_all_iff split: if_splits)
  next
    case (Some n)
    then have n: "(\<forall>c \<in> set (strip_plus s). is_digit c) \<and> n = number 0 (strip_plus s) \<and> n \<le> 65535"
      using parse_digits_iff [of 0 65535 "strip_plus s" n] by simp
    have "s \<noteq> lit ''-''" using n Cons by (auto simp: strip_plus_def is_digit_def)
    with Some n Cons show ?thesis
      by (auto simp: parse_u16_def strip_plus_def Let_def list_all_iff split: if_splits)
  qed
qed (simp add: parse_u16_def strip_plus_def)

text \<open>
  The settings are what the environment and the command line say. Each port is that of its variable
  when the variable has the form of a port, and the default otherwise, for a minus sign, white space
  or a number too large as for an unset variable. The last \<open>--cert\<close> and the last \<open>--key\<close> win; the
  broker refuses to start exactly when the arguments end in one of the two without its value.
\<close>

theorem settings_exact:
  "ports env =
     \<lparr>ps_tcp = port_spec env (lit ''PIPISTRELLE_PORT_TCP'') 1883,
      ps_tls = port_spec env (lit ''PIPISTRELLE_PORT_TLS'') 8883,
      ps_ws = port_spec env (lit ''PIPISTRELLE_PORT_WS'') 8083,
      ps_metrics = port_spec env (lit ''PIPISTRELLE_PORT_METRICS'') 9090\<rparr> \<and>
   certificate_paths (prog # args) =
     map_option (\<lambda>opts.
       (case last_option (lit ''--cert'') opts of Some p \<Rightarrow> p | None \<Rightarrow> lit ''cert.pem'',
        case last_option (lit ''--key'') opts of Some p \<Rightarrow> p | None \<Rightarrow> lit ''key.pem'')) (options args)"
proof -
  have "parse_u16 (lit ''1883'') = Some 1883" "parse_u16 (lit ''8883'') = Some 8883"
    "parse_u16 (lit ''8083'') = Some 8083" "parse_u16 (lit ''9090'') = Some 9090"
    by (simp_all add: parse_u16_spec strip_plus_def is_digit_def digit_value_def)
  moreover have "port_setting env name t d = port_spec env name d" if "parse_u16 t = Some d" for name t d
    using that parse_u16_spec by (auto simp: port_setting_def port_spec_def Let_def split: option.split)
  ultimately have "ports env =
     \<lparr>ps_tcp = port_spec env (lit ''PIPISTRELLE_PORT_TCP'') 1883,
      ps_tls = port_spec env (lit ''PIPISTRELLE_PORT_TLS'') 8883,
      ps_ws = port_spec env (lit ''PIPISTRELLE_PORT_WS'') 8083,
      ps_metrics = port_spec env (lit ''PIPISTRELLE_PORT_METRICS'') 9090\<rparr>"
    by (simp add: ports_def del: lit_simps)
  moreover have "(case x of None \<Rightarrow> None | Some y \<Rightarrow> Some y) = x" for x :: "rstr option"
    by (cases x) simp_all
  ultimately show ?thesis
    by (simp add: certificate_paths_def parse_args_options option.map_comp comp_def del: lit_simps)
qed

end
