(* ===== verification/System.thy ===== *)
theory System imports Startup begin

text \<open>
  The whole broker: the shared state, all connections and the bridge, as a step relation. A step is
  one event of one connection, a new connection, one turn of the bridge, the writer task of a session
  ending, the clock, or the shutdown; events of different connections interleave in any order. Each
  step is atomic, which the locks of the code guarantee for the router and the session map, not for a
  publication as a whole.
\<close>

section \<open>Steps\<close>

text \<open>
  The bridge's connection: down, between two attempts; up, with its read buffer and what was written
  to the remote broker; gone, when its task panicked, which nothing restarts.
\<close>

datatype link = LinkDown | LinkUp bytes bytes | LinkGone

record system =
  sys_broker :: broker
  sys_conns :: "connection list"
  sys_link :: link

definition first_system :: "broker \<Rightarrow> system" where
  "first_system b = \<lparr>sys_broker = b, sys_conns = [], sys_link = LinkDown\<rparr>"

text \<open>What a turn of the bridge makes of the system.\<close>

fun after_turn :: "bridge_result \<Rightarrow> system \<Rightarrow> system" where
  "after_turn (Looping t) s =
     s\<lparr>sys_broker := bs_broker t, sys_link := LinkUp (bs_read_buf t) (bs_written t)\<rparr>"
| "after_turn (BridgeError b) s = s\<lparr>sys_broker := b, sys_link := LinkDown\<rparr>"
| "after_turn (BridgePanic b) s = s\<lparr>sys_broker := b, sys_link := LinkGone\<rparr>"

text \<open>
  The bridge takes local messages from the front of its channel; a message whose write fails is
  taken all the same, and the connection goes down.
\<close>

inductive sys_step :: "(rstr \<Rightarrow> rstr \<Rightarrow> bool) \<Rightarrow> system \<Rightarrow> system \<Rightarrow> bool" for verify where
  accept: "sys_step verify s (s\<lparr>sys_conns := sys_conns s @ [Handshaking]\<rparr>)"
| event: "k < length (sys_conns s) \<Longrightarrow>
    connection_event verify ev (sys_conns s ! k) (sys_broker s) = (conn, b) \<Longrightarrow>
    sys_step verify s (s\<lparr>sys_broker := b, sys_conns := (sys_conns s)[k := conn]\<rparr>)"
| writer_ends: "sys_step verify s
    (s\<lparr>sys_broker := on_session i (\<lambda>x. x\<lparr>cs_receiver := False\<rparr>) (sys_broker s)\<rparr>)"
| link_up: "sys_link s = LinkDown \<Longrightarrow> b_bridge_sender (sys_broker s) \<noteq> None \<Longrightarrow> bridge_connack data = Ok rest \<Longrightarrow>
    sys_step verify s (s\<lparr>sys_link :=
      LinkUp rest (encode_packet (bridge_connect user pass) @ encode_packet bridge_subscribe)\<rparr>)"
| link_turn: "sys_link s = LinkUp buf out \<Longrightarrow> (\<And>msg. ev \<noteq> LocalMessage msg) \<Longrightarrow>
    sys_step verify s
      (after_turn (bridge_turn ev \<lparr>bs_broker = sys_broker s, bs_read_buf = buf, bs_written = out\<rparr>) s)"
| link_takes: "sys_link s = LinkUp buf out \<Longrightarrow> b_bridge_sender (sys_broker s) = Some (msg # queue) \<Longrightarrow>
    b = (sys_broker s)\<lparr>b_bridge_sender := Some queue\<rparr> \<Longrightarrow>
    sys_step verify s
      (after_turn (bridge_turn (LocalMessage msg) \<lparr>bs_broker = b, bs_read_buf = buf, bs_written = out\<rparr>) s)"
| link_loses: "sys_link s = LinkUp buf out \<Longrightarrow> b_bridge_sender (sys_broker s) = Some (msg # queue) \<Longrightarrow>
    bridge_forward msg \<noteq> None \<Longrightarrow>
    sys_step verify s
      (s\<lparr>sys_broker := (sys_broker s)\<lparr>b_bridge_sender := Some queue\<rparr>, sys_link := LinkDown\<rparr>)"
| tick: "sys_step verify s (s\<lparr>sys_broker := (sys_broker s)\<lparr>b_clock := b_clock (sys_broker s) + d\<rparr>\<rparr>)"
| shutdown: "sys_step verify s (s\<lparr>sys_broker := graceful_shutdown (sys_broker s)\<rparr>)"

inductive_cases sys_step_cases: "sys_step verify s s'"

inductive reachable :: "(rstr \<Rightarrow> rstr \<Rightarrow> bool) \<Rightarrow> broker \<Rightarrow> system \<Rightarrow> bool" for verify b0 where
  start: "reachable verify b0 (first_system b0)"
| step: "reachable verify b0 s \<Longrightarrow> sys_step verify s s' \<Longrightarrow> reachable verify b0 s'"

section \<open>Shutdown\<close>

lemma shutdown_sessions_keeps:
  assumes "broker_ok b"
  shows "broker_ok (shutdown_sessions m b) \<and> same_sessions b (shutdown_sessions m b) \<and>
    b_router (shutdown_sessions m b) = b_router b"
  using assms
proof (induction m arbitrary: b)
  case (Cons ci m)
  obtain c i where ci: "ci = (c, i)" by (cases ci)
  let ?b = "on_session i (send_buf (encode_packet (Disconnect
      \<lparr>d_reason_code = 0, d_properties = disconnect_properties_default\<rparr>))) b"
  have "broker_ok ?b" "same_sessions b ?b"
    by (rule broker_ok_on_session [OF Cons.prems], simp) (rule same_on_session, simp_all)
  with Cons.IH [of ?b] show ?case by (auto simp: ci intro: same_trans)
qed simp

section \<open>The invariant of the system\<close>

definition running :: "system \<Rightarrow> nat \<Rightarrow> nat \<Rightarrow> bool" where
  "running s k i \<longleftrightarrow> k < length (sys_conns s) \<and> (\<exists>buf. sys_conns s ! k = Running i buf)"

definition sys_ok :: "system \<Rightarrow> bool" where
  "sys_ok s \<longleftrightarrow> broker_ok (sys_broker s) \<and>
     (\<forall>k i. running s k i \<longrightarrow> i < length (b_heap (sys_broker s))) \<and>
     (\<forall>k k' i. running s k i \<longrightarrow> running s k' i \<longrightarrow> k = k')"

lemma cleanup_keeps:
  assumes "broker_ok b"
  shows "broker_ok (cleanup i b)" and "length (b_heap (cleanup i b)) = length (b_heap b)"
    and "b_router (cleanup i b) = b_router b" and "b_auth (cleanup i b) = b_auth b"
proof -
  note rm = broker_ok_remove [OF assms, of "cs_client_id (session_at b i)"]
  show "broker_ok (cleanup i b)" unfolding cleanup_def by (rule broker_ok_on_session [OF rm(1)]) simp
  show "length (b_heap (cleanup i b)) = length (b_heap b)" "b_router (cleanup i b) = b_router b"
    using rm(3,5) by (simp_all add: cleanup_def)
  show "b_auth (cleanup i b) = b_auth b"
    by (simp add: cleanup_def remove_session_def Let_def split: option.split)
qed

lemma handshake_keeps:
  assumes "broker_ok b" and "handshake verify data b = Accepted i b' rest"
  shows "broker_ok b' \<and> i = length (b_heap b) \<and> length (b_heap b') = Suc (length (b_heap b)) \<and>
    b_router b' = b_router b \<and> b_auth b' = b_auth b"
proof -
  note h = handshake_accepts [OF assms]
  from assms(2) show ?thesis
    using h by (auto simp: handshake_def Let_def alloc_session_def reply_def register_session_def
        split: outcome.splits prod.splits packet.splits if_splits)
qed

lemma connection_event_keeps:
  assumes "broker_ok b" and "connection_event verify ev conn b = (conn', b')"
  shows "broker_ok b' \<and> length (b_heap b) \<le> length (b_heap b') \<and>
    (\<forall>i buf. conn' = Running i buf \<longrightarrow>
      (\<exists>buf'. conn = Running i buf') \<or> i = length (b_heap b) \<and> i < length (b_heap b'))"
  using assms
proof (induction verify ev conn b rule: connection_event.induct)
  case (1 verify data b)
  then show ?case
    using handshake_keeps [OF 1(1)] by (fastforce split: first_read.splits)
next
  case (3 verify data i read_buf b)
  let ?b = "on_session i (update_activity (b_clock b)) b"
  have "broker_ok ?b" "same_sessions b ?b"
    by (rule broker_ok_on_session [OF 3(1)], simp add: update_activity_def)
      (rule same_on_session, simp_all add: update_activity_def)
  with drain_keeps [OF this(1), of i "read_buf @ data"] 3(2) show ?case
    by (cases "drain i ?b (read_buf @ data)") (auto simp: same_sessions_def cleanup_keeps)
qed (auto simp: cleanup_keeps)

lemma connection_event_auth:
  assumes "broker_ok b" and "connection_event verify ev conn b = (conn', b')"
  shows "b_auth b' = b_auth b"
  using assms
proof (induction verify ev conn b rule: connection_event.induct)
  case (1 verify data b)
  then show ?case using handshake_keeps [OF 1(1)] by (fastforce split: first_read.splits)
next
  case (3 verify data i read_buf b)
  let ?b = "on_session i (update_activity (b_clock b)) b"
  have "broker_ok ?b" by (rule broker_ok_on_session [OF 3(1)]) (simp add: update_activity_def)
  from drain_keeps [OF this, of i "read_buf @ data"] 3(2) show ?case
    by (cases "drain i ?b (read_buf @ data)") (auto simp: same_sessions_def cleanup_keeps)
qed (auto simp: cleanup_keeps)

lemma after_turn_fields [simp]:
  "sys_broker (after_turn r s) = result_broker r" "sys_conns (after_turn r s) = sys_conns s"
  by (cases r; simp)+

text \<open>A step is an event of a connection, or it changes neither router nor owners of the sessions.\<close>

definition quiet :: "broker \<Rightarrow> broker \<Rightarrow> bool" where
  "quiet b b' \<longleftrightarrow> broker_ok b' \<and> b_router b' = b_router b \<and> same_sessions b b'"

lemma quiet_turn:
  assumes "broker_ok b" and "b_router b' = b_router b" "b_sessions b' = b_sessions b" "b_auth b' = b_auth b"
    "b_heap b' = b_heap b"
  shows "quiet b (result_broker (bridge_turn ev \<lparr>bs_broker = b', bs_read_buf = buf, bs_written = out\<rparr>))"
proof -
  have ok: "broker_ok b'" using assms by (simp add: broker_ok_def session_at_def)
  have "same_sessions b b'" using assms by (simp add: same_sessions_def session_at_def)
  with bridge_turn_keeps [of "\<lparr>bs_broker = b', bs_read_buf = buf, bs_written = out\<rparr>" ev] ok assms(2) show ?thesis
    by (auto simp: quiet_def bridge_keeps_def intro: same_trans)
qed

lemma sys_step_elim:
  assumes "sys_step verify s s'" and "broker_ok (sys_broker s)"
  obtains (event) k ev conn b where "k < length (sys_conns s)"
    "connection_event verify ev (sys_conns s ! k) (sys_broker s) = (conn, b)"
    "s' = s\<lparr>sys_broker := b, sys_conns := (sys_conns s)[k := conn]\<rparr>"
  | (other) more_conns where "sys_conns s' = sys_conns s @ more_conns" "set more_conns \<subseteq> {Handshaking}"
    "quiet (sys_broker s) (sys_broker s')"
  using assms(1)
proof cases
  case accept
  show thesis by (rule other [of "[Handshaking]"]) (use accept assms(2) in \<open>simp_all add: quiet_def\<close>)
next
  case (writer_ends i)
  have "same_sessions (sys_broker s) (on_session i (\<lambda>x. x\<lparr>cs_receiver := False\<rparr>) (sys_broker s))"
    by (rule same_on_session) simp_all
  with writer_ends assms(2) show thesis
    by (intro other [of "[]"]) (simp_all add: quiet_def broker_ok_on_session)
next
  case (link_turn buf out ev)
  show thesis by (rule other [of "[]"]) (use link_turn quiet_turn [OF assms(2)] in \<open>simp_all del: bridge_turn.simps\<close>)
next
  case (link_takes buf out msg queue b)
  show thesis by (rule other [of "[]"]) (use link_takes quiet_turn [OF assms(2), of b] in \<open>simp_all del: bridge_turn.simps\<close>)
next
  case shutdown
  from shutdown_sessions_keeps [OF assms(2), of "b_sessions (sys_broker s)"] shutdown show thesis
    by (intro other [of "[]"]) (simp_all add: quiet_def graceful_shutdown_def)
next
  case (event k ev conn b)
  show thesis by (rule that(1) [OF event(2,3,1)])
qed (rule other [of "[]"]; use assms(2) in \<open>simp add: quiet_def same_sessions_def broker_ok_def session_at_def\<close>)+

lemma sys_step_ok:
  assumes "sys_ok s" and "sys_step verify s s'"
  shows "sys_ok s'"
proof -
  have ok: "broker_ok (sys_broker s)" using assms(1) by (simp add: sys_ok_def)
  from assms(2) ok show ?thesis
  proof (cases rule: sys_step_elim)
    case (event k ev conn b)
    note keeps = connection_event_keeps [OF ok event(2)]
    have run: "running s' k' i \<longleftrightarrow> (if k' = k then \<exists>buf. conn = Running i buf else running s k' i)" for k' i
      using event(1,3) by (auto simp: running_def nth_list_update)
    have old: "i < length (b_heap (sys_broker s))" if "running s k' i" for k' i
      using assms(1) that by (simp add: sys_ok_def)
    have new: "running s k i \<or> i = length (b_heap (sys_broker s)) \<and> i < length (b_heap b)" if "conn = Running i buf" for i buf
      using keeps that event(1) by (auto simp: running_def)
    have "i < length (b_heap (sys_broker s'))" if "running s' k' i" for k' i
      using that run new old keeps event(3) by (fastforce split: if_splits)
    moreover have "k1 = k2" if "running s' k1 i" "running s' k2 i" for k1 k2 i
    proof (cases "k1 = k \<or> k2 = k")
      case True
      have same: "k' = k" if "conn = Running i buf" "k' \<noteq> k" "running s k' i" for k' buf
        using new [OF that(1)] old [OF that(3)] assms(1) that(3) by (auto simp: sys_ok_def)
      from True that show ?thesis unfolding run using same by (auto split: if_splits)
    next
      case False
      with that run assms(1) show ?thesis by (auto simp: sys_ok_def)
    qed
    ultimately show ?thesis using keeps event(3) by (simp add: sys_ok_def)
  next
    case (other more_conns)
    have "running s' k i \<Longrightarrow> running s k i" for k i
      using other(1,2) by (auto simp: running_def nth_append subset_iff split: if_splits)
        (metis connection.distinct(1) nth_mem add_diff_inverse_nat nat_add_left_cancel_less)
    with other(3) assms(1) show ?thesis unfolding sys_ok_def quiet_def same_sessions_def by (metis (no_types))
  qed
qed

lemma reachable_ok:
  assumes "reachable verify b0 s" and "broker_ok b0"
  shows "sys_ok s"
  using assms
proof (induction rule: reachable.induct)
  case start
  then show ?case by (simp add: sys_ok_def running_def first_system_def)
next
  case (step s s')
  then show ?case using sys_step_ok by blast
qed

section \<open>Properties\<close>

text \<open>
  The broker keeps its invariant. In every state that any interleaving of connections, bridge
  messages, writer failures and shutdown reaches from a restart on any database, the trie is well
  formed, each client id in the session map points to an existing session of that client, and no
  two running connections share a session.
\<close>

theorem system_invariant:
  assumes "reachable verify (start_broker parse credentials oks db env) s"
  shows "ok_node (b_router (sys_broker s)) \<and>
    (\<forall>c i. live (sys_broker s) c i \<longrightarrow> i < length (b_heap (sys_broker s)) \<and> cs_client_id (session_at (sys_broker s) i) = c) \<and>
    (\<forall>k k' i. running s k i \<and> running s k' i \<longrightarrow> k = k')"
proof -
  have ok: "sys_ok s" by (rule reachable_ok [OF assms start_facts(1)])
  then have b: "broker_ok (sys_broker s)" by (simp add: sys_ok_def)
  with live_ok [OF b] ok show ?thesis by (auto simp: sys_ok_def broker_ok_def)
qed

text \<open>A system in which one client has connected.\<close>

definition connected_system :: "(rstr \<Rightarrow> rstr \<Rightarrow> bool) \<Rightarrow> system" where
  "connected_system verify =
     (let (conn, b) = connection_event verify (Received connect_bytes) Handshaking (new_broker auth_anonymous) in
      \<lparr>sys_broker = b, sys_conns = [conn], sys_link = LinkDown\<rparr>)"

lemma connected_reachable: "reachable verify (new_broker auth_anonymous) (connected_system verify)"
proof -
  let ?s0 = "first_system (new_broker auth_anonymous)"
  let ?s1 = "?s0\<lparr>sys_conns := sys_conns ?s0 @ [Handshaking]\<rparr>"
  obtain conn b where ev: "connection_event verify (Received connect_bytes) Handshaking (new_broker auth_anonymous) = (conn, b)"
    by (metis surj_pair)
  have "reachable verify (new_broker auth_anonymous) ?s1"
    by (rule reachable.step [OF reachable.start sys_step.accept])
  moreover have "sys_step verify ?s1 (?s1\<lparr>sys_broker := b, sys_conns := (sys_conns ?s1)[0 := conn]\<rparr>)"
    by (rule sys_step.event [where ev = "Received connect_bytes"]) (use ev in \<open>simp_all add: first_system_def\<close>)
  ultimately have "reachable verify (new_broker auth_anonymous) (?s1\<lparr>sys_broker := b, sys_conns := (sys_conns ?s1)[0 := conn]\<rparr>)"
    by (rule reachable.step)
  then show ?thesis by (simp add: connected_system_def first_system_def ev del: connection_event.simps)
qed

lemma connected_running: "running (connected_system verify) 0 0" "live (sys_broker (connected_system verify)) (lit ''a'') 0"
proof -
  obtain b where h: "handshake verify connect_bytes (new_broker auth_anonymous) = Accepted 0 b []"
    using connect_bytes_accepted(2) by blast
  then have s: "connected_system verify = \<lparr>sys_broker = b, sys_conns = [Running 0 []], sys_link = LinkDown\<rparr>"
    by (simp add: connected_system_def)
  show "running (connected_system verify) 0 0" by (simp add: s running_def)
  show "live (sys_broker (connected_system verify)) (lit ''a'') 0"
    using h connect_bytes_decode [of "[]"]
    by (auto simp: s handshake_def Let_def alloc_session_def reply_def register_session_def live_def sample_connect_def
        new_session_def session_at_def update_conv' new_broker_def split: if_splits)
qed

lemma restore_empty: "restore_sessions_from_db oks empty_database b = b"
  by (simp add: restore_sessions_from_db_def load_all_sessions_def load_all_subscriptions_def load_all_in_flight_def
      empty_database_def split: prod.split)

text \<open>A start without credentials file, with anonymous access enabled, no database and no bridge.\<close>

definition open_credentials :: credentials_env where
  "open_credentials = \<lparr>ce_exists = False, ce_open = None, ce_allow_anonymous = Some (lit ''1'')\<rparr>"

lemma open_start: "start_broker parse open_credentials oks empty_database (\<lambda>_. None) = new_broker auth_anonymous"
proof -
  have "strip_front ws [49] = [49]" if "[49] \<notin> set ws" for ws :: "u8 list list"
  proof -
    have "find (\<lambda>w. w \<noteq> [] \<and> starts_with w [49]) ws = None"
      using that by (auto simp: find_None_iff starts_with_def take_Cons' split: if_splits)
    then show ?thesis by (subst strip_front.simps) simp
  qed
  then have "trim [49] = [49]"
    by (simp add: trim_def white_space_def utf8_encode_def byte_of_def upt_rec)
  then have "anonymous_access_enabled (Some (lit ''1''))"
    by (simp add: anonymous_access_enabled_def to_ascii_lowercase_def)
  then show ?thesis
    by (simp add: start_broker_def start_bridge_engine_def bridge_config_def restore_empty load_auth_def
        open_credentials_def)
qed

theorem system_invariant_witness:
  "running (connected_system (\<lambda>_ _. False)) 0 0 \<and> ok_node (b_router (sys_broker (connected_system (\<lambda>_ _. False)))) \<and>
   0 < length (b_heap (sys_broker (connected_system (\<lambda>_ _. False))))"
proof -
  have "reachable (\<lambda>_ _. False) (start_broker (\<lambda>_. None) open_credentials all_ok empty_database (\<lambda>_. None))
      (connected_system (\<lambda>_ _. False))"
    using connected_reachable by (simp add: open_start)
  from system_invariant [OF this] connected_running [of "\<lambda>_ _. False"] show ?thesis by blast
qed

end
