(* ===== verification/Access.thy ===== *)
theory Access imports System begin

text \<open>
  Who may be subscribed to what: the invariant that ties every entry of the router to a session that
  logged in and whose user the ACL lets read the filter, and that no step of the system breaks.
\<close>

section \<open>Logins and grants\<close>

text \<open>The user of a session was let in by the authentication with some password, or with none.\<close>

definition logged_in :: "(rstr \<Rightarrow> rstr \<Rightarrow> bool) \<Rightarrow> broker \<Rightarrow> nat \<Rightarrow> bool" where
  "logged_in verify b i \<longleftrightarrow>
     (\<exists>password. authenticate_client verify (b_auth b) (cs_username (session_at b i)) password)"

text \<open>An entry belongs to the client of a session whose user may read the filter of the entry.\<close>

definition granted_entry :: "broker \<Rightarrow> nat \<Rightarrow> rstr \<Rightarrow> entry \<Rightarrow> bool" where
  "granted_entry b i filt e \<longleftrightarrow>
     cs_client_id (session_at b i) = si_client_id (snd (snd e)) \<and>
     authorize (b_auth b) (session_username b i) filt (lit ''read'') \<and>
     fst e = filter_path (segments (snd (parse_shared_subscription filt))) \<and>
     fst (snd e) = fst (parse_shared_subscription filt)"

definition acl_ok :: "(rstr \<Rightarrow> rstr \<Rightarrow> bool) \<Rightarrow> broker \<Rightarrow> bool" where
  "acl_ok verify b \<longleftrightarrow>
     (\<forall>i < length (b_heap b). logged_in verify b i) \<and>
     (\<forall>e \<in># table (b_router b). \<exists>i < length (b_heap b). \<exists>filt. granted_entry b i filt e)"

text \<open>A change that keeps the router, the configuration and the owner of every session.\<close>

definition same_owners :: "broker \<Rightarrow> broker \<Rightarrow> bool" where
  "same_owners b b' \<longleftrightarrow> b_auth b' = b_auth b \<and> b_router b' = b_router b \<and> length (b_heap b') = length (b_heap b) \<and>
     (\<forall>j < length (b_heap b). cs_client_id (session_at b' j) = cs_client_id (session_at b j) \<and>
       cs_username (session_at b' j) = cs_username (session_at b j))"

lemma same_owners_sessions: "same_sessions b b' \<Longrightarrow> b_router b' = b_router b \<Longrightarrow> same_owners b b'"
  by (simp add: same_sessions_def same_owners_def)

lemma owner_facts:
  assumes "b_auth b' = b_auth b" and "cs_client_id (session_at b' i) = cs_client_id (session_at b i)"
    and "cs_username (session_at b' i) = cs_username (session_at b i)"
  shows "logged_in verify b' i = logged_in verify b i" and "granted_entry b' i filt e = granted_entry b i filt e"
    and "session_username b' i = session_username b i"
  using assms by (simp_all add: logged_in_def granted_entry_def session_username_def del: lit_simps)

lemma acl_ok_same: "acl_ok verify b \<Longrightarrow> same_owners b b' \<Longrightarrow> acl_ok verify b'"
  using owner_facts [of b' b] unfolding acl_ok_def same_owners_def by metis

section \<open>Steps\<close>

lemma acl_ok_subscribe:
  assumes "broker_ok b" and "acl_ok verify b" and "i < length (b_heap b)"
    and "authorize (b_auth b) (session_username b i) f (lit ''read'')"
  shows "acl_ok verify (broker_subscribe (cs_client_id (session_at b i)) f q ident b)"
proof -
  let ?b = "broker_subscribe (cs_client_id (session_at b i)) f q ident b"
  have ok: "ok_node (b_router b)" using assms(1) by (simp add: broker_ok_def)
  have same: "b_auth ?b = b_auth b" "b_heap ?b = b_heap b" "session_at ?b j = session_at b j" for j
    by (simp_all add: broker_subscribe_def Let_def spawn_def session_at_def)
  note own = owner_facts [of ?b b, OF same(1)]
  have "granted_entry b i f (new_entry (cs_client_id (session_at b i)) f q ident)"
    using assms(4) by (simp add: granted_entry_def new_entry_def split_beta del: lit_simps)
  moreover have "e = new_entry (cs_client_id (session_at b i)) f q ident \<or> e \<in># table (b_router b)"
    if "e \<in># table (b_router ?b)" for e
    using that by (auto simp: broker_subscribe_def Let_def trie.tab_sub [OF ok] without_def)
  ultimately have "\<exists>j < length (b_heap b). \<exists>filt. granted_entry b j filt e" if "e \<in># table (b_router ?b)" for e
    using assms(2,3) that unfolding acl_ok_def by metis
  with assms(2) own same show ?thesis by (simp add: acl_ok_def)
qed

lemma acl_ok_subscribe_filters:
  assumes "broker_ok b" and "acl_ok verify b" and "i < length (b_heap b)"
    and "subscribe_filters i ident subs codes b = (codes', b')"
  shows "acl_ok verify b'"
  using assms
proof (induction subs arbitrary: codes b)
  case (Cons sub subs)
  show ?case
  proof (cases "authorize (b_auth b) (session_username b i) (s_topic_filter sub) (lit ''read'')")
    case True
    let ?b = "broker_subscribe (cs_client_id (session_at b i)) (s_topic_filter sub) (s_options sub AND 3) ident b"
    have "acl_ok verify ?b" by (rule acl_ok_subscribe [OF Cons.prems(1-3) True])
    moreover have "i < length (b_heap ?b)" using Cons.prems(3) by (simp add: broker_subscribe_def Let_def spawn_def)
    ultimately show ?thesis
      using Cons.IH [OF broker_ok_subscribe [OF Cons.prems(1)]] Cons.prems(4) True by (simp del: lit_simps)
  qed (use Cons in \<open>simp del: lit_simps\<close>)
qed simp

lemma acl_ok_process:
  assumes "broker_ok b" and "acl_ok verify b" and "i < length (b_heap b)" and "process_client_packet i p b = Ok b'"
  shows "acl_ok verify b'"
proof (cases "\<exists>pkt. p = Subscribe pkt")
  case True
  then obtain pkt where p: "p = Subscribe pkt" by blast
  obtain codes b1 where s: "subscribe_filters i (sp_subscription_identifier (sub_properties pkt))
      (sub_subscriptions pkt) [] b = (codes, b1)"
    by (metis surj_pair)
  have "acl_ok verify b1" by (rule acl_ok_subscribe_filters [OF assms(1-3) s])
  then have "acl_ok verify (reply i packet b1)" for packet
    by (rule acl_ok_same) (simp add: same_owners_sessions same_reply)
  with assms(4) p s show ?thesis by (auto simp: process_subscribe_def)
next
  case False
  have "b_router b' = b_router b"
  proof (cases p)
    case (Publish pkt)
    with assms(4) route_publish_spec(3) [OF assms(1)] show ?thesis
      by (auto simp: process_publish_def acknowledge_def split: option.splits)
  next
    case (PubAck pkt)
    with assms(4) show ?thesis by (auto simp: process_puback_def Let_def)
  qed (use False assms(4) in auto)
  with process_keeps [OF assms(1,4)] have "same_owners b b'" by (simp add: same_owners_sessions)
  with assms(2) show ?thesis by (rule acl_ok_same)
qed

lemma acl_ok_drain:
  assumes "broker_ok b" and "acl_ok verify b" and "i < length (b_heap b)"
  shows "acl_ok verify (after (drain i b buf))"
proof -
  have step: "broker_ok b' \<and> acl_ok verify b' \<and> i < length (b_heap b')"
    if "broker_ok b \<and> acl_ok verify b \<and> i < length (b_heap b)" "process_client_packet i p b = Ok b'" for p b b'
    using that acl_ok_process [of b verify i p b'] process_keeps [of b i p b'] by (simp add: same_sessions_def)
  have "broker_ok (after (drain i b buf)) \<and> acl_ok verify (after (drain i b buf)) \<and>
      i < length (b_heap (after (drain i b buf)))"
    by (rule reader.keeps [where I = "\<lambda>b. broker_ok b \<and> acl_ok verify b \<and> i < length (b_heap b)"])
      (use assms in simp, rule step)
  then show ?thesis by blast
qed

lemma same_owners_cleanup: "broker_ok b \<Longrightarrow> i < length (b_heap b) \<Longrightarrow> same_owners b (cleanup i b)"
  using broker_ok_remove [of b "cs_client_id (session_at b i)"] cleanup_keeps [of b i]
  by (auto simp: same_owners_def cleanup_def session_at_on_session)

lemma handshake_logs_in:
  assumes "broker_ok b" and "acl_ok verify b" and "handshake verify data b = Accepted i b' rest"
  shows "acl_ok verify b'"
proof -
  note h = handshake_accepts [OF assms(1,3)]
  note k = handshake_keeps [OF assms(1,3)]
  have old: "session_at b' j = session_at b j" if "j < length (b_heap b)" for j
    using assms(3) that
    by (auto simp: handshake_def Let_def alloc_session_def reply_def register_session_def session_at_def on_session_def
        nth_append split: outcome.splits prod.splits packet.splits if_splits)
  have "logged_in verify b' i" using h k by (auto simp: logged_in_def)
  moreover have "logged_in verify b' j" if "j < length (b_heap b)" for j
    using owner_facts(1) [of b' b j] old [OF that] k assms(2) that by (simp add: acl_ok_def)
  ultimately have "\<forall>j < length (b_heap b'). logged_in verify b' j" using k less_Suc_eq by auto
  moreover have "granted_entry b' j filt e = granted_entry b j filt e" if "j < length (b_heap b)" for j filt e
    using owner_facts(2) [of b' b j] old [OF that] k by simp
  ultimately show ?thesis using assms(2) k unfolding acl_ok_def by (metis less_SucI)
qed

lemma acl_ok_event:
  assumes "broker_ok b" and "acl_ok verify b" and "\<And>i buf. conn = Running i buf \<Longrightarrow> i < length (b_heap b)"
    and "connection_event verify ev conn b = (conn', b')"
  shows "acl_ok verify b'"
  using assms
proof (induction verify ev conn b rule: connection_event.induct)
  case (1 verify data b)
  then show ?case using handshake_logs_in [OF 1(1,2)] by (fastforce split: first_read.splits)
next
  case (3 verify data i read_buf b)
  let ?b = "on_session i (update_activity (b_clock b)) b"
  have i: "i < length (b_heap b)" using 3(3) by simp
  have same: "same_sessions b ?b" by (rule same_on_session) (simp_all add: update_activity_def)
  have ok: "broker_ok ?b" by (rule broker_ok_on_session [OF 3(1)]) (simp add: update_activity_def)
  have acl: "acl_ok verify ?b" using 3(2) by (rule acl_ok_same) (simp add: same same_owners_sessions)
  have il: "i < length (b_heap ?b)" using i same by (simp add: same_sessions_def)
  let ?d = "drain i ?b (read_buf @ data)"
  note k = drain_keeps [OF ok, of i "read_buf @ data"]
  have a: "acl_ok verify (after ?d)" by (rule acl_ok_drain [OF ok acl il])
  have "acl_ok verify (cleanup i (after ?d))"
    by (rule acl_ok_same [OF a same_owners_cleanup]) (use k il in \<open>simp_all add: same_sessions_def\<close>)
  with a 3(4) show ?case by (cases ?d) auto
qed (auto intro: acl_ok_same same_owners_cleanup)

lemma reachable_acl:
  assumes "reachable verify b0 s" and "broker_ok b0" and "acl_ok verify b0"
  shows "acl_ok verify (sys_broker s) \<and> b_auth (sys_broker s) = b_auth b0"
  using assms
proof (induction rule: reachable.induct)
  case start
  then show ?case by (simp add: first_system_def)
next
  case (step s s')
  note sok = reachable_ok [OF step(1) step(4)]
  then have ok: "broker_ok (sys_broker s)" by (simp add: sys_ok_def)
  have acl: "acl_ok verify (sys_broker s)" and auth: "b_auth (sys_broker s) = b_auth b0" using step by blast+
  from step(2) ok show ?case
  proof (cases rule: sys_step_elim)
    case (event k ev conn b)
    have "i < length (b_heap (sys_broker s))" if "sys_conns s ! k = Running i buf" for i buf
      using sok that event(1) by (auto simp: sys_ok_def running_def)
    from acl_ok_event [OF ok acl this event(2)] connection_event_auth [OF ok event(2)] event(3) auth
    show ?thesis by simp
  next
    case (other more_conns)
    then have "same_owners (sys_broker s) (sys_broker s')" by (simp add: quiet_def same_owners_sessions)
    with acl_ok_same [OF acl this] auth show ?thesis by (simp add: same_owners_def)
  qed
qed

section \<open>Properties\<close>

text \<open>
  No subscription escapes the check. In every reachable state of a broker that started with an
  empty database, each subscription in the router belongs to the client of a session whose user
  logged in (with credentials that the authentication accepts, or anonymously where that is allowed)
  and may, by the ACL, read a filter with the path and group of the subscription. With
  authentication enforced and no such rule, the router stays empty and nothing is ever routed.
\<close>

theorem subscriptions_authorized:
  assumes "reachable verify (new_broker auth) s" and "(path, grp, info) \<in># table (b_router (sys_broker s))"
  shows "\<exists>session \<in> set (b_heap (sys_broker s)). \<exists>password filt.
    cs_client_id session = si_client_id info \<and>
    authenticate_client verify auth (cs_username session) password \<and>
    authorize auth (case cs_username session of None \<Rightarrow> [] | Some u \<Rightarrow> u) filt (lit ''read'') \<and>
    path = filter_path (segments (snd (parse_shared_subscription filt))) \<and>
    grp = fst (parse_shared_subscription filt)"
proof -
  have acl: "acl_ok verify (sys_broker s)" and auth: "b_auth (sys_broker s) = auth"
    using reachable_acl [OF assms(1) broker_ok_new] by (simp_all add: acl_ok_def new_broker_def)
  from acl assms(2) obtain i filt where i: "i < length (b_heap (sys_broker s))"
    and g: "granted_entry (sys_broker s) i filt (path, grp, info)" and l: "logged_in verify (sys_broker s) i"
    by (force simp: acl_ok_def)
  from l obtain password where p: "authenticate_client verify auth (cs_username (session_at (sys_broker s) i)) password"
    by (auto simp: logged_in_def auth)
  have "session_at (sys_broker s) i \<in> set (b_heap (sys_broker s))" using i by (simp add: session_at_def)
  with g p show ?thesis unfolding granted_entry_def session_username_def auth fst_conv snd_conv lit_simps(1) by blast
qed

text \<open>The connected client subscribes to \<open>a\<close>.\<close>

definition subscribe_bytes :: bytes where
  "subscribe_bytes = [0x82, 7, 0, 1, 0, 0, 1, 0x61, 1]"

definition sample_subscribe :: Packets.subscribe where
  "sample_subscribe = \<lparr>sub_packet_id = 1, sub_properties = subscribe_properties_default,
     sub_subscriptions = [\<lparr>s_topic_filter = lit ''a'', s_options = 1\<rparr>]\<rparr>"

lemma sample_subscribe_wf: "wf_packet (Packets.Subscribe sample_subscribe)"
  and sample_subscribe_bytes: "encode_packet (Packets.Subscribe sample_subscribe) = subscribe_bytes"
  by (simp_all add: sample_subscribe_def subscribe_bytes_def wf_packet_def wf_subscribe_def
      wf_subscribe_properties_def subscribe_properties_default_def subscribe_properties_body_def
      user_properties_ok_def str_ok_def utf8_valid_ascii encode_subscribe_def encode_eval)

definition subscribed_system :: "(rstr \<Rightarrow> rstr \<Rightarrow> bool) \<Rightarrow> system" where
  "subscribed_system verify =
     (let s = connected_system verify;
          (conn, b) = connection_event verify (Received subscribe_bytes) (sys_conns s ! 0) (sys_broker s) in
      s\<lparr>sys_broker := b, sys_conns := (sys_conns s)[0 := conn]\<rparr>)"

lemma subscribed_reachable: "reachable verify (new_broker auth_anonymous) (subscribed_system verify)"
proof -
  let ?s = "connected_system verify"
  obtain conn b where ev: "connection_event verify (Received subscribe_bytes) (sys_conns ?s ! 0) (sys_broker ?s) = (conn, b)"
    by (metis surj_pair)
  have "0 < length (sys_conns ?s)" using connected_running(1) by (simp add: running_def)
  from reachable.step [OF connected_reachable sys_step.event [OF this ev]] show ?thesis
    by (simp add: subscribed_system_def ev Let_def del: connection_event.simps)
qed

lemma subscribed_broker:
  "\<exists>b b'. subscribed_system verify = \<lparr>sys_broker = b', sys_conns = [Running 0 []], sys_link = LinkDown\<rparr> \<and>
    handshake verify connect_bytes (new_broker auth_anonymous) = Accepted 0 b [] \<and>
    broker_ok b \<and> b_router b = empty_node \<and> b_auth b = auth_anonymous \<and> length (b_heap b) = 1 \<and>
    cs_client_id (session_at b 0) = lit ''a'' \<and>
    process_client_packet 0 (Packets.Subscribe sample_subscribe) (on_session 0 (update_activity (b_clock b)) b) = Ok b'"
proof -
  obtain b where h: "handshake verify connect_bytes (new_broker auth_anonymous) = Accepted 0 b []"
    using connect_bytes_accepted(2) by blast
  then have s: "connected_system verify = \<lparr>sys_broker = b, sys_conns = [Running 0 []], sys_link = LinkDown\<rparr>"
    by (simp add: connected_system_def)
  have hk: "broker_ok b" "b_router b = empty_node" "b_auth b = auth_anonymous" "length (b_heap b) = 1"
    using handshake_keeps [OF broker_ok_new h] by (simp_all add: new_broker_def)
  have id: "cs_client_id (session_at b 0) = lit ''a''"
    using live_ok [OF hk(1)] connected_running(2) [of verify] by (simp add: s)
  obtain b' where p: "process_client_packet 0 (Packets.Subscribe sample_subscribe) (on_session 0 (update_activity (b_clock b)) b) = Ok b'"
    by simp
  have "drain 0 (on_session 0 (update_activity (b_clock b)) b) subscribe_bytes = Waiting b' []"
    using drain_packet [OF sample_subscribe_wf, of 0 _ "[]"] p by (simp add: sample_subscribe_bytes)
  then have "subscribed_system verify = \<lparr>sys_broker = b', sys_conns = [Running 0 []], sys_link = LinkDown\<rparr>"
    by (simp add: subscribed_system_def s)
  with h hk id p show ?thesis by blast
qed

lemma subscribed_facts:
  "b_router (sys_broker (subscribed_system verify)) = Router.subscribe (lit ''a'') (lit ''a'') 1 None empty_node"
  "sys_conns (subscribed_system verify) = [Running 0 []]"
  using subscribed_broker [of verify]
  by (auto simp: process_subscribe_def sample_subscribe_def authorize_def auth_anonymous_def broker_subscribe_def
      Let_def subscribe_properties_default_def session_at_on_session update_activity_def simp del: lit_simps)

lemma subscribed_entry:
  "([lit ''a''], None, \<lparr>si_client_id = lit ''a'', si_qos = 1, si_subscription_identifier = None\<rparr>)
    \<in># table (b_router (sys_broker (subscribed_system verify)))"
  by (simp add: subscribed_facts trie.tab_sub new_entry_def parse_shared_subscription_def starts_with_def segments_eval)

theorem subscriptions_authorized_witness:
  "\<exists>session \<in> set (b_heap (sys_broker (subscribed_system (\<lambda>_ _. False)))). \<exists>password.
     cs_client_id session = lit ''a'' \<and>
     authenticate_client (\<lambda>_ _. False) auth_anonymous (cs_username session) password"
  using subscriptions_authorized [OF subscribed_reachable subscribed_entry, of "\<lambda>_ _. False"]
  unfolding subscription_info.select_convs by blast

section \<open>A start without credentials\<close>

text \<open>What nobody can change while nobody can log in.\<close>

definition deserted :: "broker \<Rightarrow> system \<Rightarrow> bool" where
  "deserted b0 s \<longleftrightarrow> (\<forall>k i. \<not> running s k i) \<and> broker_ok (sys_broker s) \<and> b_auth (sys_broker s) = b_auth b0 \<and>
     b_router (sys_broker s) = b_router b0 \<and> b_sessions (sys_broker s) = b_sessions b0"

lemma closed_refuses: "ac_users (b_auth b) = Some [] \<Longrightarrow> handshake verify data b \<noteq> Accepted i b' rest"
  by (auto simp: handshake_def authenticate_client_def authenticate_def Let_def
      split: outcome.split prod.split packet.split option.split)

lemma deserted_step:
  assumes "deserted b0 s" and "ac_users (b_auth b0) = Some []" and "sys_step verify s s'"
  shows "deserted b0 s'"
proof -
  have ok: "broker_ok (sys_broker s)" using assms(1) by (simp add: deserted_def)
  from assms(3) ok show ?thesis
  proof (cases rule: sys_step_elim)
    case (event k ev conn b)
    have idle: "\<not> (\<exists>i buf. sys_conns s ! k = Running i buf)" using assms(1) event(1) by (auto simp: deserted_def running_def)
    have "b = sys_broker s \<and> \<not> (\<exists>i buf. conn = Running i buf)"
      using event(2) idle closed_refuses [of "sys_broker s" verify] assms(1,2)
      by (cases "sys_conns s ! k"; cases ev) (auto simp: deserted_def split: first_read.splits)
    with event assms(1) show ?thesis by (auto simp: deserted_def running_def nth_list_update)
  next
    case (other more_conns)
    have "\<not> running s' k i" for k i
      using assms(1) other(1,2) unfolding deserted_def running_def
      by (auto simp: nth_append subset_iff split: if_splits)
        (metis connection.distinct(1) nth_mem add_diff_inverse_nat nat_add_left_cancel_less)
    with other(3) assms(1) show ?thesis by (simp add: deserted_def quiet_def same_sessions_def)
  qed
qed

lemma deserted_reachable:
  assumes "reachable verify b0 s" and "broker_ok b0" and "ac_users (b_auth b0) = Some []"
  shows "deserted b0 s"
  using assms
proof (induction rule: reachable.induct)
  case start
  then show ?case by (simp add: deserted_def running_def first_system_def)
next
  case (step s s')
  then show ?case using deserted_step by blast
qed

text \<open>
  C32: the broker fails closed. Started with a credentials file that cannot be opened, read or parsed,
  or with none and without the explicit permission for anonymous access, it lets nobody in: in every
  state that any interleaving of events reaches, no connection runs, and the subscriptions and
  sessions are those restored from the database.
\<close>

theorem starts_fail_closed:
  assumes "if ce_exists credentials
      then \<forall>content. ce_open credentials = Some (Some content) \<longrightarrow> parse content = None
      else \<not> anonymous_access_enabled (ce_allow_anonymous credentials)"
    and "reachable verify (start_broker parse credentials oks db env) s"
  shows "(\<forall>k i. \<not> running s k i) \<and>
    b_router (sys_broker s) = b_router (start_broker parse credentials oks db env) \<and>
    b_sessions (sys_broker s) = b_sessions (start_broker parse credentials oks db env)"
proof -
  have "load_auth parse credentials = auth_closed"
    using assms(1) by (auto simp: load_auth_def split: option.split if_splits)
  then have "ac_users (b_auth (start_broker parse credentials oks db env)) = Some []"
    by (simp add: start_facts auth_closed_def)
  from deserted_reachable [OF assms(2) start_facts(1) this] show ?thesis by (simp add: deserted_def)
qed

text \<open>No credentials file and nothing in the environment.\<close>

definition no_credentials :: credentials_env where
  "no_credentials = \<lparr>ce_exists = False, ce_open = None, ce_allow_anonymous = None\<rparr>"

theorem starts_fail_closed_witness:
  "\<not> running ((first_system (start_broker (\<lambda>_. None) no_credentials all_ok empty_database (\<lambda>_. None)))
     \<lparr>sys_conns := [Handshaking]\<rparr>) 0 0"
proof -
  let ?b = "start_broker (\<lambda>_. None) no_credentials all_ok empty_database (\<lambda>_. None)"
  have "reachable (\<lambda>_ _. True) ?b ((first_system ?b)\<lparr>sys_conns := sys_conns (first_system ?b) @ [Handshaking]\<rparr>)"
    by (rule reachable.step [OF reachable.start sys_step.accept])
  from starts_fail_closed [OF _ this] show ?thesis
    by (simp add: no_credentials_def anonymous_access_enabled_def first_system_def)
qed

end
