(* ===== verification/Wire.thy ===== *)
theory Wire imports Access begin

text \<open>
  What goes out on the wire: the invariant that every buffer on the channel of a client, and
  everything written to the remote broker, is a packet of the codec, and that no step breaks.
\<close>

section \<open>Sound buffers\<close>

text \<open>
  A packet the format can carry, or a PUBLISH whose payload is so long that its header may not fit:
  the broker adds a subscription identifier to what it received, which can push a message of almost
  the greatest length over it.
\<close>

definition sendable :: "packet \<Rightarrow> bool" where
  "sendable p \<longleftrightarrow> wf_packet p \<or> (\<exists>x. p = Publish x \<and> 2 ^ 28 < length (p_payload x) + 2 ^ 17)"

definition sound_buffer :: "bytes \<Rightarrow> bool" where
  "sound_buffer buf \<longleftrightarrow> (\<exists>p. buf = encode_packet p \<and> sendable p)"

definition identifiers_ok :: "trie_node \<Rightarrow> bool" where
  "identifiers_ok r \<longleftrightarrow> (\<forall>e \<in># table r. pred_option varint_ok (si_subscription_identifier (snd (snd e))))"

definition wire_ok :: "broker \<Rightarrow> bool" where
  "wire_ok b \<longleftrightarrow> (\<forall>s \<in> set (b_heap b). \<forall>buf \<in> set (cs_sent s). sound_buffer buf) \<and>
     identifiers_ok (b_router b) \<and> pred_option (list_all (\<lambda>(topic, payload). str_ok topic)) (b_bridge_sender b)"

lemma sound_wf: "wf_packet p \<Longrightarrow> sound_buffer (encode_packet p)"
  by (auto simp: sound_buffer_def sendable_def)

lemma sendable_publish:
  assumes "str_ok topic" and "qos \<le> 2" and "pid \<noteq> None \<longleftrightarrow> 0 < qos" and "pred_option varint_ok sid"
  shows "sendable (publish_packet topic payload qos retain pid sid)"
proof (cases "length payload + 2 ^ 17 \<le> 2 ^ 28")
  case True
  with assms show ?thesis by (simp add: sendable_def publish_packet_wf)
next
  case False
  then show ?thesis by (simp add: sendable_def publish_packet_def)
qed

lemma sendable_short:
  assumes "sendable p" and "length (encode_packet p) + 2 ^ 17 \<le> 2 ^ 28"
  shows "wf_packet p"
proof (rule ccontr)
  assume "\<not> wf_packet p"
  with assms(1) obtain x where x: "p = Publish x" "2 ^ 28 < length (p_payload x) + 2 ^ 17" by (auto simp: sendable_def)
  have "length (p_payload x) \<le> length (encode_packet (Publish x))"
    by (simp add: encode_packet_def encode_publish_def)
  with x assms(2) show False by simp
qed

lemma sound_decodes:
  assumes "sound_buffer buf" and "length buf + 2 ^ 17 \<le> 2 ^ 28"
  shows "\<exists>p. wf_packet p \<and> buf = encode_packet p"
  using assms sendable_short by (auto simp: sound_buffer_def)

section \<open>The packets the broker makes\<close>

lemma small_packets_wf:
  "wf_packet (puback_packet pid rc)" "wf_packet (connack_packet rc)" "wf_packet PingResp" "wf_packet PingReq"
  "wf_packet (Disconnect \<lparr>d_reason_code = 0, d_properties = disconnect_properties_default\<rparr>)"
  "wf_packet bridge_subscribe"
  by (simp_all add: wf_packet_def puback_packet_def connack_packet_def bridge_subscribe_def remote_sub_filter_def
      puback_properties_default_def connack_properties_default_def disconnect_properties_default_def
      subscribe_properties_default_def wf_puback_properties_def wf_connack_properties_def wf_subscribe_def
      wf_disconnect_properties_def wf_subscribe_properties_def user_properties_ok_def str_ok_def utf8_valid_ascii
      subscribe_properties_body_def connack_properties_body_def puback_properties_body_def
      encode_puback_def encode_connack_def encode_subscribe_def encode_disconnect_def encode_eval)

lemma suback_wf:
  assumes "wf_packet (Subscribe pkt)" and "length codes = length (sub_subscriptions pkt)"
  shows "wf_packet (SubAck \<lparr>sa_packet_id = pid, sa_properties = suback_properties_default, sa_reason_codes = codes\<rparr>)"
proof -
  have "length subs \<le> length (write_subscriptions subs)" for subs
    by (induction subs) auto
  from this [of "sub_subscriptions pkt"] have "length (sub_subscriptions pkt) + 3 < 2 ^ 28"
    using assms(1) property_encode_nonempty(5) [of "sub_properties pkt"]
    by (cases "subscribe_properties_encode (sub_properties pkt)") (simp_all add: wf_packet_def encode_subscribe_def)
  with assms(2) show ?thesis
    by (simp add: wf_packet_def wf_suback_properties_def suback_properties_default_def user_properties_ok_def
        suback_properties_body_def encode_suback_def encode_eval)
qed

section \<open>Steps keep the wire sound\<close>

lemma wire_same:
  assumes "wire_ok b" and "b_router b' = b_router b" and "b_bridge_sender b' = b_bridge_sender b"
    and "\<And>s buf. s \<in> set (b_heap b') \<Longrightarrow> buf \<in> set (cs_sent s) \<Longrightarrow>
      sound_buffer buf \<or> (\<exists>s' \<in> set (b_heap b). buf \<in> set (cs_sent s'))"
  shows "wire_ok b'"
  using assms unfolding wire_ok_def by metis

lemma wire_on_session:
  assumes "wire_ok b" and "\<And>s buf. buf \<in> set (cs_sent (f s)) \<Longrightarrow> buf \<in> set (cs_sent s) \<or> sound_buffer buf"
  shows "wire_ok (on_session i f b)"
proof (cases "i < length (b_heap b)")
  case True
  show ?thesis
  proof (rule wire_same [OF assms(1)])
    fix s buf assume s: "s \<in> set (b_heap (on_session i f b))" "buf \<in> set (cs_sent s)"
    then consider "s \<in> set (b_heap b)" | "s = f (b_heap b ! i)"
      using set_update_subset_insert by (fastforce simp: on_session_def session_at_def)
    then show "sound_buffer buf \<or> (\<exists>s' \<in> set (b_heap b). buf \<in> set (cs_sent s'))"
      using s(2) assms(2) [of buf "b_heap b ! i"] nth_mem [OF True] by cases blast+
  qed simp_all
next
  case False
  then have "on_session i f b = b" by (cases b) (simp add: on_session_def list_update_beyond)
  with assms(1) show ?thesis by simp
qed

lemma wire_send: "wire_ok b \<Longrightarrow> sound_buffer buf \<Longrightarrow> wire_ok (on_session i (send_buf buf) b)"
  by (rule wire_on_session) (auto simp: send_buf_def split: if_splits)

lemma wire_reply: "wire_ok b \<Longrightarrow> wf_packet p \<Longrightarrow> wire_ok (reply i p b)"
  by (simp add: reply_def wire_send sound_wf)

lemma wire_spawn [simp]: "wire_ok (spawn t b) = wire_ok b" "wire_ok (b\<lparr>b_sessions := m\<rparr>) = wire_ok b"
  by (simp_all add: wire_ok_def)

lemma deliver_sound:
  assumes "str_ok topic" and "qos \<le> 2" and "pred_option varint_ok sid"
    and "buf \<in> set (cs_sent (deliver now topic payload qos retain sid s))"
  shows "buf \<in> set (cs_sent s) \<or> sound_buffer buf"
proof -
  have "sound_buffer (encode_packet (publish_packet topic payload qos retain pid sid))" if "pid \<noteq> None \<longleftrightarrow> 0 < qos" for pid
    unfolding sound_buffer_def using sendable_publish [OF assms(1,2) that assms(3)] by blast
  with assms(4) show ?thesis
    by (auto simp: deliver_def session_publish_def send_buf_def Let_def dest!: get_next_fields
        split: if_splits prod.splits)
qed

lemma fold_deliver_sound:
  assumes "str_ok topic" and "qos \<le> 2" and "\<forall>sid \<in> set sids. pred_option varint_ok sid"
    and "buf \<in> set (cs_sent (fold (deliver now topic payload qos retain) sids s))"
  shows "buf \<in> set (cs_sent s) \<or> sound_buffer buf"
  using assms(3,4)
proof (induction sids arbitrary: s)
  case (Cons sid sids)
  then show ?case using deliver_sound [OF assms(1,2), of sid buf now payload retain s] by auto
qed simp

lemma wire_route:
  assumes "broker_ok b" and "wire_ok b" and "str_ok topic" and "qos \<le> 2"
  shows "wire_ok (route_publish from_client topic payload qos retain b)"
proof -
  let ?b = "route_publish from_client topic payload qos retain b"
  note spec = route_publish_spec [OF assms(1), where from_client = from_client and topic = topic and payload = payload
      and qos = qos and retain = retain]
  have "sound_buffer buf" if "s \<in> set (b_heap ?b)" "buf \<in> set (cs_sent s)" for s buf
  proof -
    from that(1) obtain j where j: "j < length (b_heap ?b)" "s = session_at ?b j"
      unfolding in_set_conv_nth session_at_def by blast
    have jb: "j < length (b_heap b)" using j(1) same_route [OF assms(1)] by (simp add: same_sessions_def)
    then have old: "sound_buffer buf" if "buf \<in> set (cs_sent (session_at b j))"
      using assms(2) that by (auto simp: wire_ok_def session_at_def)
    show ?thesis
    proof (cases "\<exists>c. live b c j")
      case True
      then obtain c where c: "live b c j" by blast
      have "pred_option varint_ok sid" if "sid \<in> set (sids_for c (route_targets b topic))" for sid
      proof -
        from that obtain t where "t \<in> set (route_targets b topic)" "sid = snd t" by (auto simp: sids_for_def)
        with route_targets_entry [of b t topic] assms(1,2) show ?thesis
          by (auto simp: broker_ok_def wire_ok_def identifiers_ok_def target_of_def)
      qed
      with fold_deliver_sound [OF assms(3,4), of "sids_for c (route_targets b topic)"] spec(7) [OF c] j that(2) old
      show ?thesis by metis
    next
      case False
      with spec(8) [of j] j that(2) old show ?thesis by auto
    qed
  qed
  with assms(2,3) spec(3,6) show ?thesis
    by (auto simp: wire_ok_def option.pred_map comp_def split: option.split)
qed

lemma wire_subscribe:
  assumes "broker_ok b" and "wire_ok b" and "pred_option varint_ok ident"
  shows "wire_ok (broker_subscribe c f q ident b)"
proof -
  have ok: "ok_node (b_router b)" using assms(1) by (simp add: broker_ok_def)
  have "identifiers_ok (Router.subscribe c f q ident (b_router b))"
    using assms(2,3) by (auto simp: identifiers_ok_def wire_ok_def trie.tab_sub [OF ok] without_def new_entry_def split_beta)
  with assms(2) show ?thesis by (simp add: broker_subscribe_def Let_def spawn_def wire_ok_def)
qed

lemma wire_subscribe_filters:
  assumes "broker_ok b" and "wire_ok b" and "pred_option varint_ok ident"
    and "subscribe_filters i ident subs codes b = (codes', b')"
  shows "wire_ok b' \<and> length codes' = length codes + length subs"
  using assms
proof (induction subs arbitrary: codes b)
  case (Cons sub subs)
  show ?case
  proof (cases "authorize (b_auth b) (session_username b i) (s_topic_filter sub) (lit ''read'')")
    case True
    note ok = broker_ok_subscribe [OF Cons.prems(1)] wire_subscribe [OF Cons.prems(1-3)]
    from Cons.IH [OF ok Cons.prems(3)] Cons.prems(4) True show ?thesis by (simp del: lit_simps)
  next
    case False
    with Cons.IH [OF Cons.prems(1-3), of "codes @ [0x87]"] Cons.prems(4) show ?thesis by (simp del: lit_simps)
  qed
qed simp

lemma wire_process:
  assumes "broker_ok b" and "wire_ok b" and "wf_packet p" and "process_client_packet i p b = Ok b'"
  shows "wire_ok b'"
proof (cases p)
  case (Publish pkt)
  have wf: "str_ok (p_topic pkt)" "p_qos pkt \<le> 2"
    using assms(3) Publish by (simp_all add: wf_packet_def wf_publish_def)
  have "wire_ok (acknowledge i pkt rc x)" if "wire_ok x" for rc x
    using that by (simp add: acknowledge_def wire_reply small_packets_wf split: option.split)
  with assms Publish wire_route [OF assms(1,2) wf] show ?thesis by (auto simp: process_publish_def)
next
  case (Subscribe pkt)
  obtain codes b1 where s: "subscribe_filters i (sp_subscription_identifier (sub_properties pkt))
      (sub_subscriptions pkt) [] b = (codes, b1)"
    by (metis surj_pair)
  have "pred_option varint_ok (sp_subscription_identifier (sub_properties pkt))"
    using assms(3) Subscribe by (simp add: wf_packet_def wf_subscribe_def wf_subscribe_properties_def)
  note f = wire_subscribe_filters [OF assms(1,2) this s]
  with assms(3,4) Subscribe s suback_wf [of pkt codes] show ?thesis
    by (auto simp: process_subscribe_def wire_reply)
next
  case (PubAck pkt)
  have "wire_ok (on_session i (\<lambda>s. snd (remove_in_flight pid s)) b)" for pid
    by (rule wire_on_session [OF assms(2)]) (simp add: remove_in_flight_def)
  with assms(4) PubAck show ?thesis by (auto simp: process_puback_def Let_def)
qed (use assms wire_reply small_packets_wf in auto)

lemma wire_drain:
  assumes "broker_ok b" and "wire_ok b"
  shows "wire_ok (after (drain i b buf))"
proof -
  have step: "broker_ok b' \<and> wire_ok b'"
    if "broker_ok b \<and> wire_ok b" "decode_packet buf = Ok (p, n)" "process_client_packet i p b = Ok b'" for p n buf b b'
    using that wire_process [of b p i b'] process_keeps [of b i p b'] packet_sound(1) [of buf p n] by blast
  have "broker_ok (after (drain i b buf)) \<and> wire_ok (after (drain i b buf))"
    by (rule reader.keeps [where I = "\<lambda>b. broker_ok b \<and> wire_ok b"]) (use assms in simp, rule step)
  then show ?thesis by blast
qed

lemma wire_bridge_drain:
  assumes "broker_ok b" and "wire_ok b"
  shows "wire_ok (after (bridge_drain b buf))"
proof -
  have step: "broker_ok b' \<and> wire_ok b'"
    if "broker_ok b \<and> wire_ok b" "decode_packet buf = Ok (p, n)" "Ok (bridge_packet p b) = Ok b'" for p n buf b b'
  proof -
    have "wire_ok (bridge_packet p b)"
      using that(1) packet_sound(1) [OF that(2)] wire_route [of b]
      by (cases p) (simp_all add: wf_packet_def wf_publish_def)
    with that bridge_packet_keeps [of b p] show ?thesis by (simp add: bridge_keeps_def)
  qed
  have "broker_ok (after (bridge_drain b buf)) \<and> wire_ok (after (bridge_drain b buf))"
    by (rule bridge.keeps [where I = "\<lambda>b. broker_ok b \<and> wire_ok b"]) (use assms in simp, rule step)
  then show ?thesis by blast
qed

lemma wire_cleanup: "broker_ok b \<Longrightarrow> wire_ok b \<Longrightarrow> wire_ok (cleanup i b)"
  unfolding cleanup_def
  by (rule wire_on_session) (simp_all add: remove_session_def Let_def split: option.split)

lemma wire_handshake:
  assumes "wire_ok b" and "handshake verify data b = Accepted i b' rest"
  shows "wire_ok b'"
proof -
  have new: "wire_ok (register_session j (b\<lparr>b_heap := b_heap b @ [s]\<rparr>))" if "cs_sent s = []" for j s
    using assms(1) that by (auto simp: wire_ok_def register_session_def Let_def spawn_def)
  from assms(2) show ?thesis
    by (auto simp: handshake_def Let_def alloc_session_def new_session_def
        split: outcome.splits prod.splits packet.splits if_splits intro!: wire_reply new small_packets_wf)
qed

lemma wire_event:
  assumes "broker_ok b" and "wire_ok b" and "connection_event verify ev conn b = (conn', b')"
  shows "wire_ok b'"
  using assms
proof (induction verify ev conn b rule: connection_event.induct)
  case (1 verify data b)
  then show ?case using wire_handshake [OF 1(2)] by (fastforce split: first_read.splits)
next
  case (3 verify data i read_buf b)
  let ?b = "on_session i (update_activity (b_clock b)) b"
  have ok: "broker_ok ?b" by (rule broker_ok_on_session [OF 3(1)]) (simp add: update_activity_def)
  have wire: "wire_ok ?b" by (rule wire_on_session [OF 3(2)]) (simp add: update_activity_def)
  let ?d = "drain i ?b (read_buf @ data)"
  have "broker_ok (after ?d)" "wire_ok (after ?d)" using drain_keeps(1) [OF ok] wire_drain [OF ok wire] by simp_all
  with wire_cleanup [of "after ?d" i] 3(3) show ?case by (cases ?d) auto
qed (auto simp: wire_cleanup)

lemma wire_shutdown: "wire_ok b \<Longrightarrow> wire_ok (shutdown_sessions m b)"
proof (induction m arbitrary: b)
  case (Cons ci m)
  then show ?case by (cases ci) (simp add: wire_send sound_wf small_packets_wf)
qed simp

section \<open>The bridge\<close>

text \<open>
  Behind the CONNECT, whose user name and password come from the environment, the bridge writes
  packets of the codec.
\<close>

definition link_ok :: "link \<Rightarrow> bool" where
  "link_ok l \<longleftrightarrow> (case l of
     LinkUp buf out \<Rightarrow> \<exists>user pass ps. list_all sendable ps \<and>
       out = encode_packet (bridge_connect user pass) @ concat (map encode_packet ps)
   | _ \<Rightarrow> True)"

lemma link_ok_more:
  assumes "link_ok (LinkUp buf out)" and "sendable p"
  shows "link_ok (LinkUp buf' (out @ encode_packet p))"
proof -
  from assms(1) obtain user pass ps where "list_all sendable ps"
    "out = encode_packet (bridge_connect user pass) @ concat (map encode_packet ps)"
    by (auto simp: link_ok_def)
  with assms(2) show ?thesis
    unfolding link_ok_def link.case by (intro exI [of _ user] exI [of _ pass] exI [of _ "ps @ [p]"]) simp
qed

lemma wire_turn:
  assumes "broker_ok b" and "wire_ok b" and "link_ok (LinkUp buf out)"
    and "\<And>topic payload. ev = LocalMessage (topic, payload) \<Longrightarrow> str_ok topic"
  defines "r \<equiv> bridge_turn ev \<lparr>bs_broker = b, bs_read_buf = buf, bs_written = out\<rparr>"
  shows "wire_ok (result_broker r) \<and> link_ok (sys_link (after_turn r s))"
proof (cases ev)
  case (RemoteBytes data)
  with assms(3) wire_bridge_drain [OF assms(1,2), of "buf @ data"] show ?thesis
    by (cases "bridge_drain b (buf @ data)") (auto simp: r_def link_ok_def)
next
  case (LocalMessage msg)
  obtain topic payload where msg: "msg = (topic, payload)" by (cases msg)
  have "sendable (publish_packet topic payload 0 False None None)"
    by (rule sendable_publish) (use assms(4) LocalMessage msg in simp_all)
  with link_ok_more [OF assms(3)] assms(2,3) LocalMessage msg show ?thesis
    by (auto simp: r_def bridge_forward_def link_ok_def)
next
  case PingDue
  have "sendable PingReq" by (simp add: sendable_def small_packets_wf)
  with link_ok_more [OF assms(3)] assms(2) PingDue show ?thesis by (simp add: r_def)
qed (use assms(2) in \<open>simp_all add: r_def link_ok_def\<close>)

lemma wire_pop: "wire_ok b \<Longrightarrow> b_bridge_sender b = Some ((topic, payload) # queue) \<Longrightarrow>
    wire_ok (b\<lparr>b_bridge_sender := Some queue\<rparr>) \<and> str_ok topic"
  by (auto simp: wire_ok_def)

lemma wire_step:
  assumes "sys_step verify s s'" and "broker_ok (sys_broker s)" and "wire_ok (sys_broker s)" and "link_ok (sys_link s)"
  shows "wire_ok (sys_broker s') \<and> link_ok (sys_link s')"
  using assms(1)
proof cases
  case (event k ev conn b)
  with wire_event [OF assms(2,3) event(3)] assms(4) show ?thesis by simp
next
  case (writer_ends i)
  have "wire_ok (on_session i (\<lambda>x. x\<lparr>cs_receiver := False\<rparr>) (sys_broker s))"
    by (rule wire_on_session [OF assms(3)]) simp
  with writer_ends assms(4) show ?thesis by simp
next
  case (link_up data rest user pass)
  have "list_all sendable [bridge_subscribe]" by (simp add: sendable_def small_packets_wf)
  then have "link_ok (LinkUp rest (encode_packet (bridge_connect user pass) @ encode_packet bridge_subscribe))"
    unfolding link_ok_def link.case by (intro exI [of _ user] exI [of _ pass] exI [of _ "[bridge_subscribe]"]) simp
  with link_up assms(3) show ?thesis by simp
next
  case (link_turn buf out ev)
  with wire_turn [OF assms(2,3), of buf out ev s] assms(4) show ?thesis by (auto simp del: bridge_turn.simps)
next
  case (link_takes buf out msg queue b)
  obtain topic payload where msg: "msg = (topic, payload)" by (cases msg)
  note pop = wire_pop [OF assms(3) link_takes(3) [unfolded msg]]
  have "broker_ok b" using assms(2) link_takes(4) by (simp add: broker_ok_def session_at_def)
  with wire_turn [of b buf out "LocalMessage msg" s] pop link_takes assms(4) msg show ?thesis
    by (simp del: bridge_turn.simps)
next
  case (link_loses buf out msg queue)
  obtain topic payload where msg: "msg = (topic, payload)" by (cases msg)
  with wire_pop [OF assms(3)] link_loses show ?thesis by (simp add: link_ok_def)
next
  case (tick d)
  with assms(3,4) show ?thesis by (simp add: wire_ok_def)
next
  case shutdown
  with assms(3,4) show ?thesis by (simp add: graceful_shutdown_def wire_shutdown)
qed (use assms(3,4) in simp)

lemma wire_reachable:
  assumes "reachable verify b0 s" and "broker_ok b0" and "wire_ok b0"
  shows "wire_ok (sys_broker s) \<and> link_ok (sys_link s)"
  using assms
proof (induction rule: reachable.induct)
  case start
  then show ?case by (simp add: first_system_def link_ok_def)
next
  case (step s s')
  have "broker_ok (sys_broker s)" using reachable_ok [OF step(1) step(4)] by (simp add: sys_ok_def)
  with wire_step [OF step(2)] step show ?case by blast
qed

section \<open>The start\<close>

lemma wire_restore_sessions: "wire_ok b \<Longrightarrow> wire_ok (restore_sessions rows b)"
proof (induction rows arbitrary: b)
  case (Cons row rows)
  obtain c u cs e where row: "row = (c, u, cs, e)" by (metis surj_pair)
  have "wire_ok (b\<lparr>b_heap := b_heap b @ [new_session now c u cs 0 e r], b_sessions := m\<rparr>)" for now r m
    using Cons.prems by (auto simp: wire_ok_def new_session_def)
  from Cons.IH [OF this] show ?case by (simp add: row alloc_session_def)
qed simp

lemma wire_restore_subscriptions:
  assumes "broker_ok b" and "wire_ok b" and "\<forall>(c, f, q, i) \<in> set rows. pred_option varint_ok i"
  shows "wire_ok (restore_subscriptions rows b)"
  using assms
proof (induction rows arbitrary: b)
  case (Cons row rows)
  obtain c f q i where row: "row = (c, f, q, i)" by (metis surj_pair)
  let ?b = "b\<lparr>b_router := Router.subscribe c f q i (b_router b)\<rparr>"
  have ok: "ok_node (b_router b)" using Cons.prems(1) by (simp add: broker_ok_def)
  have "wire_ok ?b" using wire_subscribe [OF Cons.prems(1,2), of i c f q] Cons.prems(3) row
    by (simp add: wire_ok_def broker_subscribe_def Let_def spawn_def)
  with Cons.IH [OF broker_ok_router [OF Cons.prems(1) trie.ok_sub [OF ok]]] Cons.prems(3) show ?case by (simp add: row)
qed simp

lemma wire_restore_in_flight: "wire_ok b \<Longrightarrow> wire_ok (restore_in_flight rows b)"
proof (induction rows arbitrary: b)
  case (Cons row rows)
  obtain c p t d q where row: "row = (c, p, t, d, q)" by (metis surj_pair)
  have "wire_ok (on_session i (add_in_flight now p t d q) b)" for i now
    by (rule wire_on_session [OF Cons.prems]) simp
  with Cons show ?case by (simp add: row split: option.split)
qed simp

lemma wire_start:
  assumes "\<forall>(key, row) \<in> set (db_subscriptions db). pred_option varint_ok (ur_sub_id row)"
  shows "wire_ok (start_broker parse credentials oks db env)"
proof -
  let ?b0 = "new_broker (load_auth parse credentials)"
  obtain ok1 ok2 ok3 where oks: "oks = (ok1, ok2, ok3)" by (metis surj_pair)
  define b1 where "b1 = (case load_all_sessions ok1 db of Some rows \<Rightarrow> restore_sessions rows ?b0 | None \<Rightarrow> ?b0)"
  have "wire_ok ?b0" by (simp add: wire_ok_def new_broker_def identifiers_ok_def)
  then have w1: "wire_ok b1" "broker_ok b1"
    by (simp_all add: b1_def wire_restore_sessions broker_ok_new broker_ok_restore_sessions split: option.split)
  define b2 where "b2 = (case load_all_subscriptions ok2 db of Some rows \<Rightarrow> restore_subscriptions rows b1 | None \<Rightarrow> b1)"
  have w2: "wire_ok b2"
    using w1 assms unfolding b2_def load_all_subscriptions_def
    by (auto intro!: wire_restore_subscriptions)
  have "restore_sessions_from_db oks db ?b0 =
      (case load_all_in_flight ok3 db of Some rows \<Rightarrow> restore_in_flight rows b2 | None \<Rightarrow> b2)"
    by (simp only: restore_sessions_from_db_def oks Let_def b1_def b2_def prod.case)
  then have "wire_ok (restore_sessions_from_db oks db ?b0)"
    using w2 wire_restore_in_flight [of b2] by (simp split: option.split)
  then show ?thesis
    by (auto simp: start_broker_def start_bridge_engine_def wire_ok_def split: option.split)
qed

section \<open>Properties\<close>

text \<open>
  What the broker writes is MQTT. From a start on any database whose subscription identifiers fit
  the format, in every state that any interleaving of connections, hostile ones included, bridge and
  shutdown reaches, every buffer on the channel of every client (up to the length at which a payload
  leaves no room for its header) is one packet that the decoder reads back, whatever follows it; and
  behind its CONNECT the bridge has written a sequence of such packets to the remote broker.
\<close>

theorem wire_is_mqtt:
  assumes "\<forall>(key, row) \<in> set (db_subscriptions db). pred_option varint_ok (ur_sub_id row)"
    and "reachable verify (start_broker parse credentials oks db env) s"
  shows "(\<forall>session \<in> set (b_heap (sys_broker s)). \<forall>buf \<in> set (cs_sent session).
      length buf + 2 ^ 17 \<le> 2 ^ 28 \<longrightarrow> (\<exists>p. \<forall>rest. decode_packet (buf @ rest) = Ok (p, length buf))) \<and>
    (\<forall>buf out. sys_link s = LinkUp buf out \<longrightarrow> (\<exists>user pass ps. list_all sendable ps \<and>
      out = encode_packet (bridge_connect user pass) @ concat (map encode_packet ps)))"
proof -
  have w: "wire_ok (sys_broker s)" "link_ok (sys_link s)"
    using wire_reachable [OF assms(2) start_facts(1) wire_start [OF assms(1)]] by simp_all
  have "\<exists>p. \<forall>rest. decode_packet (buf @ rest) = Ok (p, length buf)"
    if "session \<in> set (b_heap (sys_broker s))" "buf \<in> set (cs_sent session)" "length buf + 2 ^ 17 \<le> 2 ^ 28"
    for session buf
  proof -
    have "sound_buffer buf" using w(1) that(1,2) by (simp add: wire_ok_def)
    from sound_decodes [OF this that(3)] obtain p where p: "wf_packet p" "buf = encode_packet p" by blast
    show ?thesis unfolding p(2) using packet_roundtrip [OF p(1)] by blast
  qed
  with w(2) show ?thesis by (auto simp: link_ok_def)
qed

theorem wire_is_mqtt_witness:
  "\<exists>buf p. cs_sent (session_at (sys_broker (connected_system (\<lambda>_ _. False))) 0) = [buf] \<and>
     decode_packet buf = Ok (p, length buf)"
proof -
  have r: "reachable (\<lambda>_ _. False) (start_broker (\<lambda>_. None) open_credentials all_ok empty_database (\<lambda>_. None))
      (connected_system (\<lambda>_ _. False))"
    using connected_reachable by (simp add: open_start)
  have "\<forall>(key, row) \<in> set (db_subscriptions empty_database). pred_option varint_ok (ur_sub_id row)"
    by (simp add: empty_database_def)
  note wire = wire_is_mqtt [OF this r]
  obtain b where h: "handshake (\<lambda>_ _. False) connect_bytes (new_broker auth_anonymous) = Accepted 0 b []"
    using connect_bytes_accepted(2) by blast
  let ?buf = "encode_packet (connack_packet 0)"
  have s: "connected_system (\<lambda>_ _. False) = \<lparr>sys_broker = b, sys_conns = [Running 0 []], sys_link = LinkDown\<rparr>"
    using h by (simp add: connected_system_def)
  have sent: "cs_sent (session_at b 0) = [?buf]" "0 < length (b_heap b)"
    using handshake_accepts [OF broker_ok_new h] handshake_keeps [OF broker_ok_new h] by auto
  have "length ?buf + 2 ^ 17 \<le> 2 ^ 28"
    by (simp add: connack_packet_def connack_properties_default_def connack_properties_body_def encode_connack_def encode_eval)
  moreover have "session_at b 0 \<in> set (b_heap b)" using sent(2) by (simp add: session_at_def)
  ultimately obtain p where "\<forall>rest. decode_packet (?buf @ rest) = Ok (p, length ?buf)"
    using wire sent(1) unfolding s system.select_convs by (metis list.set_intros(1))
  from spec [OF this, of "[]"] sent(1) show ?thesis by (simp add: s)
qed

end
