(* ===== verification/Actions.thy ===== *)
theory Actions imports Wire begin

text \<open>
  What a thread does to the shared state, in the steps in which the others can see it: one action per
  atomic operation of \<open>src/session.rs\<close> and \<open>src/main.rs\<close> (a \<open>fetch_add\<close>, an access under one of the
  locks, a \<open>send\<close> on a channel, a \<open>tokio::spawn\<close>) and one per release of a guard that is kept over
  several of them. An action may put further actions in front of the ones a thread still has to do.
  Performed without interruption, the actions of a packet are \<open>process_client_packet\<close> of the theory
  Connection; the theory Interleaving lets the threads interrupt each other between any two.
\<close>

section \<open>Actions\<close>

record message =
  msg_topic :: rstr
  msg_payload :: bytes
  msg_qos :: u8
  msg_retain :: bool

text \<open>
  The guards held over several actions: the write lock of the group counters (while a member of a
  group is served), the read lock of the session map (while a message is sent to a session, or
  DISCONNECT to all), its write lock (while a session enters or leaves the map).
\<close>

datatype guard = Counters | Sessions_Read | Sessions_Write

datatype action =
    CountPublish
  | TellBridge rstr bytes
  | MatchTopic message
  | PickShared message rstr "subscription_info list"
  | Deliver message subscription_info
  | TakeId nat message subscription_info
  | RetakeId nat message subscription_info
  | KeepInFlight nat u16 message
  | DropInFlight nat u16
  | CountSubscription
  | AddRoute rstr rstr u8 "u32 option"
  | SpawnTask db_task
  | Push nat bytes
  | PushAll bytes
  | Touch nat
  | Register nat
  | Remove rstr
  | AbortWriter nat
  | Release guard

section \<open>One action\<close>

text \<open>What is left of \<open>send_publish_to_client\<close> once the message has its packet identifier.\<close>

definition with_id :: "nat \<Rightarrow> message \<Rightarrow> subscription_info \<Rightarrow> u16 \<Rightarrow> action list" where
  "with_id i msg sub pid =
     [KeepInFlight i pid msg,
      SpawnTask (SaveInFlight (si_client_id sub) pid (msg_topic msg) (msg_payload msg) (msg_qos msg)),
      Push i (encode_packet (publish_packet (msg_topic msg) (msg_payload msg) (msg_qos msg) (msg_retain msg)
        (Some pid) (si_subscription_identifier sub)))]"

text \<open>\<open>fetch_add(1)\<close> on the identifier of a session.\<close>

definition bump_id :: "nat \<Rightarrow> broker \<Rightarrow> u16 \<times> broker" where
  "bump_id i b =
     (cs_next_packet_id (session_at b i), on_session i (\<lambda>s. s\<lparr>cs_next_packet_id := cs_next_packet_id s + 1\<rparr>) b)"

fun perform :: "action \<Rightarrow> broker \<Rightarrow> action list \<times> broker" where
  "perform CountPublish b = ([], b\<lparr>b_messages_published := b_messages_published b + 1\<rparr>)"
| "perform (TellBridge topic payload) b =
     ([], b\<lparr>b_bridge_sender := map_option (\<lambda>tx. tx @ [(topic, payload)]) (b_bridge_sender b)\<rparr>)"
| "perform (MatchTopic msg) b =
     (let route = match_topic (msg_topic msg) (b_router b) in
      (map (Deliver msg) (normal route) @ map (\<lambda>(grp, subs). PickShared msg grp subs) (shared route), b))"
| "perform (PickShared msg grp subs) b =
     (if subs = [] then ([], b)
      else
        let (index, b) = next_index grp b in
        ([Deliver msg (subs ! (unat index mod length subs)), Release Counters], b))"
| "perform (Deliver msg sub) b =
     (case map_of (b_sessions b) (si_client_id sub) of
        None \<Rightarrow> ([], b)
      | Some i \<Rightarrow>
          ((if 0 < msg_qos msg then [TakeId i msg sub]
            else [Push i (encode_packet (publish_packet (msg_topic msg) (msg_payload msg) (msg_qos msg) (msg_retain msg)
                   None (si_subscription_identifier sub)))]) @ [Release Sessions_Read], b))"
| "perform (TakeId i msg sub) b =
     (let (pid, b) = bump_id i b in
      (if pid = 0 then [RetakeId i msg sub] else with_id i msg sub pid, b))"
| "perform (RetakeId i msg sub) b = (let (pid, b) = bump_id i b in (with_id i msg sub pid, b))"
| "perform (KeepInFlight i pid msg) b =
     ([], on_session i (add_in_flight (b_clock b) pid (msg_topic msg) (msg_payload msg) (msg_qos msg)) b)"
| "perform (DropInFlight i pid) b = ([], on_session i (\<lambda>s. snd (remove_in_flight pid s)) b)"
| "perform CountSubscription b = ([], b\<lparr>b_subscriptions := b_subscriptions b + 1\<rparr>)"
| "perform (AddRoute client_id topic_filter qos ident) b =
     ([], b\<lparr>b_router := Router.subscribe client_id topic_filter qos ident (b_router b)\<rparr>)"
| "perform (SpawnTask task) b = ([], spawn task b)"
| "perform (Push i buf) b = ([], on_session i (send_buf buf) b)"
| "perform (PushAll buf) b = (map (\<lambda>(client_id, i). Push i buf) (b_sessions b) @ [Release Sessions_Read], b)"
| "perform (Touch i) b = ([], on_session i (update_activity (b_clock b)) b)"
| "perform (Register i) b =
     (let session = session_at b i;
          client_id = cs_client_id session;
          expiry = cs_session_expiry_interval session in
      ((if 0 < expiry
        then [SpawnTask (SaveSession client_id (cs_username session) (cs_clean_start session) expiry)] else [])
         @ [Release Sessions_Write],
       b\<lparr>b_sessions := AList.update client_id i (b_sessions b)\<rparr>))"
| "perform (Remove client_id) b =
     (case map_of (b_sessions b) client_id of
        None \<Rightarrow> ([], b)
      | Some i \<Rightarrow>
          let session = session_at b i in
          ((if cs_clean_start session \<or> cs_session_expiry_interval session = 0
            then [SpawnTask (DeleteSession client_id)] else []) @ [Release Sessions_Write],
           b\<lparr>b_sessions := AList.delete client_id (b_sessions b)\<rparr>))"
| "perform (AbortWriter i) b = ([], on_session i (\<lambda>s. s\<lparr>cs_receiver := False\<rparr>) b)"
| "perform (Release g) b = ([], b)"

section \<open>The actions of a packet\<close>

definition publish_actions :: "rstr \<Rightarrow> rstr \<Rightarrow> bytes \<Rightarrow> u8 \<Rightarrow> bool \<Rightarrow> action list" where
  "publish_actions from_client topic payload qos retain =
     CountPublish #
     (if from_client \<noteq> bridge_client then [TellBridge topic payload] else []) @
     [MatchTopic \<lparr>msg_topic = topic, msg_payload = payload, msg_qos = qos, msg_retain = retain\<rparr>]"

definition acknowledge_actions :: "nat \<Rightarrow> publish \<Rightarrow> u8 \<Rightarrow> action list" where
  "acknowledge_actions i pkt reason_code =
     (if p_qos pkt = 1 then
        (case p_packet_id pkt of None \<Rightarrow> [] | Some pid \<Rightarrow> [Push i (encode_packet (puback_packet pid reason_code))])
      else [])"

definition subscribe_actions :: "rstr \<Rightarrow> rstr \<Rightarrow> u8 \<Rightarrow> u32 option \<Rightarrow> action list" where
  "subscribe_actions client_id topic_filter qos ident =
     [CountSubscription, AddRoute client_id topic_filter qos ident,
      SpawnTask (SaveSubscription client_id topic_filter qos ident)]"

text \<open>
  User, client id and configuration never change, so what a packet will do is fixed when its handler
  starts, but for what the actions find.
\<close>

definition may_read :: "nat \<Rightarrow> broker \<Rightarrow> subscription \<Rightarrow> bool" where
  "may_read i b sub \<longleftrightarrow> authorize (b_auth b) (session_username b i) (s_topic_filter sub) (lit ''read'')"

fun packet_actions :: "nat \<Rightarrow> packet \<Rightarrow> broker \<Rightarrow> (action list, conn_error) outcome" where
  "packet_actions i (Publish pkt) b =
     Ok (if \<not> authorize (b_auth b) (session_username b i) (p_topic pkt) (lit ''write'')
         then acknowledge_actions i pkt 0x87
         else publish_actions (cs_client_id (session_at b i)) (p_topic pkt) (p_payload pkt) (p_qos pkt) (p_retain pkt)
           @ acknowledge_actions i pkt 0)"
| "packet_actions i (Subscribe pkt) b =
     Ok (concat (map (\<lambda>sub.
            if may_read i b sub
            then subscribe_actions (cs_client_id (session_at b i)) (s_topic_filter sub) (s_options sub AND 0x03)
              (sp_subscription_identifier (sub_properties pkt))
            else []) (sub_subscriptions pkt)) @
         [Push i (encode_packet (SubAck \<lparr>sa_packet_id = sub_packet_id pkt, sa_properties = suback_properties_default,
            sa_reason_codes =
              map (\<lambda>sub. if may_read i b sub then s_options sub AND 0x03 else 0x87) (sub_subscriptions pkt)\<rparr>))])"
| "packet_actions i (PubAck pkt) b =
     Ok [DropInFlight i (pa_packet_id pkt),
         SpawnTask (DeleteInFlight (cs_client_id (session_at b i)) (pa_packet_id pkt))]"
| "packet_actions i PingReq b = Ok [Push i (encode_packet PingResp)]"
| "packet_actions i (Disconnect pkt) b = Ok []"
| "packet_actions i (Connect pkt) b = Err DuplicateConnect"
| "packet_actions i other b = Ok []"

definition ending_actions :: "nat \<Rightarrow> broker \<Rightarrow> action list" where
  "ending_actions i b = [Remove (cs_client_id (session_at b i)), AbortWriter i]"

section \<open>Actions without interruption\<close>

text \<open>An action is followed only by actions of a lower rank, so a list of actions comes to an end.\<close>

fun rank :: "action \<Rightarrow> nat" where
  "rank (MatchTopic msg) = 5"
| "rank (PickShared msg grp subs) = 4"
| "rank (Deliver msg sub) = 3"
| "rank (TakeId i msg sub) = 2"
| "rank (RetakeId i msg sub) = 1"
| "rank (PushAll buf) = 1"
| "rank (Register i) = 1"
| "rank (Remove client_id) = 1"
| "rank other = 0"

lemma rank_perform: "a' \<in> set (fst (perform a b)) \<Longrightarrow> rank a' < rank a"
  by (cases a) (auto simp: Let_def with_id_def split: if_splits option.splits prod.splits)

definition work :: "action list \<Rightarrow> nat multiset" where
  "work actions = image_mset rank (mset actions)"

lemma work_append [simp]: "work (xs @ ys) = work xs + work ys" "work [] = {#}"
  by (simp_all add: work_def)

lemma work_perform: "(work (fst (perform a b) @ actions), work (a # actions)) \<in> mult less_than"
proof -
  have "work (a # actions) = work actions + {#rank a#}" by (simp add: work_def)
  moreover have "(work actions + work (fst (perform a b)), work actions + {#rank a#}) \<in> mult less_than"
    by (rule one_step_implies_mult) (auto simp: work_def dest: rank_perform)
  ultimately show ?thesis by (simp add: add.commute)
qed

function run :: "action list \<Rightarrow> broker \<Rightarrow> broker" where
  "run [] b = b"
| "run (a # actions) b = run (fst (perform a b) @ actions) (snd (perform a b))"
  by pat_completeness auto
termination
  by (relation "inv_image (mult less_than) (\<lambda>(actions, b). work actions)")
    (use work_perform in \<open>auto simp: wf_mult simp del: work_append\<close>)

declare run.simps(2) [simp del]

lemma run_append: "run (xs @ ys) b = run ys (run xs b)"
proof (induction xs b rule: run.induct)
  case (2 a actions b)
  then show ?case by (simp add: run.simps(2))
qed simp

lemma run_Cons: "run (a # actions) b = run actions (run (fst (perform a b)) (snd (perform a b)))"
  by (simp add: run.simps(2) run_append)

text \<open>Actions without followers.\<close>

lemma run_plain [simp]:
  "run (CountPublish # actions) b = run actions (snd (perform CountPublish b))"
  "run (TellBridge topic payload # actions) b = run actions (snd (perform (TellBridge topic payload) b))"
  "run (KeepInFlight i pid msg # actions) b = run actions (snd (perform (KeepInFlight i pid msg) b))"
  "run (DropInFlight i pid # actions) b = run actions (snd (perform (DropInFlight i pid) b))"
  "run (CountSubscription # actions) b = run actions (snd (perform CountSubscription b))"
  "run (AddRoute c f q ident # actions) b = run actions (snd (perform (AddRoute c f q ident) b))"
  "run (SpawnTask task # actions) b = run actions (spawn task b)"
  "run (Push i buf # actions) b = run actions (on_session i (send_buf buf) b)"
  "run (Touch i # actions) b = run actions (snd (perform (Touch i) b))"
  "run (AbortWriter i # actions) b = run actions (snd (perform (AbortWriter i) b))"
  "run (Release g # actions) b = run actions b"
  by (simp_all add: run_Cons)

lemma on_session_twice: "on_session i f (on_session i g b) = on_session i (f \<circ> g) b"
  by (cases "i < length (b_heap b)") (simp_all add: on_session_def session_at_def list_update_beyond)

lemma on_session_cong: "f (session_at b i) = g (session_at b i) \<Longrightarrow> on_session i f b = on_session i g b"
  by (simp add: on_session_def)

lemma on_session_spawn: "on_session i f (spawn task b) = spawn task (on_session i f b)"
  by (simp add: on_session_def spawn_def session_at_def)

text \<open>The detailed sending is \<open>send_publish_to_client\<close>.\<close>

lemma run_with_id:
  "run (with_id i msg sub pid) b =
     spawn (SaveInFlight (si_client_id sub) pid (msg_topic msg) (msg_payload msg) (msg_qos msg))
       (on_session i (\<lambda>s. send_buf (encode_packet (publish_packet (msg_topic msg) (msg_payload msg) (msg_qos msg)
           (msg_retain msg) (Some pid) (si_subscription_identifier sub)))
         (add_in_flight (b_clock b) pid (msg_topic msg) (msg_payload msg) (msg_qos msg) s)) b)"
  by (simp add: with_id_def on_session_spawn on_session_twice comp_def)

lemma run_Deliver:
  assumes "broker_ok b"
  shows "run [Deliver msg sub] b =
     send_publish_to_client (si_client_id sub) (msg_topic msg) (msg_payload msg) (msg_qos msg) (msg_retain msg)
       (si_subscription_identifier sub) b"
proof (cases "map_of (b_sessions b) (si_client_id sub)")
  case (Some i)
  show ?thesis
  proof (cases "0 < msg_qos msg")
    case True
    have "i < length (b_heap b)" using Some assms live_ok by (simp add: live_def)
    with Some True show ?thesis
      by (auto simp: run_Cons run_append run_with_id bump_id_def send_publish_to_client_def session_publish_def
          get_next_packet_id_def Let_def session_at_on_session on_session_twice on_session_spawn comp_def split: prod.split
          intro!: arg_cong [where f = "spawn _"] on_session_cong)
  next
    case False
    then show ?thesis
      using Some
      by (auto simp: run_Cons send_publish_to_client_def session_publish_def Let_def intro!: on_session_cong)
  qed
qed (simp add: run_Cons send_publish_to_client_def)

text \<open>The detailed routing is \<open>route_publish\<close>.\<close>

lemma run_normal:
  assumes "broker_ok b"
  shows "run (map (Deliver msg) subs) b =
    route_normal subs (msg_topic msg) (msg_payload msg) (msg_qos msg) (msg_retain msg) b"
  using assms
proof (induction subs arbitrary: b)
  case (Cons sub subs)
  have "run (map (Deliver msg) (sub # subs)) b = run (map (Deliver msg) subs) (run [Deliver msg sub] b)"
    using run_append [of "[Deliver msg sub]" "map (Deliver msg) subs" b] by simp
  with Cons run_Deliver [OF Cons.prems] send_publish_spec(1) [OF Cons.prems] show ?case by simp
qed simp

lemma run_shared:
  assumes "broker_ok b"
  shows "run (map (\<lambda>(grp, subs). PickShared msg grp subs) groups) b =
    route_shared groups (msg_topic msg) (msg_payload msg) (msg_qos msg) (msg_retain msg) b"
  using assms
proof (induction groups arbitrary: b)
  case (Cons gs groups)
  obtain grp subs where gs: "gs = (grp, subs)" by (cases gs)
  show ?case
  proof (cases "subs = []")
    case True
    with Cons gs show ?thesis by (simp add: run_Cons)
  next
    case False
    obtain index b1 where n: "next_index grp b = (index, b1)" by (cases "next_index grp b")
    then have ok: "broker_ok b1" using Cons.prems next_index_fields [OF n] broker_ok_same [of b1 b] by simp
    let ?sub = "subs ! (unat index mod length subs)"
    have "run [PickShared msg grp subs] b = run [Deliver msg ?sub] b1"
      using False run_append [of "[Deliver msg ?sub]" "[Release Counters]" b1] by (simp add: run_Cons [of "PickShared msg grp subs"] n)
    moreover have "run (map (\<lambda>(grp, subs). PickShared msg grp subs) (gs # groups)) b =
        run (map (\<lambda>(grp, subs). PickShared msg grp subs) groups) (run [PickShared msg grp subs] b)"
      using run_append [of "[PickShared msg grp subs]" "map (\<lambda>(grp, subs). PickShared msg grp subs) groups" b] by (simp add: gs)
    ultimately show ?thesis
      using Cons.IH [OF send_publish_spec(1) [OF ok]] run_Deliver [OF ok] False by (simp add: gs n Let_def)
  qed
qed simp

lemma run_publish:
  assumes "broker_ok b"
  shows "run (publish_actions from_client topic payload qos retain) b =
    route_publish from_client topic payload qos retain b"
proof -
  let ?msg = "\<lparr>msg_topic = topic, msg_payload = payload, msg_qos = qos, msg_retain = retain\<rparr>"
  have "run [MatchTopic ?msg] b =
      route_shared (shared (match_topic topic (b_router b))) topic payload qos retain
        (route_normal (normal (match_topic topic (b_router b))) topic payload qos retain b)" if "broker_ok b" for b
    using run_normal [OF that, of ?msg] run_shared [OF route_normal_spec [OF that, THEN conjunct1], of ?msg]
    by (simp add: run_Cons run_append Let_def)
  moreover have "broker_ok (b\<lparr>b_messages_published := n\<rparr>)" "broker_ok (b\<lparr>b_messages_published := n, b_bridge_sender := tx\<rparr>)" for n tx
    using assms by (simp_all add: broker_ok_def session_at_def)
  ultimately show ?thesis by (simp add: publish_actions_def route_publish_def Let_def)
qed

text \<open>The actions of a packet are its handler.\<close>

lemma run_acknowledge: "run (acknowledge_actions i pkt rc) b = acknowledge i pkt rc b"
  by (simp add: acknowledge_actions_def acknowledge_def reply_def split: option.split)

lemma run_subscribe: "run (subscribe_actions c f q ident) b = broker_subscribe c f q ident b"
  by (simp add: subscribe_actions_def broker_subscribe_def Let_def)

lemma run_filters:
  assumes "cs_client_id (session_at b i) = c" and "may_read i b = P"
  shows "subscribe_filters i ident subs codes b =
    (codes @ map (\<lambda>sub. if P sub then s_options sub AND 0x03 else 0x87) subs,
     run (concat (map (\<lambda>sub. if P sub then subscribe_actions c (s_topic_filter sub) (s_options sub AND 0x03) ident
       else []) subs)) b)"
  using assms
proof (induction subs arbitrary: codes b)
  case (Cons sub subs)
  let ?b = "broker_subscribe c (s_topic_filter sub) (s_options sub AND 0x03) ident b"
  have same: "b_auth ?b = b_auth b" "session_at ?b j = session_at b j" for j
    by (simp_all add: broker_subscribe_def Let_def spawn_def session_at_def)
  then have "may_read i ?b = may_read i b" by (simp add: fun_eq_iff may_read_def session_username_def)
  with Cons.IH [of ?b] Cons.IH [of b "codes @ [0x87]"] Cons.prems same show ?case
    by (auto simp: may_read_def run_append run_subscribe fun_eq_iff simp del: lit_simps)
qed simp

lemma run_packet:
  assumes "broker_ok b"
  shows "process_client_packet i p b =
    (case packet_actions i p b of Ok actions \<Rightarrow> Ok (run actions b) | Err e \<Rightarrow> Err e | Panic \<Rightarrow> Panic)"
proof (cases p)
  case (Publish pkt)
  then show ?thesis
    by (simp add: process_publish_def run_append run_publish [OF assms] run_acknowledge del: lit_simps)
next
  case (Subscribe pkt)
  then show ?thesis
    using run_filters [of b i "cs_client_id (session_at b i)" "may_read i b"]
    by (simp add: process_subscribe_def reply_def run_append)
next
  case (PubAck pkt)
  have "cs_client_id (session_at (on_session i (\<lambda>s. snd (remove_in_flight pid s)) b) i) = cs_client_id (session_at b i)" for pid
    using same_on_session [of "\<lambda>s. snd (remove_in_flight pid s)"] by (simp add: same_sessions_def remove_in_flight_def)
  with PubAck show ?thesis by (simp add: process_puback_def)
qed (simp_all add: reply_def)

lemma run_ending: "run (ending_actions i b) b = cleanup i b"
  by (simp add: ending_actions_def cleanup_def remove_session_def run_Cons Let_def split: option.split)

lemma run_register: "run [Register i] b = register_session i b"
  by (simp add: register_session_def run_Cons Let_def)

lemma run_shutdown: "run [PushAll (encode_packet (Disconnect \<lparr>d_reason_code = 0, d_properties = disconnect_properties_default\<rparr>))] b =
  graceful_shutdown b"
proof -
  have "run (map (\<lambda>(c, i). Push i (encode_packet (Disconnect \<lparr>d_reason_code = 0, d_properties = disconnect_properties_default\<rparr>))) m) b =
      shutdown_sessions m b" for m
    by (induction m arbitrary: b) auto
  then show ?thesis by (simp add: graceful_shutdown_def run_Cons run_append)
qed

end
