(* ===== verification/Interleaving.thy ===== *)
theory Interleaving imports Actions begin

text \<open>
  All threads of the broker at once: each has the actions it still has to do and the point of the
  program it is at, and a step is one action of one thread whose lock is free, or one move of a
  thread that has nothing to do. The connections of the theory System are what this machine does when
  no thread interrupts another.
\<close>

section \<open>Locks\<close>

text \<open>The guard that an action takes; it is kept until its \<open>Release\<close>.\<close>

fun acquires :: "action \<Rightarrow> guard option" where
  "acquires (PickShared msg grp subs) = (if subs = [] then None else Some Counters)"
| "acquires (Deliver msg sub) = Some Sessions_Read"
| "acquires (PushAll buf) = Some Sessions_Read"
| "acquires (Register i) = Some Sessions_Write"
| "acquires (Remove client_id) = Some Sessions_Write"
| "acquires other = None"

fun conflict :: "guard \<Rightarrow> guard \<Rightarrow> bool" where
  "conflict Counters g = (g = Counters)"
| "conflict Sessions_Read g = (g = Sessions_Write)"
| "conflict Sessions_Write g = (g = Sessions_Read \<or> g = Sessions_Write)"

definition holds :: "action list \<Rightarrow> guard \<Rightarrow> bool" where
  "holds actions g \<longleftrightarrow> Release g \<in> set actions"

section \<open>Threads\<close>

text \<open>
  The points of the program between two lots of actions: a connection before its first read, waiting
  for bytes, going through its buffer, at its end, or dead of a panic; the bridge down, up, going
  through its buffer, or dead; the main task.
\<close>

datatype control =
    Opening
  | Await nat bytes
  | Decode nat bytes
  | Ended "conn_error option"
  | Fallen
  | Bridge_Down
  | Bridge_Up bytes bytes
  | Bridge_Decode bytes bytes
  | Bridge_Fallen
  | Main_Task

record thread =
  th_actions :: "action list"
  th_control :: control

record machine =
  m_broker :: broker
  m_threads :: "thread list"

text \<open>The first read of a connection.\<close>

definition open_connection :: "(rstr \<Rightarrow> rstr \<Rightarrow> bool) \<Rightarrow> bytes \<Rightarrow> broker \<Rightarrow> thread \<times> broker" where
  "open_connection verify read_buf b =
     (case decode_packet read_buf of
        Ok (packet, bytes_read) \<Rightarrow>
          (case packet of
             Connect pkt \<Rightarrow>
               let username = c_username pkt;
                   password = map_option from_utf8_lossy (c_password pkt);
                   expiry = (case cp_session_expiry_interval (c_properties pkt) of None \<Rightarrow> 0 | Some e \<Rightarrow> e) in
               if \<not> authenticate_client verify (b_auth b) username password then
                 (\<lparr>th_actions = [], th_control = Ended None\<rparr>, b)
               else
                 let (i, b) = alloc_session (new_session (b_clock b) (c_client_id pkt) username
                       (c_clean_start pkt) (c_keep_alive pkt) expiry True) b in
                 (\<lparr>th_actions = [Register i, Push i (encode_packet (connack_packet 0))],
                   th_control = Await i (drop bytes_read read_buf)\<rparr>, b)
           | _ \<Rightarrow> (\<lparr>th_actions = [], th_control = Ended None\<rparr>, b))
      | Err e \<Rightarrow> (\<lparr>th_actions = [], th_control = Ended None\<rparr>, b)
      | Panic \<Rightarrow> (\<lparr>th_actions = [], th_control = Fallen\<rparr>, b))"

text \<open>What a connection does with an event of its socket, or of its timer.\<close>

definition ending :: "nat \<Rightarrow> conn_error option \<Rightarrow> broker \<Rightarrow> thread" where
  "ending i result b = \<lparr>th_actions = ending_actions i b, th_control = Ended result\<rparr>"

fun on_event :: "(rstr \<Rightarrow> rstr \<Rightarrow> bool) \<Rightarrow> event \<Rightarrow> control \<Rightarrow> broker \<Rightarrow> thread \<times> broker" where
  "on_event verify (Received data) Opening b = open_connection verify data b"
| "on_event verify ev Opening b = (\<lparr>th_actions = [], th_control = Ended None\<rparr>, b)"
| "on_event verify (Received data) (Await i read_buf) b =
     (\<lparr>th_actions = [Touch i], th_control = Decode i (read_buf @ data)\<rparr>, b)"
| "on_event verify Closed (Await i read_buf) b = (ending i None b, b)"
| "on_event verify TimedOut (Await i read_buf) b = (ending i None b, b)"
| "on_event verify ReadFailed (Await i read_buf) b = (ending i (Some ReadFailure) b, b)"
| "on_event verify ev control b = (\<lparr>th_actions = [], th_control = control\<rparr>, b)"

text \<open>The next turn of the loop over a read buffer.\<close>

fun next_packet :: "control \<Rightarrow> broker \<Rightarrow> thread" where
  "next_packet (Decode i read_buf) b =
     (case decode_packet read_buf of
        Ok (packet, bytes_read) \<Rightarrow>
          (case packet_actions i packet b of
             Ok actions \<Rightarrow> \<lparr>th_actions = actions, th_control = Decode i (drop bytes_read read_buf)\<rparr>
           | Err e \<Rightarrow> ending i (Some e) b
           | Panic \<Rightarrow> \<lparr>th_actions = [], th_control = Fallen\<rparr>)
      | Err Incomplete \<Rightarrow> \<lparr>th_actions = [], th_control = Await i read_buf\<rparr>
      | Err e \<Rightarrow> ending i (Some (CodecFailure e)) b
      | Panic \<Rightarrow> \<lparr>th_actions = [], th_control = Fallen\<rparr>)"
| "next_packet (Bridge_Decode read_buf out) b =
     (case decode_packet read_buf of
        Ok (packet, consumed) \<Rightarrow>
          \<lparr>th_actions = (case packet of
             Publish pkt \<Rightarrow> publish_actions bridge_client (p_topic pkt) (p_payload pkt) (p_qos pkt) (p_retain pkt)
           | _ \<Rightarrow> []), th_control = Bridge_Decode (drop consumed read_buf) out\<rparr>
      | Err Incomplete \<Rightarrow> \<lparr>th_actions = [], th_control = Bridge_Up read_buf out\<rparr>
      | Err e \<Rightarrow> \<lparr>th_actions = [], th_control = Bridge_Down\<rparr>
      | Panic \<Rightarrow> \<lparr>th_actions = [], th_control = Bridge_Fallen\<rparr>)"
| "next_packet control b = \<lparr>th_actions = [], th_control = control\<rparr>"

text \<open>A turn of the bridge's \<open>select!\<close>.\<close>

fun on_link :: "bridge_event \<Rightarrow> bytes \<Rightarrow> bytes \<Rightarrow> control" where
  "on_link (RemoteBytes data) read_buf out = Bridge_Decode (read_buf @ data) out"
| "on_link RemoteClosed read_buf out = Bridge_Down"
| "on_link RemoteFailed read_buf out = Bridge_Down"
| "on_link (LocalMessage msg) read_buf out =
     Bridge_Up read_buf (out @ (case bridge_forward msg of None \<Rightarrow> [] | Some buf \<Rightarrow> buf))"
| "on_link PingDue read_buf out = Bridge_Up read_buf (out @ encode_packet PingReq)"
| "on_link WriteFailed read_buf out = Bridge_Down"

section \<open>Steps\<close>

definition set_thread :: "nat \<Rightarrow> thread \<Rightarrow> broker \<Rightarrow> machine \<Rightarrow> machine" where
  "set_thread k th b m = \<lparr>m_broker = b, m_threads = (m_threads m)[k := th]\<rparr>"

text \<open>The lock that the next action takes is not held by any thread in a way that excludes it.\<close>

definition can_act :: "machine \<Rightarrow> nat \<Rightarrow> bool" where
  "can_act m k \<longleftrightarrow> k < length (m_threads m) \<and>
     (case th_actions (m_threads m ! k) of
        [] \<Rightarrow> False
      | a # actions \<Rightarrow>
          (case acquires a of
             None \<Rightarrow> True
           | Some g \<Rightarrow> \<forall>th \<in> set (m_threads m). \<forall>g'. holds (th_actions th) g' \<longrightarrow> \<not> conflict g g'))"

definition disconnect_all :: bytes where
  "disconnect_all = encode_packet (Disconnect \<lparr>d_reason_code = 0, d_properties = disconnect_properties_default\<rparr>)"

inductive machine_step :: "(rstr \<Rightarrow> rstr \<Rightarrow> bool) \<Rightarrow> machine \<Rightarrow> machine \<Rightarrow> bool" for verify where
  act: "can_act m k \<Longrightarrow> m_threads m ! k = \<lparr>th_actions = a # actions, th_control = control\<rparr> \<Longrightarrow>
    perform a (m_broker m) = (followers, b) \<Longrightarrow>
    machine_step verify m (set_thread k \<lparr>th_actions = followers @ actions, th_control = control\<rparr> b m)"
| accept: "machine_step verify m (m\<lparr>m_threads := m_threads m @ [\<lparr>th_actions = [], th_control = Opening\<rparr>]\<rparr>)"
| event: "k < length (m_threads m) \<Longrightarrow> m_threads m ! k = \<lparr>th_actions = [], th_control = control\<rparr> \<Longrightarrow>
    on_event verify ev control (m_broker m) = (th, b) \<Longrightarrow>
    machine_step verify m (set_thread k th b m)"
| packet: "k < length (m_threads m) \<Longrightarrow> m_threads m ! k = \<lparr>th_actions = [], th_control = control\<rparr> \<Longrightarrow>
    machine_step verify m (set_thread k (next_packet control (m_broker m)) (m_broker m) m)"
| link_up: "k < length (m_threads m) \<Longrightarrow> m_threads m ! k = \<lparr>th_actions = [], th_control = Bridge_Down\<rparr> \<Longrightarrow>
    b_bridge_sender (m_broker m) \<noteq> None \<Longrightarrow> bridge_connack data = Ok rest \<Longrightarrow>
    machine_step verify m (set_thread k \<lparr>th_actions = [], th_control =
      Bridge_Up rest (encode_packet (bridge_connect user pass) @ encode_packet bridge_subscribe)\<rparr> (m_broker m) m)"
| link: "k < length (m_threads m) \<Longrightarrow> m_threads m ! k = \<lparr>th_actions = [], th_control = Bridge_Up buf out\<rparr> \<Longrightarrow>
    (\<And>msg. ev \<noteq> LocalMessage msg) \<Longrightarrow>
    machine_step verify m (set_thread k \<lparr>th_actions = [], th_control = on_link ev buf out\<rparr> (m_broker m) m)"
| link_takes: "k < length (m_threads m) \<Longrightarrow> m_threads m ! k = \<lparr>th_actions = [], th_control = Bridge_Up buf out\<rparr> \<Longrightarrow>
    b_bridge_sender (m_broker m) = Some (msg # queue) \<Longrightarrow>
    control = on_link (LocalMessage msg) buf out \<or> bridge_forward msg \<noteq> None \<and> control = Bridge_Down \<Longrightarrow>
    machine_step verify m (set_thread k \<lparr>th_actions = [], th_control = control\<rparr>
      ((m_broker m)\<lparr>b_bridge_sender := Some queue\<rparr>) m)"
| shutdown: "k < length (m_threads m) \<Longrightarrow> m_threads m ! k = \<lparr>th_actions = [], th_control = Main_Task\<rparr> \<Longrightarrow>
    machine_step verify m (set_thread k \<lparr>th_actions = [PushAll disconnect_all], th_control = Main_Task\<rparr> (m_broker m) m)"
| writer_ends: "machine_step verify m
    (m\<lparr>m_broker := on_session i (\<lambda>x. x\<lparr>cs_receiver := False\<rparr>) (m_broker m)\<rparr>)"
| tick: "machine_step verify m (m\<lparr>m_broker := (m_broker m)\<lparr>b_clock := b_clock (m_broker m) + d\<rparr>\<rparr>)"

inductive_cases machine_step_cases: "machine_step verify m m'"

definition first_machine :: "broker \<Rightarrow> machine" where
  "first_machine b =
     \<lparr>m_broker = b, m_threads = [\<lparr>th_actions = [], th_control = Main_Task\<rparr>,
        \<lparr>th_actions = [], th_control = Bridge_Down\<rparr>]\<rparr>"

definition runs_to :: "(rstr \<Rightarrow> rstr \<Rightarrow> bool) \<Rightarrow> machine \<Rightarrow> machine \<Rightarrow> bool" where
  "runs_to verify = (machine_step verify)\<^sup>*\<^sup>*"

section \<open>The order of the locks\<close>

text \<open>
  A thread takes the lock of the counters before the one of the session map and never the same twice:
  while it holds a guard, what it still has to do takes locks of a higher level only. \<open>needs\<close> is the
  lowest level that an action, or one that follows it, takes.
\<close>

fun level :: "guard \<Rightarrow> nat" where
  "level Counters = 1"
| "level Sessions_Read = 2"
| "level Sessions_Write = 2"

fun needs :: "action \<Rightarrow> nat" where
  "needs (MatchTopic msg) = 1"
| "needs (PickShared msg grp subs) = 1"
| "needs (Deliver msg sub) = 2"
| "needs (PushAll buf) = 2"
| "needs (Register i) = 2"
| "needs (Remove client_id) = 2"
| "needs other = 3"

fun orderly :: "action list \<Rightarrow> bool" where
  "orderly [] \<longleftrightarrow> True"
| "orderly (a # actions) \<longleftrightarrow> (\<forall>g. holds actions g \<longrightarrow> level g < needs a) \<and> orderly actions"

lemma holds_simps [simp]:
  "\<not> holds [] g" "holds (a # actions) g \<longleftrightarrow> a = Release g \<or> holds actions g"
  "holds (xs @ ys) g \<longleftrightarrow> holds xs g \<or> holds ys g"
  by (auto simp: holds_def)

lemma level_bound: "level g < 3" "0 < needs a"
  by (cases g; simp) (cases a; simp)

lemma acquires_level: "acquires a = Some g \<Longrightarrow> needs a \<le> level g"
  by (cases a) (auto split: if_splits)

lemma conflict_level: "conflict g g' \<Longrightarrow> level g' = level g"
  by (cases g) auto

lemma orderly_append:
  "orderly (xs @ ys) \<longleftrightarrow> orderly xs \<and> orderly ys \<and> (\<forall>x \<in> set xs. \<forall>g. holds ys g \<longrightarrow> level g < needs x)"
  by (induction xs) auto

lemma orderly_free: "(\<And>g. \<not> holds xs g) \<Longrightarrow> orderly xs"
  by (induction xs) auto

lemma orderly_followers:
  "orderly (fst (perform a b)) \<and> (\<forall>x \<in> set (fst (perform a b)). needs a \<le> needs x)"
proof (cases a)
  case (MatchTopic msg)
  then have "\<not> holds (fst (perform a b)) g" for g by (auto simp: holds_def Let_def)
  with MatchTopic show ?thesis using level_bound(2) by (auto simp: orderly_free Suc_le_eq)
next
  case (PushAll buf)
  then have "\<not> holds (map (\<lambda>(client_id, i). Push i buf) (b_sessions b)) g" for g by (auto simp: holds_def)
  with PushAll show ?thesis by (auto simp: orderly_append orderly_free level_bound(1))
qed (auto simp: Let_def with_id_def level_bound(1) split: if_splits option.splits prod.splits)

lemma orderly_perform: "orderly (a # actions) \<Longrightarrow> orderly (fst (perform a b) @ actions)"
  using orderly_followers [of a b] by (auto simp: orderly_append intro: less_le_trans)

text \<open>A thread never waits for itself.\<close>

lemma orderly_not_self:
  "orderly (a # actions) \<Longrightarrow> acquires a = Some g \<Longrightarrow> holds (a # actions) g' \<Longrightarrow> \<not> conflict g g'"
  using acquires_level [of a g] conflict_level [of g g'] by fastforce

lemma packet_actions_orderly: "packet_actions i p b = Ok actions \<Longrightarrow> \<not> holds actions g"
  by (cases p) (auto simp: holds_def publish_actions_def acknowledge_actions_def subscribe_actions_def
      split: option.splits if_splits)

section \<open>A thread that nobody interrupts\<close>

abbreviation idle :: "control \<Rightarrow> thread" where
  "idle control \<equiv> \<lparr>th_actions = [], th_control = control\<rparr>"

text \<open>No thread holds a guard.\<close>

definition unlocked :: "machine \<Rightarrow> bool" where
  "unlocked m \<longleftrightarrow> (\<forall>th \<in> set (m_threads m). \<forall>g. \<not> holds (th_actions th) g)"

lemma runs_refl [simp]: "runs_to verify m m"
  by (simp add: runs_to_def)

lemma runs_trans: "runs_to verify m1 m2 \<Longrightarrow> runs_to verify m2 m3 \<Longrightarrow> runs_to verify m1 m3"
  by (auto simp: runs_to_def)

lemma runs_step: "machine_step verify m1 m2 \<Longrightarrow> runs_to verify m2 m3 \<Longrightarrow> runs_to verify m1 m3"
  by (auto simp: runs_to_def intro: converse_rtranclp_into_rtranclp)

lemma set_thread_simps [simp]:
  "m_broker (set_thread k th b m) = b" "m_threads (set_thread k th b m) = (m_threads m)[k := th]"
  "set_thread k th b (set_thread k th' b' m) = set_thread k th b m"
  by (simp_all add: set_thread_def)

lemma set_thread_same: "m_threads m ! k = th \<Longrightarrow> set_thread k th (m_broker m) m = m"
  by (cases m) (auto simp: set_thread_def)

lemma unlocked_can_act:
  assumes "unlocked m" and "k < length (m_threads m)" and "orderly (a # actions)"
  shows "can_act (set_thread k \<lparr>th_actions = a # actions, th_control = control\<rparr> b m) k"
proof -
  let ?th = "\<lparr>th_actions = a # actions, th_control = control\<rparr>"
  have "\<not> conflict g g'" if "acquires a = Some g" "th \<in> set (m_threads (set_thread k ?th b m))" "holds (th_actions th) g'"
    for g g' th
  proof -
    from that(2,3) assms(1) have "th = ?th"
      using set_update_subset_insert by (fastforce simp: unlocked_def)
    with that orderly_not_self [OF assms(3)] show ?thesis by simp
  qed
  then show ?thesis using assms(2) by (auto simp: can_act_def split: option.split)
qed

lemma run_front:
  assumes "unlocked m" and "k < length (m_threads m)" and "orderly (actions @ later)" and "\<And>g. \<not> holds later g"
  shows "runs_to verify (set_thread k \<lparr>th_actions = actions @ later, th_control = control\<rparr> b m)
    (set_thread k \<lparr>th_actions = later, th_control = control\<rparr> (run actions b) m)"
  using assms(3)
proof (induction actions b rule: run.induct)
  case (2 a actions b)
  let ?th = "\<lparr>th_actions = a # actions @ later, th_control = control\<rparr>"
  let ?m = "set_thread k ?th b m"
  obtain followers b' where p: "perform a b = (followers, b')" by (cases "perform a b")
  have "can_act ?m k" by (rule unlocked_can_act [OF assms(1,2)]) (use 2(2) in simp)
  from machine_step.act [OF this _ , of a "actions @ later" control] p
  have "machine_step verify ?m (set_thread k \<lparr>th_actions = followers @ actions @ later, th_control = control\<rparr> b' m)"
    using assms(2) by simp
  with 2(1) orderly_perform [of a "actions @ later" b] 2(2) p show ?case
    by (auto simp: run.simps(2) intro: runs_step)
qed simp

lemmas run_alone = run_front [where later = "[]", simplified]

section \<open>The atomic system is the machine without interruptions\<close>

fun conn_control :: "connection \<Rightarrow> control" where
  "conn_control Handshaking = Opening"
| "conn_control (Running i read_buf) = Await i read_buf"
| "conn_control (Done result) = Ended result"
| "conn_control Dead = Fallen"

fun link_control :: "link \<Rightarrow> control" where
  "link_control LinkDown = Bridge_Down"
| "link_control (LinkUp read_buf out) = Bridge_Up read_buf out"
| "link_control LinkGone = Bridge_Fallen"

definition machine_of :: "system \<Rightarrow> machine" where
  "machine_of s =
     \<lparr>m_broker = sys_broker s,
      m_threads = idle Main_Task # idle (link_control (sys_link s)) #
        map (\<lambda>conn. idle (conn_control conn)) (sys_conns s)\<rparr>"

lemma unlocked_of [simp]: "unlocked (machine_of s)"
  by (auto simp: unlocked_def machine_of_def)

lemma machine_of_fields:
  "m_broker (machine_of s) = sys_broker s" "length (m_threads (machine_of s)) = length (sys_conns s) + 2"
  "k < length (sys_conns s) \<Longrightarrow> m_threads (machine_of s) ! (k + 2) = idle (conn_control (sys_conns s ! k))"
  "m_threads (machine_of s) ! Suc 0 = idle (link_control (sys_link s))"
  "m_threads (machine_of s) ! 0 = idle Main_Task"
  by (simp_all add: machine_of_def)

lemma machine_of_conn:
  "set_thread (k + 2) (idle (conn_control conn)) b (machine_of s) =
    machine_of (s\<lparr>sys_broker := b, sys_conns := (sys_conns s)[k := conn]\<rparr>)"
  by (simp add: machine_of_def set_thread_def map_update)

lemma machine_of_link:
  "set_thread 1 (idle (link_control l)) b (machine_of s) = machine_of (s\<lparr>sys_broker := b, sys_link := l\<rparr>)"
  by (simp add: machine_of_def set_thread_def)

text \<open>The loop over a read buffer, in a thread that nobody interrupts.\<close>

fun drained_control :: "nat \<Rightarrow> (broker, conn_error) drained \<Rightarrow> control \<times> broker" where
  "drained_control i (Waiting b rest) = (Await i rest, b)"
| "drained_control i (Failed e b) = (Ended (Some e), cleanup i b)"
| "drained_control i (Crashed b) = (Fallen, b)"

lemma next_packet_step:
  assumes "k < length (m_threads m)"
  shows "machine_step verify (set_thread k (idle control) b m) (set_thread k (next_packet control b) b m)"
  using machine_step.packet [of k "set_thread k (idle control) b m" control verify] assms by simp

lemma ending_runs:
  assumes "unlocked m" and "k < length (m_threads m)"
  shows "runs_to verify (set_thread k (ending i result b) b m) (set_thread k (idle (Ended result)) (cleanup i b) m)"
  using run_alone [OF assms, of "ending_actions i b" verify "Ended result" b]
  by (simp add: ending_def run_ending) (simp add: ending_actions_def)

lemma drain_runs:
  assumes "unlocked m" and "k < length (m_threads m)" and "broker_ok b"
  shows "runs_to verify (set_thread k (idle (Decode i buf)) b m)
    (set_thread k (idle (fst (drained_control i (drain i b buf)))) (snd (drained_control i (drain i b buf))) m)"
  using assms(3)
proof (induction i b buf rule: drain.induct)
  case (1 i b buf)
  note step = next_packet_step [OF assms(2), of verify "Decode i buf" b]
  show ?case
  proof (cases "decode_packet buf")
    case (Ok pn)
    obtain p n where pn: "pn = (p, n)" by (cases pn)
    show ?thesis
    proof (cases "packet_actions i p b")
      case acts: (Ok actions)
      have p: "process_client_packet i p b = Ok (run actions b)" using run_packet [OF 1(2), of i p] acts by simp
      have "orderly actions" by (rule orderly_free) (rule packet_actions_orderly [OF acts])
      from run_alone [OF assms(1,2) this, of verify "Decode i (drop n buf)" b] 1(1) [OF Ok _ p]
        process_keeps [OF 1(2) p] step show ?thesis
        by (auto simp: drain.simps [of i b buf] Ok pn acts p intro: runs_step runs_trans)
    next
      case acts: (Err e)
      with run_packet [OF 1(2), of i p] step ending_runs [OF assms(1,2), of verify i "Some e" b] show ?thesis
        by (auto simp: drain.simps [of i b buf] Ok pn intro: runs_step)
    next
      case Panic
      with run_packet [OF 1(2), of i p] show ?thesis by simp
    qed
  next
    case (Err e)
    with step ending_runs [OF assms(1,2), of verify i "Some (CodecFailure e)" b] show ?thesis
      by (cases e) (auto simp: drain.simps [of i b buf] intro: runs_step)
  next
    case Panic
    with step show ?thesis by (auto simp: drain.simps [of i b buf] intro: runs_step)
  qed
qed

fun bridge_control :: "bytes \<Rightarrow> (broker, conn_error) drained \<Rightarrow> control" where
  "bridge_control out (Waiting b rest) = Bridge_Up rest out"
| "bridge_control out (Failed e b) = Bridge_Down"
| "bridge_control out (Crashed b) = Bridge_Fallen"

lemma bridge_drain_runs:
  assumes "unlocked m" and "k < length (m_threads m)" and "broker_ok b"
  shows "runs_to verify (set_thread k (idle (Bridge_Decode buf out)) b m)
    (set_thread k (idle (bridge_control out (bridge_drain b buf))) (after (bridge_drain b buf)) m)"
  using assms(3)
proof (induction b buf rule: bridge_drain.induct)
  case (1 b buf)
  note step = next_packet_step [OF assms(2), of verify "Bridge_Decode buf out" b]
  show ?case
  proof (cases "decode_packet buf")
    case (Ok pn)
    obtain p n where pn: "pn = (p, n)" by (cases pn)
    let ?actions = "case p of Publish pkt \<Rightarrow> publish_actions bridge_client (p_topic pkt) (p_payload pkt) (p_qos pkt) (p_retain pkt)
      | _ \<Rightarrow> []"
    have "orderly ?actions" by (rule orderly_free) (auto simp: holds_def publish_actions_def split: packet.splits)
    note alone = run_alone [OF assms(1,2) this, of verify "Bridge_Decode (drop n buf) out" b]
    have "run ?actions b = bridge_packet p b" by (cases p) (simp_all add: run_publish [OF 1(2)])
    with alone 1(1) [OF Ok] bridge_packet_keeps [OF 1(2), of p] step show ?thesis
      by (auto simp: bridge_drain.simps [of b buf] Ok pn bridge_keeps_def intro: runs_step runs_trans)
  next
    case (Err e)
    with step show ?thesis by (cases e) (auto simp: bridge_drain.simps [of b buf] intro: runs_step)
  next
    case Panic
    with step show ?thesis by (auto simp: bridge_drain.simps [of b buf] intro: runs_step)
  qed
qed

text \<open>The first packet of a connection, with the actions of a login, and a read of a running connection.\<close>

lemma handshake_runs:
  assumes "unlocked m" and "k < length (m_threads m)" and "open_connection verify data b = (th, b1)"
    and "connection_event verify (Received data) Handshaking b = (conn, b')"
  shows "runs_to verify (set_thread k th b1 m) (set_thread k (idle (conn_control conn)) b' m)"
proof (cases "th_actions th = []")
  case True
  with assms(3,4) show ?thesis
    by (auto simp: open_connection_def handshake_def Let_def split: outcome.splits prod.splits packet.splits if_splits)
next
  case False
  obtain i buf where th: "th = \<lparr>th_actions = [Register i, Push i (encode_packet (connack_packet 0))],
      th_control = Await i buf\<rparr>" and acc: "handshake verify data b =
        Accepted i (reply i (connack_packet 0) (register_session i b1)) buf"
    using assms(3) False
    by (auto simp: open_connection_def handshake_def Let_def split: outcome.splits prod.splits packet.splits if_splits)
  have "run (th_actions th) b1 = reply i (connack_packet 0) (register_session i b1)"
    using run_append [of "[Register i]" "[Push i (encode_packet (connack_packet 0))]" b1] run_register [of i b1]
    by (simp add: th reply_def)
  with run_alone [OF assms(1,2), of "th_actions th" verify "Await i buf" b1] acc assms(4)
  show ?thesis by (auto simp: th)
qed

lemma read_runs:
  assumes "unlocked m" and "k < length (m_threads m)" and "broker_ok b"
    and "connection_event verify (Received data) (Running i buf) b = (conn, b')"
  shows "runs_to verify (set_thread k \<lparr>th_actions = [Touch i], th_control = Decode i (buf @ data)\<rparr> b m)
    (set_thread k (idle (conn_control conn)) b' m)"
proof -
  let ?b1 = "on_session i (update_activity (b_clock b)) b"
  have ok: "broker_ok ?b1" by (rule broker_ok_on_session [OF assms(3)]) (simp add: update_activity_def)
  have "runs_to verify (set_thread k \<lparr>th_actions = [Touch i], th_control = Decode i (buf @ data)\<rparr> b m)
      (set_thread k (idle (Decode i (buf @ data))) ?b1 m)"
    using run_alone [OF assms(1,2), of "[Touch i]" verify "Decode i (buf @ data)" b] by simp
  with drain_runs [OF assms(1,2) ok, of verify i "buf @ data"] assms(4) show ?thesis
    by (cases "drain i ?b1 (buf @ data)") (auto intro: runs_trans)
qed

lemma event_runs:
  assumes "broker_ok (sys_broker s)" and "k < length (sys_conns s)"
    and "connection_event verify ev (sys_conns s ! k) (sys_broker s) = (conn, b)"
  shows "runs_to verify (machine_of s) (machine_of (s\<lparr>sys_broker := b, sys_conns := (sys_conns s)[k := conn]\<rparr>))"
proof -
  let ?m = "machine_of s" and ?b = "sys_broker s" and ?c = "conn_control (sys_conns s ! k)"
  note th = machine_of_fields(3) [OF assms(2)]
  have k: "k + 2 < length (m_threads ?m)" using assms(2) by (simp add: machine_of_fields)
  have step: "machine_step verify ?m (set_thread (k + 2) th b' ?m)" if "on_event verify ev ?c ?b = (th, b')" for th b'
    by (rule machine_step.event [OF k th]) (use that in \<open>simp add: machine_of_fields\<close>)
  have alone: "runs_to verify (set_thread (k + 2) (ending i result b') b' ?m)
      (set_thread (k + 2) (idle (Ended result)) (cleanup i b') ?m)" for i result b'
    by (rule ending_runs [OF unlocked_of k])
  have "runs_to verify ?m (set_thread (k + 2) (idle (conn_control conn)) b ?m)"
  proof (cases "sys_conns s ! k")
    case Handshaking
    show ?thesis
    proof (cases ev)
      case (Received data)
      obtain th b1 where o: "open_connection verify data ?b = (th, b1)" by (cases "open_connection verify data ?b")
      with handshake_runs [OF unlocked_of k o] step [of th b1] Handshaking Received assms(3) show ?thesis
        by (auto intro: runs_step)
    qed (use assms(3) Handshaking step [of "idle (Ended None)" ?b] in \<open>auto intro: runs_step\<close>)
  next
    case (Running i buf)
    show ?thesis
    proof (cases ev)
      case (Received data)
      with read_runs [OF unlocked_of k assms(1), of verify data i buf conn b]
        step [of "\<lparr>th_actions = [Touch i], th_control = Decode i (buf @ data)\<rparr>" ?b] Running assms(3)
      show ?thesis by (auto simp del: connection_event.simps intro: runs_step)
    qed (use assms(3) Running step alone in \<open>auto intro: runs_step\<close>)
  qed (use assms(3) set_thread_same [OF th] in \<open>simp_all add: machine_of_fields\<close>)
  then show ?thesis by (simp only: machine_of_conn)
qed

lemma link_turn_runs:
  assumes "broker_ok b" and "unlocked m" and "k < length (m_threads m)"
  shows "runs_to verify (set_thread k (idle (on_link ev buf out)) b m)
    (set_thread k (idle (link_control (sys_link (after_turn (bridge_turn ev
        \<lparr>bs_broker = b, bs_read_buf = buf, bs_written = out\<rparr>) s))))
      (result_broker (bridge_turn ev \<lparr>bs_broker = b, bs_read_buf = buf, bs_written = out\<rparr>)) m)"
proof (cases ev)
  case (RemoteBytes data)
  with bridge_drain_runs [OF assms(2,3,1), of verify "buf @ data" out] show ?thesis
    by (cases "bridge_drain b (buf @ data)") auto
qed (auto split: option.split)

lemma machine_of_turn:
  "machine_of (after_turn r s) = set_thread 1 (idle (link_control (sys_link (after_turn r s)))) (result_broker r) (machine_of s)"
  by (simp add: machine_of_def set_thread_def)

lemma link_takes_runs:
  assumes "broker_ok (sys_broker s)" and "sys_link s = LinkUp buf out"
    and "b_bridge_sender (sys_broker s) = Some (msg # queue)" and "b = (sys_broker s)\<lparr>b_bridge_sender := Some queue\<rparr>"
  shows "runs_to verify (machine_of s) (machine_of (after_turn (bridge_turn (LocalMessage msg)
    \<lparr>bs_broker = b, bs_read_buf = buf, bs_written = out\<rparr>) s))"
proof -
  have k: "1 < length (m_threads (machine_of s))" by (simp add: machine_of_def)
  have "machine_step verify (machine_of s)
      (set_thread 1 (idle (on_link (LocalMessage msg) buf out)) ((m_broker (machine_of s))\<lparr>b_bridge_sender := Some queue\<rparr>) (machine_of s))"
    by (rule machine_step.link_takes [OF k]) (use assms(2,3) in \<open>simp_all add: machine_of_fields\<close>)
  moreover have "broker_ok b" using assms(1,4) by (simp add: broker_ok_def session_at_def)
  note link_turn_runs [OF this unlocked_of k, of verify "LocalMessage msg" buf out s]
  ultimately show ?thesis
    by (auto simp: machine_of_turn assms(4) machine_of_fields simp del: bridge_turn.simps on_link.simps intro: runs_step)
qed

lemma sys_step_runs:
  assumes "sys_step verify s s'" and "broker_ok (sys_broker s)"
  shows "runs_to verify (machine_of s) (machine_of s')"
  using assms(1)
proof cases
  case accept
  have "machine_step verify (machine_of s) (machine_of s')"
    using machine_step.accept [of verify "machine_of s"] accept by (simp add: machine_of_def)
  then show ?thesis by (rule runs_step) simp
next
  case (event k ev conn b)
  with event_runs [OF assms(2) event(2,3)] show ?thesis by simp
next
  case (writer_ends i)
  have "machine_step verify (machine_of s) (machine_of s')"
    using machine_step.writer_ends [of verify "machine_of s" i] writer_ends by (simp add: machine_of_def)
  then show ?thesis by (rule runs_step) simp
next
  case (link_up data rest user pass)
  have "machine_step verify (machine_of s) (set_thread 1 (idle (Bridge_Up rest
      (encode_packet (bridge_connect user pass) @ encode_packet bridge_subscribe))) (m_broker (machine_of s)) (machine_of s))"
    by (rule machine_step.link_up) (use link_up in \<open>simp_all add: machine_of_def\<close>)
  with link_up machine_of_link [of "LinkUp rest (encode_packet (bridge_connect user pass) @ encode_packet bridge_subscribe)"
      "sys_broker s" s] show ?thesis
    by (auto simp: machine_of_fields intro: runs_step)
next
  case (link_turn buf out ev)
  have k: "1 < length (m_threads (machine_of s))" by (simp add: machine_of_def)
  have "machine_step verify (machine_of s) (set_thread 1 (idle (on_link ev buf out)) (m_broker (machine_of s)) (machine_of s))"
    by (rule machine_step.link [OF k]) (use link_turn in \<open>simp_all add: machine_of_fields\<close>)
  with link_turn_runs [OF assms(2) unlocked_of k, of verify ev buf out s] link_turn show ?thesis
    by (auto simp: machine_of_turn machine_of_fields simp del: bridge_turn.simps on_link.simps intro: runs_step)
next
  case (link_takes buf out msg queue b)
  with link_takes_runs [OF assms(2) link_takes(2-4)] show ?thesis by simp
next
  case (link_loses buf out msg queue)
  have "machine_step verify (machine_of s)
      (set_thread 1 (idle Bridge_Down) ((m_broker (machine_of s))\<lparr>b_bridge_sender := Some queue\<rparr>) (machine_of s))"
    by (rule machine_step.link_takes) (use link_loses in \<open>simp_all add: machine_of_def\<close>)
  with link_loses machine_of_link [of LinkDown "(sys_broker s)\<lparr>b_bridge_sender := Some queue\<rparr>" s] show ?thesis
    by (auto simp: machine_of_fields intro: runs_step)
next
  case (tick d)
  have "machine_step verify (machine_of s) (machine_of s')"
    using machine_step.tick [of verify "machine_of s" d] tick by (simp add: machine_of_def)
  then show ?thesis by (rule runs_step) simp
next
  case shutdown
  have k: "0 < length (m_threads (machine_of s))" by (simp add: machine_of_def)
  have "machine_step verify (machine_of s) (set_thread 0 \<lparr>th_actions = [PushAll disconnect_all], th_control = Main_Task\<rparr>
      (m_broker (machine_of s)) (machine_of s))"
    by (rule machine_step.shutdown [OF k]) (simp add: machine_of_fields)
  moreover have "set_thread 0 (idle Main_Task) (graceful_shutdown (sys_broker s)) (machine_of s) = machine_of s'"
    using shutdown by (simp add: machine_of_def set_thread_def)
  moreover note run_alone [OF unlocked_of k, of "[PushAll disconnect_all]" verify Main_Task "sys_broker s"]
  ultimately show ?thesis
    by (auto simp: machine_of_fields disconnect_all_def run_shutdown intro: runs_step)
qed

lemma reachable_runs:
  assumes "reachable verify b0 s" and "broker_ok b0"
  shows "runs_to verify (first_machine b0) (machine_of s)"
  using assms
proof (induction rule: reachable.induct)
  case start
  then show ?case by (simp add: first_system_def first_machine_def machine_of_def)
next
  case (step s s')
  have "broker_ok (sys_broker s)" using reachable_ok [OF step(1,4)] by (simp add: sys_ok_def)
  with sys_step_runs [OF step(2)] step runs_trans show ?case by blast
qed

end
