(* ===== verification/Concurrency.thy ===== *)
theory Concurrency imports Interleaving begin

text \<open>
  What holds of the broker under every interleaving of its threads: the invariants of the theories
  Delivery, Access and Wire, the exclusion that the locks promise, and progress: the threads never
  wait for each other in a circle, and what they have to do comes to an end. One race is exhibited.
\<close>

section \<open>Sound states and sound actions\<close>

text \<open>
  Every entry of the router is one of the first entries \<open>T\<close>, or was granted to a session that logged in.
\<close>

definition entries_ok :: "(rstr \<Rightarrow> rstr \<Rightarrow> bool) \<Rightarrow> entry multiset \<Rightarrow> broker \<Rightarrow> bool" where
  "entries_ok verify T b \<longleftrightarrow> (\<forall>e \<in># table (b_router b). e \<in># T \<or>
     (\<exists>i < length (b_heap b). logged_in verify b i \<and> (\<exists>filt. granted_entry b i filt e)))"

definition sound :: "(rstr \<Rightarrow> rstr \<Rightarrow> bool) \<Rightarrow> entry multiset \<Rightarrow> broker \<Rightarrow> bool" where
  "sound verify T b \<longleftrightarrow> broker_ok b \<and> entries_ok verify T b \<and> wire_ok b"

text \<open>Sessions are added, and no session changes its owner.\<close>

definition grows :: "broker \<Rightarrow> broker \<Rightarrow> bool" where
  "grows b b' \<longleftrightarrow> b_auth b' = b_auth b \<and> length (b_heap b) \<le> length (b_heap b') \<and>
     (\<forall>j < length (b_heap b). cs_client_id (session_at b' j) = cs_client_id (session_at b j) \<and>
       cs_username (session_at b' j) = cs_username (session_at b j))"

definition message_ok :: "message \<Rightarrow> bool" where
  "message_ok msg \<longleftrightarrow> str_ok (msg_topic msg) \<and> msg_qos msg \<le> 2"

definition recipient_ok :: "subscription_info \<Rightarrow> bool" where
  "recipient_ok sub \<longleftrightarrow> pred_option varint_ok (si_subscription_identifier sub)"

text \<open>The right to read that a pending subscription was granted.\<close>

definition granted :: "(rstr \<Rightarrow> rstr \<Rightarrow> bool) \<Rightarrow> broker \<Rightarrow> rstr \<Rightarrow> rstr \<Rightarrow> bool" where
  "granted verify b client_id topic_filter \<longleftrightarrow> (\<exists>i < length (b_heap b). logged_in verify b i \<and>
     cs_client_id (session_at b i) = client_id \<and> authorize (b_auth b) (session_username b i) topic_filter (lit ''read''))"

fun action_ok :: "(rstr \<Rightarrow> rstr \<Rightarrow> bool) \<Rightarrow> broker \<Rightarrow> action \<Rightarrow> bool" where
  "action_ok verify b (TellBridge topic payload) = str_ok topic"
| "action_ok verify b (MatchTopic msg) = message_ok msg"
| "action_ok verify b (PickShared msg grp subs) = (message_ok msg \<and> list_all recipient_ok subs)"
| "action_ok verify b (Deliver msg sub) = (message_ok msg \<and> recipient_ok sub)"
| "action_ok verify b (TakeId i msg sub) = (message_ok msg \<and> recipient_ok sub \<and> 0 < msg_qos msg)"
| "action_ok verify b (RetakeId i msg sub) = (message_ok msg \<and> recipient_ok sub \<and> 0 < msg_qos msg)"
| "action_ok verify b (AddRoute client_id topic_filter qos ident) =
     (pred_option varint_ok ident \<and> granted verify b client_id topic_filter)"
| "action_ok verify b (Push i buf) = sound_buffer buf"
| "action_ok verify b (PushAll buf) = sound_buffer buf"
| "action_ok verify b (Register i) = (i < length (b_heap b))"
| "action_ok verify b other = True"

lemma grows_refl [simp]: "grows b b"
  by (simp add: grows_def)

lemma grows_trans: "grows a b \<Longrightarrow> grows b c \<Longrightarrow> grows a c"
  by (simp add: grows_def)

lemma grows_same: "same_sessions b b' \<Longrightarrow> grows b b'"
  by (simp add: grows_def same_sessions_def)

lemma grows_fields:
  "b_auth b' = b_auth b \<Longrightarrow> b_heap b' = b_heap b \<Longrightarrow> grows b b'"
  by (simp add: grows_def session_at_def)

lemma grows_owner:
  assumes "grows b b'" and "i < length (b_heap b)"
  shows "i < length (b_heap b')" and "logged_in verify b' i = logged_in verify b i"
    and "granted_entry b' i filt e = granted_entry b i filt e" and "session_username b' i = session_username b i"
    and "cs_client_id (session_at b' i) = cs_client_id (session_at b i)" and "b_auth b' = b_auth b"
proof -
  have same: "b_auth b' = b_auth b" "cs_client_id (session_at b' i) = cs_client_id (session_at b i)"
    "cs_username (session_at b' i) = cs_username (session_at b i)"
    using assms by (simp_all add: grows_def)
  show "i < length (b_heap b')" using assms by (simp add: grows_def)
  show "logged_in verify b' i = logged_in verify b i" "granted_entry b' i filt e = granted_entry b i filt e"
    "session_username b' i = session_username b i"
    by (rule owner_facts [OF same])+
qed (use assms in \<open>simp_all add: grows_def\<close>)

lemma granted_grows:
  assumes "granted verify b c f" and "grows b b'"
  shows "granted verify b' c f"
proof -
  from assms(1) obtain i where i: "i < length (b_heap b)" "logged_in verify b i" "cs_client_id (session_at b i) = c"
    "authorize (b_auth b) (session_username b i) f (lit ''read'')"
    unfolding granted_def by blast
  note g = grows_owner [OF assms(2) i(1)]
  show ?thesis unfolding granted_def by (rule exI [of _ i]) (simp only: g i)
qed

lemma entries_ok_grows:
  assumes "entries_ok verify T b" and "grows b b'" and "b_router b' = b_router b"
  shows "entries_ok verify T b'"
  unfolding entries_ok_def
proof
  fix e assume "e \<in># table (b_router b')"
  then have "e \<in># T \<or> (\<exists>i < length (b_heap b). logged_in verify b i \<and> (\<exists>filt. granted_entry b i filt e))"
    using assms(1,3) by (simp add: entries_ok_def)
  then show "e \<in># T \<or> (\<exists>i < length (b_heap b'). logged_in verify b' i \<and> (\<exists>filt. granted_entry b' i filt e))"
    using grows_owner [OF assms(2)] by metis
qed



lemma action_ok_grows: "action_ok verify b a \<Longrightarrow> grows b b' \<Longrightarrow> action_ok verify b' a"
  by (cases a) (auto simp: granted_grows dest: grows_owner(1))

section \<open>Every action keeps the state sound\<close>

lemma sound_on_session:
  assumes "sound verify T b" and "\<And>s. cs_client_id (f s) = cs_client_id s" and "\<And>s. cs_username (f s) = cs_username s"
    and "\<And>s buf. buf \<in> set (cs_sent (f s)) \<Longrightarrow> buf \<in> set (cs_sent s) \<or> sound_buffer buf"
  shows "sound verify T (on_session i f b) \<and> grows b (on_session i f b)"
proof -
  have same: "same_sessions b (on_session i f b)" by (rule same_on_session) (rule assms)+
  have "entries_ok verify T (on_session i f b)"
    by (rule entries_ok_grows [OF _ grows_same [OF same]]) (use assms(1) in \<open>simp_all add: sound_def\<close>)
  with assms wire_on_session [of b f i] broker_ok_on_session [of b f i] grows_same [OF same] show ?thesis
    by (auto simp: sound_def)
qed

lemma sound_send: "sound verify T b \<Longrightarrow> sound_buffer buf \<Longrightarrow>
    sound verify T (on_session i (send_buf buf) b) \<and> grows b (on_session i (send_buf buf) b)"
  by (rule sound_on_session) (auto simp: send_buf_def split: if_splits)

text \<open>A change outside router, session map, sessions, configuration and the bridge's channel.\<close>

lemma sound_fields:
  assumes "sound verify T b" and "b_router b' = b_router b" "b_sessions b' = b_sessions b" "b_heap b' = b_heap b"
    "b_auth b' = b_auth b" "b_bridge_sender b' = b_bridge_sender b"
  shows "sound verify T b' \<and> grows b b'"
  using assms entries_ok_grows [of verify T b b'] broker_ok_same [of b' b] grows_fields [of b' b]
  by (simp add: sound_def wire_ok_def)

lemma matched_recipients:
  assumes "broker_ok b" and "wire_ok b"
  shows "list_all recipient_ok (normal (match_topic topic (b_router b)))"
    and "(grp, subs) \<in> set (shared (match_topic topic (b_router b))) \<Longrightarrow> list_all recipient_ok subs"
proof -
  have ok: "ok_node (b_router b)" using assms(1) by (simp add: broker_ok_def)
  have entry: "recipient_ok info" if "info \<in># picked (segments topic) g (table (b_router b))" for info g
    using that assms(2) by (auto simp: picked_def wire_ok_def identifiers_ok_def recipient_ok_def)
  from match_topic_spec [OF ok, of topic None]
  have "mset (normal (match_topic topic (b_router b))) = picked (segments topic) None (table (b_router b))"
    by (simp add: routed_def)
  with entry [of _ None] show "list_all recipient_ok (normal (match_topic topic (b_router b)))"
    by (metis list.pred_set set_mset_mset)
  show "list_all recipient_ok subs" if "(grp, subs) \<in> set (shared (match_topic topic (b_router b)))"
    using group_list [OF ok that] entry [of _ "Some grp"] by (metis list.pred_set set_mset_mset)
qed

lemma sound_sendable: "sendable p \<Longrightarrow> sound_buffer (encode_packet p)"
  by (auto simp: sound_buffer_def)

lemma with_id_ok:
  assumes "message_ok msg" and "recipient_ok sub" and "0 < msg_qos msg"
  shows "list_all (action_ok verify b) (with_id i msg sub pid)"
proof -
  have "sendable (publish_packet (msg_topic msg) (msg_payload msg) (msg_qos msg) (msg_retain msg) (Some pid)
      (si_subscription_identifier sub))"
    by (rule sendable_publish) (use assms in \<open>simp_all add: message_ok_def recipient_ok_def\<close>)
  then show ?thesis by (simp add: with_id_def sound_sendable)
qed

lemma sound_register:
  assumes "sound verify T b" and "i < length (b_heap b)"
  shows "sound verify T (b\<lparr>b_sessions := AList.update (cs_client_id (session_at b i)) i (b_sessions b)\<rparr>)"
proof -
  let ?b = "b\<lparr>b_sessions := AList.update (cs_client_id (session_at b i)) i (b_sessions b)\<rparr>"
  have "broker_ok ?b"
    using assms by (auto simp: sound_def broker_ok_def session_at_def distinct_update dest!: in_set_update)
  then show ?thesis using assms(1) entries_ok_grows [of verify T b ?b] by (simp add: sound_def grows_fields)
qed

lemma sound_remove:
  assumes "sound verify T b"
  shows "sound verify T (b\<lparr>b_sessions := AList.delete c (b_sessions b)\<rparr>)"
proof -
  let ?b = "b\<lparr>b_sessions := AList.delete c (b_sessions b)\<rparr>"
  have "broker_ok ?b"
    using assms by (auto simp: sound_def broker_ok_def session_at_def distinct_delete in_set_delete)
  then show ?thesis using assms entries_ok_grows [of verify T b ?b] by (simp add: sound_def grows_fields)
qed

lemma sound_add_route:
  assumes "sound verify T b" and "pred_option varint_ok ident" and "granted verify b c f"
  shows "sound verify T (b\<lparr>b_router := Router.subscribe c f q ident (b_router b)\<rparr>)"
proof -
  let ?b = "b\<lparr>b_router := Router.subscribe c f q ident (b_router b)\<rparr>"
  have ok: "broker_ok b" "entries_ok verify T b" "wire_ok b" using assms(1) by (simp_all add: sound_def)
  then have node: "ok_node (b_router b)" by (simp add: broker_ok_def)
  obtain i where i: "i < length (b_heap b)" "logged_in verify b i" "cs_client_id (session_at b i) = c"
    "authorize (b_auth b) (session_username b i) f (lit ''read'')"
    using assms(3) by (auto simp: granted_def)
  have g: "grows b ?b" by (simp add: grows_fields)
  have "granted_entry b i f (new_entry c f q ident)"
    using i(3,4) by (simp add: granted_entry_def new_entry_def split_beta del: lit_simps)
  moreover have "e = new_entry c f q ident \<or> e \<in># table (b_router b)" if "e \<in># table (b_router ?b)" for e
    using that by (auto simp: trie.tab_sub [OF node] without_def)
  ultimately have "e \<in># T \<or> (\<exists>i < length (b_heap b). logged_in verify b i \<and> (\<exists>filt. granted_entry b i filt e))"
    if "e \<in># table (b_router ?b)" for e
    using ok(2) that i(1,2) unfolding entries_ok_def by metis
  then have "entries_ok verify T ?b" using grows_owner [OF g] by (simp add: entries_ok_def) metis
  moreover have "wire_ok ?b"
    using wire_subscribe [OF ok(1,3) assms(2), of c f q] by (simp add: wire_ok_def broker_subscribe_def Let_def spawn_def)
  ultimately show ?thesis using broker_ok_router [OF ok(1) trie.ok_sub [OF node]] by (simp add: sound_def)
qed

lemma sound_bridge:
  assumes "sound verify T b" and "pred_option (list_all (\<lambda>(topic, payload). str_ok topic)) tx"
  shows "sound verify T (b\<lparr>b_bridge_sender := tx\<rparr>) \<and> grows b (b\<lparr>b_bridge_sender := tx\<rparr>)"
proof -
  let ?b = "b\<lparr>b_bridge_sender := tx\<rparr>"
  have g: "grows b ?b" by (simp add: grows_fields)
  from entries_ok_grows [OF _ g, of verify T] broker_ok_same [of ?b b] assms g show ?thesis
    by (simp add: sound_def wire_ok_def)
qed

text \<open>The actions that change the bookkeeping of a session, a counter or the list of tasks.\<close>

fun bookkeeping :: "action \<Rightarrow> bool" where
  "bookkeeping CountPublish = True"
| "bookkeeping CountSubscription = True"
| "bookkeeping (SpawnTask task) = True"
| "bookkeeping (KeepInFlight i pid msg) = True"
| "bookkeeping (DropInFlight i pid) = True"
| "bookkeeping (Touch i) = True"
| "bookkeeping (AbortWriter i) = True"
| "bookkeeping (Release g) = True"
| "bookkeeping a = False"

lemma bookkeeping_sound:
  assumes "sound verify T b" and "bookkeeping a"
  shows "fst (perform a b) = [] \<and> sound verify T (snd (perform a b)) \<and> grows b (snd (perform a b))"
proof -
  have quiet: "sound verify T (on_session i f b) \<and> grows b (on_session i f b)"
    if "\<And>s. cs_client_id (f s) = cs_client_id s \<and> cs_username (f s) = cs_username s \<and> cs_sent (f s) = cs_sent s" for i f
    by (rule sound_on_session [OF assms(1)]) (simp_all add: that)
  have fields: "sound verify T b' \<and> grows b b'" if "b_heap b' = b_heap b" "b_router b' = b_router b"
    "b_sessions b' = b_sessions b" "b_auth b' = b_auth b" "b_bridge_sender b' = b_bridge_sender b" for b'
    by (rule sound_fields [OF assms(1)]) (simp_all add: that)
  show ?thesis
    using assms by (cases a) (simp_all add: quiet fields add_in_flight_def remove_in_flight_def update_activity_def)
qed

lemma perform_sound:
  assumes "sound verify T b" and "action_ok verify b a" and "perform a b = (followers, b')"
  shows "sound verify T b' \<and> grows b b' \<and> list_all (action_ok verify b) followers"
proof (cases "bookkeeping a")
  case True
  from bookkeeping_sound [OF assms(1) True] assms(3) show ?thesis by simp
next
  case False
  have bump: "sound verify T (snd (bump_id i b)) \<and> grows b (snd (bump_id i b))" for i
    unfolding bump_id_def snd_conv by (rule sound_on_session [OF assms(1)]) simp_all
  have ok: "broker_ok b" "wire_ok b" using assms(1) by (simp_all add: sound_def)
  show ?thesis
  proof (cases a)
    case (TellBridge topic payload)
    have "pred_option (list_all (\<lambda>(topic, payload). str_ok topic))
        (map_option (\<lambda>tx. tx @ [(topic, payload)]) (b_bridge_sender b))"
      using ok(2) assms(2) TellBridge by (auto simp: wire_ok_def option.pred_map comp_def split: option.split)
    with sound_bridge [OF assms(1) this] assms(3) TellBridge show ?thesis by auto
  next
    case (MatchTopic msg)
    with matched_recipients(1) [OF ok, of "msg_topic msg"] matched_recipients(2) [OF ok, where topic = "msg_topic msg"] assms
    show ?thesis by (auto simp: Let_def list.pred_set)
  next
    case (PickShared msg grp subs)
    have "sound verify T b1 \<and> grows b b1" if "next_index grp b = (index, b1)" for index b1
      by (rule sound_fields [OF assms(1)]) (use next_index_fields [OF that] in simp_all)
    with assms PickShared show ?thesis by (auto simp: list.pred_set Let_def split: if_splits prod.splits)
  next
    case (Deliver msg sub)
    have "sendable (publish_packet (msg_topic msg) (msg_payload msg) (msg_qos msg) (msg_retain msg) None
        (si_subscription_identifier sub))" if "\<not> 0 < msg_qos msg"
      by (rule sendable_publish) (use assms(2) Deliver that in \<open>simp_all add: message_ok_def recipient_ok_def\<close>)
    with assms Deliver show ?thesis by (auto simp: sound_sendable split: option.splits)
  next
    case (TakeId i msg sub)
    with assms bump [of i] with_id_ok [of msg sub] show ?thesis by (auto split: prod.splits if_splits)
  next
    case (RetakeId i msg sub)
    with assms bump [of i] with_id_ok [of msg sub] show ?thesis by (auto split: prod.splits)
  next
    case (AddRoute c f q ident)
    with assms sound_add_route [OF assms(1), of ident c f q] show ?thesis by (auto intro: grows_fields)
  next
    case (Push i buf)
    with assms sound_send [OF assms(1), of buf i] show ?thesis by auto
  next
    case (Register i)
    with assms sound_register [OF assms(1), of i] show ?thesis by (auto simp: Let_def intro: grows_fields)
  next
    case (Remove c)
    with assms sound_remove [OF assms(1), of c] show ?thesis
      by (auto simp: Let_def intro: grows_fields split: option.splits)
  qed (use assms False in \<open>auto simp: list.pred_set\<close>)
qed

section \<open>Sound threads\<close>

fun control_ok :: "(rstr \<Rightarrow> rstr \<Rightarrow> bool) \<Rightarrow> broker \<Rightarrow> control \<Rightarrow> bool" where
  "control_ok verify b (Await i read_buf) = (i < length (b_heap b) \<and> logged_in verify b i)"
| "control_ok verify b (Decode i read_buf) = (i < length (b_heap b) \<and> logged_in verify b i)"
| "control_ok verify b (Bridge_Up read_buf out) = link_ok (LinkUp read_buf out)"
| "control_ok verify b (Bridge_Decode read_buf out) = link_ok (LinkUp read_buf out)"
| "control_ok verify b other = True"

definition thread_ok :: "(rstr \<Rightarrow> rstr \<Rightarrow> bool) \<Rightarrow> broker \<Rightarrow> thread \<Rightarrow> bool" where
  "thread_ok verify b th \<longleftrightarrow> list_all (action_ok verify b) (th_actions th) \<and> orderly (th_actions th) \<and> control_ok verify b (th_control th)"

fun session_of :: "control \<Rightarrow> nat option" where
  "session_of (Await i read_buf) = Some i"
| "session_of (Decode i read_buf) = Some i"
| "session_of other = None"

definition excluded :: "machine \<Rightarrow> bool" where
  "excluded m \<longleftrightarrow> (\<forall>k < length (m_threads m). \<forall>k' < length (m_threads m). \<forall>g g'.
     k \<noteq> k' \<longrightarrow> holds (th_actions (m_threads m ! k)) g \<longrightarrow> holds (th_actions (m_threads m ! k')) g' \<longrightarrow> \<not> conflict g g')"

definition own_sessions :: "machine \<Rightarrow> bool" where
  "own_sessions m \<longleftrightarrow> (\<forall>k < length (m_threads m). \<forall>k' < length (m_threads m). \<forall>i.
     session_of (th_control (m_threads m ! k)) = Some i \<longrightarrow> session_of (th_control (m_threads m ! k')) = Some i \<longrightarrow> k = k')"

definition machine_ok :: "(rstr \<Rightarrow> rstr \<Rightarrow> bool) \<Rightarrow> entry multiset \<Rightarrow> machine \<Rightarrow> bool" where
  "machine_ok verify T m \<longleftrightarrow> sound verify T (m_broker m) \<and> (\<forall>th \<in> set (m_threads m). thread_ok verify (m_broker m) th) \<and>
     excluded m \<and> own_sessions m"

lemma conflict_sym: "conflict g g' \<Longrightarrow> conflict g' g"
  by (cases g; cases g') auto

lemma control_ok_grows: "control_ok verify b c \<Longrightarrow> grows b b' \<Longrightarrow> control_ok verify b' c"
  by (cases c) (auto simp: grows_owner)

lemma thread_ok_grows: "thread_ok verify b th \<Longrightarrow> grows b b' \<Longrightarrow> thread_ok verify b' th"
  by (auto simp: thread_ok_def list.pred_set intro: action_ok_grows control_ok_grows)

lemma thread_session: "thread_ok verify b th \<Longrightarrow> session_of (th_control th) = Some i \<Longrightarrow> i < length (b_heap b)"
  by (cases "th_control th") (auto simp: thread_ok_def)

lemma follower_guards: "holds (fst (perform a b)) g \<Longrightarrow> acquires a = Some g"
  by (cases a) (auto simp: Let_def holds_def with_id_def split: if_splits option.splits prod.splits)

text \<open>One thread moves: it takes no guard that another excludes, and no session that another has.\<close>

lemma machine_ok_set_thread:
  assumes "machine_ok verify T m" and "k < length (m_threads m)" and "sound verify T b" and "grows (m_broker m) b"
    and "thread_ok verify b th"
    and "\<And>g. holds (th_actions th) g \<Longrightarrow> holds (th_actions (m_threads m ! k)) g \<or>
      (\<forall>th' \<in> set (m_threads m). \<forall>g'. holds (th_actions th') g' \<longrightarrow> \<not> conflict g g')"
    and "\<And>i. session_of (th_control th) = Some i \<Longrightarrow>
      session_of (th_control (m_threads m ! k)) = Some i \<or> length (b_heap (m_broker m)) \<le> i"
  shows "machine_ok verify T (set_thread k th b m)"
proof -
  have others: "thread_ok verify (m_broker m) (m_threads m ! j)" if "j < length (m_threads m)" for j
    using assms(1) that by (simp add: machine_ok_def)
  have ex: "\<not> conflict g g'" if "j < length (m_threads m)" "j \<noteq> k" "holds (th_actions th) g"
    "holds (th_actions (m_threads m ! j)) g'" for j g g'
    using assms(6) [OF that(3)] assms(1,2) that(1,2,4) unfolding machine_ok_def excluded_def by (metis nth_mem)
  have own: False if "j < length (m_threads m)" "j \<noteq> k" "session_of (th_control th) = Some i"
    "session_of (th_control (m_threads m ! j)) = Some i" for i j
    using assms(7) [OF that(3)] thread_session [OF others [OF that(1)] that(4)] assms(1,2) that(1,2,4)
    unfolding machine_ok_def own_sessions_def by (metis not_less)
  have "excluded (set_thread k th b m)"
    unfolding excluded_def
  proof (intro allI impI)
    fix i j g g'
    assume "i < length (m_threads (set_thread k th b m))" "j < length (m_threads (set_thread k th b m))" "i \<noteq> j"
      "holds (th_actions (m_threads (set_thread k th b m) ! i)) g"
      "holds (th_actions (m_threads (set_thread k th b m) ! j)) g'"
    then show "\<not> conflict g g'"
      using assms(1,2) ex [of j g g'] ex [of i g' g] conflict_sym [of g g']
      by (auto simp: machine_ok_def excluded_def nth_list_update split: if_splits)
  qed
  moreover have "own_sessions (set_thread k th b m)"
    unfolding own_sessions_def
  proof (intro allI impI)
    fix i j s
    assume "i < length (m_threads (set_thread k th b m))" "j < length (m_threads (set_thread k th b m))"
      "session_of (th_control (m_threads (set_thread k th b m) ! i)) = Some s"
      "session_of (th_control (m_threads (set_thread k th b m) ! j)) = Some s"
    then show "i = j"
      using assms(1,2) own [of i s] own [of j s]
      by (auto simp: machine_ok_def own_sessions_def nth_list_update split: if_splits)
  qed
  moreover have "thread_ok verify b th'" if "th' \<in> set (m_threads (set_thread k th b m))" for th'
    using that assms(1,4,5) thread_ok_grows set_update_subset_insert
    by (fastforce simp: machine_ok_def)
  ultimately show ?thesis using assms(3) by (simp add: machine_ok_def)
qed

section \<open>Every step keeps the machine sound\<close>

lemma packet_actions_ok:
  assumes "packet_actions i p b = Ok actions" and "wf_packet p" and "i < length (b_heap b)" and "logged_in verify b i"
  shows "list_all (action_ok verify b) actions"
proof (cases p)
  case (Publish pkt)
  have "str_ok (p_topic pkt)" "p_qos pkt \<le> 2"
    using assms(2) Publish by (simp_all add: wf_packet_def wf_publish_def)
  moreover have "list_all (action_ok verify b) (acknowledge_actions i pkt rc)" for rc
    by (simp add: acknowledge_actions_def sound_wf small_packets_wf split: option.split)
  ultimately show ?thesis
    using assms(1) Publish by (auto simp: publish_actions_def message_ok_def simp del: lit_simps split: if_splits)
next
  case (Subscribe pkt)
  have "granted verify b (cs_client_id (session_at b i)) (s_topic_filter sub)" if "may_read i b sub" for sub
    using that assms(3,4) by (auto simp: granted_def may_read_def)
  moreover have "pred_option varint_ok (sp_subscription_identifier (sub_properties pkt))"
    using assms(2) Subscribe by (simp add: wf_packet_def wf_subscribe_def wf_subscribe_properties_def)
  ultimately show ?thesis
    using assms(1,2) Subscribe by (auto simp: list.pred_set subscribe_actions_def sound_wf suback_wf split: if_splits)
qed (use assms(1) in \<open>auto simp: sound_wf small_packets_wf\<close>)

lemma idle_ok [simp]: "thread_ok verify b (idle c) = control_ok verify b c"
  by (simp add: thread_ok_def)

lemma ending_ok [simp]: "thread_ok verify b (ending i result b') \<and> \<not> holds (th_actions (ending i result b')) g \<and>
    session_of (th_control (ending i result b')) = None"
  by (auto simp: thread_ok_def ending_def ending_actions_def holds_def)

lemma next_packet_ok:
  assumes "broker_ok b" and "control_ok verify b c"
  shows "thread_ok verify b (next_packet c b) \<and> (\<forall>g. \<not> holds (th_actions (next_packet c b)) g) \<and>
    (\<forall>i. session_of (th_control (next_packet c b)) = Some i \<longrightarrow> session_of c = Some i)"
proof (cases c)
  case (Decode i buf)
  show ?thesis
  proof (cases "decode_packet buf")
    case (Ok pn)
    obtain p n where pn: "pn = (p, n)" by (cases pn)
    have wf: "wf_packet p" using packet_sound(1) [of buf p n] Ok pn by simp
    show ?thesis
    proof (cases "packet_actions i p b")
      case acts: (Ok actions)
      note h = packet_actions_orderly [OF acts]
      from packet_actions_ok [OF acts wf] assms(2) h orderly_free [OF h] show ?thesis
        by (simp add: Decode Ok pn acts thread_ok_def)
    qed (simp_all add: Decode Ok pn)
  next
    case (Err e)
    with assms(2) show ?thesis by (cases e) (simp_all add: Decode)
  qed (simp add: Decode)
next
  case (Bridge_Decode buf out)
  show ?thesis
  proof (cases "decode_packet buf")
    case (Ok pn)
    obtain p n where pn: "pn = (p, n)" by (cases pn)
    have wf: "wf_packet p" using packet_sound(1) [of buf p n] Ok pn by simp
    then have "list_all (action_ok verify b) (publish_actions bridge_client (p_topic pkt) (p_payload pkt) (p_qos pkt) (p_retain pkt))"
      if "p = Publish pkt" for pkt
      using that by (auto simp: publish_actions_def message_ok_def wf_packet_def wf_publish_def)
    moreover have "\<not> holds (publish_actions f t d q r) g" for f t d q r g
      by (simp add: holds_def publish_actions_def)
    ultimately show ?thesis
      using assms(2) by (cases p) (simp_all add: Bridge_Decode Ok pn thread_ok_def link_ok_def orderly_free)
  next
    case (Err e)
    with assms(2) show ?thesis by (cases e) (simp_all add: Bridge_Decode link_ok_def)
  qed (simp add: Bridge_Decode)
qed (use assms(2) in simp_all)

lemma sound_alloc:
  assumes "sound verify T b" and "cs_sent s = []"
  shows "sound verify T (b\<lparr>b_heap := b_heap b @ [s]\<rparr>) \<and> grows b (b\<lparr>b_heap := b_heap b @ [s]\<rparr>)"
proof -
  let ?b = "b\<lparr>b_heap := b_heap b @ [s]\<rparr>"
  have at: "session_at ?b j = session_at b j" if "j < length (b_heap b)" for j
    using that by (simp add: session_at_def nth_append)
  have g: "grows b ?b" by (simp add: grows_def at)
  have "broker_ok ?b" using assms(1) by (fastforce simp: sound_def broker_ok_def at)
  moreover have "entries_ok verify T ?b" using assms(1) entries_ok_grows [OF _ g] by (simp add: sound_def)
  moreover have "wire_ok ?b" using assms(1,2) by (auto simp: sound_def wire_ok_def)
  ultimately show ?thesis using g by (simp add: sound_def)
qed

lemma open_connection_ok:
  assumes "sound verify T b" and "open_connection verify data b = (th, b')"
  shows "sound verify T b' \<and> grows b b' \<and> thread_ok verify b' th \<and> (\<forall>g. \<not> holds (th_actions th) g) \<and>
    (\<forall>i. session_of (th_control th) = Some i \<longrightarrow> length (b_heap b) \<le> i)"
proof (cases "th_actions th = []")
  case True
  with assms show ?thesis
    by (auto simp: open_connection_def Let_def split: outcome.splits prod.splits packet.splits if_splits)
next
  case False
  then obtain pkt n where dec: "decode_packet data = Ok (Connect pkt, n)"
    using assms(2) by (auto simp: open_connection_def split: outcome.splits prod.splits packet.splits)
  let ?user = "c_username pkt" and ?pass = "map_option from_utf8_lossy (c_password pkt)"
  let ?s = "new_session (b_clock b) (c_client_id pkt) ?user (c_clean_start pkt) (c_keep_alive pkt)
    (case cp_session_expiry_interval (c_properties pkt) of None \<Rightarrow> 0 | Some e \<Rightarrow> e) True"
  let ?i = "length (b_heap b)"
  have auth: "authenticate_client verify (b_auth b) ?user ?pass"
    using False assms(2) dec by (auto simp: open_connection_def Let_def split: if_splits)
  have th: "th = \<lparr>th_actions = [Register ?i, Push ?i (encode_packet (connack_packet 0))],
      th_control = Await ?i (drop n data)\<rparr>" and b': "b' = b\<lparr>b_heap := b_heap b @ [?s]\<rparr>"
    using assms(2) dec auth by (auto simp: open_connection_def Let_def alloc_session_def)
  have "sound verify T b' \<and> grows b b'"
    unfolding b' by (rule sound_alloc [OF assms(1)]) (simp add: new_session_def)
  moreover have "logged_in verify b' ?i" using auth by (auto simp: logged_in_def b' session_at_def new_session_def)
  ultimately show ?thesis
    by (simp add: th thread_ok_def sound_wf small_packets_wf) (simp add: b')
qed

lemma on_event_ok:
  assumes "sound verify T b" and "control_ok verify b c" and "on_event verify ev c b = (th, b')"
  shows "sound verify T b' \<and> grows b b' \<and> thread_ok verify b' th \<and> (\<forall>g. \<not> holds (th_actions th) g) \<and>
    (\<forall>i. session_of (th_control th) = Some i \<longrightarrow> session_of c = Some i \<or> length (b_heap b) \<le> i)"
  using assms
proof (induction verify ev c b rule: on_event.induct)
  case (1 verify data b)
  then show ?case using open_connection_ok by fastforce
qed (auto simp: thread_ok_def ending_def ending_actions_def holds_def)

lemma machine_ok_quiet:
  assumes "machine_ok verify T m" and "sound verify T b" and "grows (m_broker m) b"
  shows "machine_ok verify T (m\<lparr>m_broker := b\<rparr>)"
  using assms by (auto simp: machine_ok_def excluded_def own_sessions_def intro: thread_ok_grows)

lemma idle_moves:
  assumes "machine_ok verify T m" and "k < length (m_threads m)" and "control_ok verify b c" and "session_of c = None"
    and "sound verify T b" and "grows (m_broker m) b"
  shows "machine_ok verify T (set_thread k (idle c) b m)"
  by (rule machine_ok_set_thread [OF assms(1,2,5,6)]) (use assms(3,4) in simp_all)

lemma on_link_ok:
  assumes "link_ok (LinkUp buf out)" and "\<And>topic payload. ev = LocalMessage (topic, payload) \<Longrightarrow> str_ok topic"
  shows "control_ok verify b (on_link ev buf out) \<and> session_of (on_link ev buf out) = None"
proof (cases ev)
  case (LocalMessage msg)
  obtain topic payload where msg: "msg = (topic, payload)" by (cases msg)
  have "sendable (publish_packet topic payload 0 False None None)"
    by (rule sendable_publish) (use assms(2) LocalMessage msg in simp_all)
  with link_ok_more [OF assms(1)] assms(1) LocalMessage msg show ?thesis
    by (auto simp: bridge_forward_def)
next
  case PingDue
  have "sendable PingReq" by (simp add: sendable_def small_packets_wf)
  with link_ok_more [OF assms(1)] PingDue show ?thesis by simp
qed (use assms(1) in \<open>simp_all add: link_ok_def\<close>)

lemma link_opened: "link_ok (LinkUp rest (encode_packet (bridge_connect user pass) @ encode_packet bridge_subscribe))"
proof -
  have "list_all sendable [bridge_subscribe]" by (simp add: sendable_def small_packets_wf)
  then show ?thesis
    unfolding link_ok_def link.case by (intro exI [of _ user] exI [of _ pass] exI [of _ "[bridge_subscribe]"]) simp
qed

lemma thread_at:
  "machine_ok verify T m \<Longrightarrow> k < length (m_threads m) \<Longrightarrow> thread_ok verify (m_broker m) (m_threads m ! k)"
  by (simp add: machine_ok_def)

text \<open>An action of a thread, and a local message that the bridge takes.\<close>

lemma act_ok:
  assumes "machine_ok verify T m" and "can_act m k"
    and "m_threads m ! k = \<lparr>th_actions = a # actions, th_control = control\<rparr>"
    and "perform a (m_broker m) = (followers, b)"
  defines "m' \<equiv> set_thread k \<lparr>th_actions = followers @ actions, th_control = control\<rparr> b m"
  shows "machine_ok verify T m' \<and> grows (m_broker m) (m_broker m')"
proof -
  have s: "sound verify T (m_broker m)" using assms(1) by (simp add: machine_ok_def)
  have k: "k < length (m_threads m)" using assms(2) by (simp add: can_act_def)
  have th: "list_all (action_ok verify (m_broker m)) (a # actions)" "orderly (a # actions)" "control_ok verify (m_broker m) control"
    using thread_at [OF assms(1) k] assms(3) by (simp_all add: thread_ok_def)
  have "action_ok verify (m_broker m) a" using th(1) by simp
  note p = perform_sound [OF s this assms(4)]
  have "thread_ok verify b \<lparr>th_actions = followers @ actions, th_control = control\<rparr>"
    using th p orderly_perform [OF th(2), of "m_broker m"] assms(4)
    by (auto simp: thread_ok_def list.pred_set intro: action_ok_grows control_ok_grows)
  moreover have "\<forall>th' \<in> set (m_threads m). \<forall>g'. holds (th_actions th') g' \<longrightarrow> \<not> conflict g g'" if "holds followers g" for g
    using follower_guards [of a "m_broker m" g] assms(2-4) that by (auto simp: can_act_def)
  ultimately show ?thesis
    using p assms(3) by (auto simp: m'_def intro!: machine_ok_set_thread [OF assms(1) k])
qed

lemma link_takes_ok:
  assumes "machine_ok verify T m" and "k < length (m_threads m)"
    and "m_threads m ! k = \<lparr>th_actions = [], th_control = Bridge_Up buf out\<rparr>"
    and "b_bridge_sender (m_broker m) = Some (msg # queue)"
    and "control = on_link (LocalMessage msg) buf out \<or> bridge_forward msg \<noteq> None \<and> control = Bridge_Down"
  defines "m' \<equiv> set_thread k \<lparr>th_actions = [], th_control = control\<rparr> ((m_broker m)\<lparr>b_bridge_sender := Some queue\<rparr>) m"
  shows "machine_ok verify T m' \<and> grows (m_broker m) (m_broker m')"
proof -
  have s: "sound verify T (m_broker m)" using assms(1) by (simp add: machine_ok_def)
  obtain topic payload where msg: "msg = (topic, payload)" by (cases msg)
  have l: "link_ok (LinkUp buf out)" using thread_at [OF assms(1,2)] assms(3) by simp
  have q: "pred_option (list_all (\<lambda>(topic, payload). str_ok topic)) (Some queue)" "str_ok topic"
    using s assms(4) msg by (auto simp: sound_def wire_ok_def)
  note b = sound_bridge [OF s q(1)]
  have "control_ok verify b control \<and> session_of control = None" for b
    using assms(5) on_link_ok [OF l, of "LocalMessage msg"] q(2) msg by auto
  with b idle_moves [OF assms(1,2)] show ?thesis by (simp add: m'_def)
qed

lemma machine_step_ok:
  assumes "machine_step verify m m'" and "machine_ok verify T m"
  shows "machine_ok verify T m' \<and> grows (m_broker m) (m_broker m')"
proof -
  have s: "sound verify T (m_broker m)" using assms(2) by (simp add: machine_ok_def)
  then have ok: "broker_ok (m_broker m)" "wire_ok (m_broker m)" by (simp_all add: sound_def)
  from assms(1) show ?thesis
  proof cases
    case (act k a actions control followers b)
    with act_ok [OF assms(2) act(2-4)] show ?thesis by simp
  next
    case accept
    have "machine_ok verify T m'"
      using assms(2) unfolding accept machine_ok_def excluded_def own_sessions_def
      by (auto simp: nth_append less_Suc_eq)
    with accept show ?thesis by simp
  next
    case (event k control ev th b)
    have "control_ok verify (m_broker m) control" using thread_at [OF assms(2) event(2)] event(3) by simp
    from on_event_ok [OF s this event(4)] machine_ok_set_thread [OF assms(2) event(2), of b th] event(1,3)
    show ?thesis by auto
  next
    case (packet k control)
    have "control_ok verify (m_broker m) control" using thread_at [OF assms(2) packet(2)] packet(3) by simp
    from next_packet_ok [OF ok(1) this] machine_ok_set_thread [OF assms(2) packet(2) s, of "next_packet control (m_broker m)"]
      packet(1,3)
    show ?thesis by auto
  next
    case (link_up k data rest user pass)
    with idle_moves [OF assms(2) link_up(2) _ _ s] link_opened show ?thesis by simp
  next
    case (link k buf out ev)
    have "link_ok (LinkUp buf out)" using thread_at [OF assms(2) link(2)] link(3) by simp
    from on_link_ok [OF this, of ev verify] link(4)
    have "control_ok verify (m_broker m) (on_link ev buf out) \<and> session_of (on_link ev buf out) = None" by auto
    with link(1) idle_moves [OF assms(2) link(2) _ _ s] show ?thesis by simp
  next
    case (link_takes k buf out msg queue control)
    with link_takes_ok [OF assms(2) link_takes(2-5)] show ?thesis by simp
  next
    case (shutdown k)
    have "thread_ok verify b \<lparr>th_actions = [PushAll disconnect_all], th_control = Main_Task\<rparr>" for b
      by (simp add: thread_ok_def disconnect_all_def sound_wf small_packets_wf)
    with machine_ok_set_thread [OF assms(2) shutdown(2) s, of "\<lparr>th_actions = [PushAll disconnect_all], th_control = Main_Task\<rparr>"]
      shutdown(1) show ?thesis by simp
  next
    case (writer_ends i)
    let ?b = "on_session i (\<lambda>x. x\<lparr>cs_receiver := False\<rparr>) (m_broker m)"
    have "sound verify T ?b \<and> grows (m_broker m) ?b" by (rule sound_on_session [OF s]) simp_all
    with machine_ok_quiet [OF assms(2)] writer_ends show ?thesis by simp
  next
    case (tick d)
    let ?b = "(m_broker m)\<lparr>b_clock := b_clock (m_broker m) + d\<rparr>"
    have "sound verify T ?b \<and> grows (m_broker m) ?b" by (rule sound_fields [OF s]) simp_all
    with machine_ok_quiet [OF assms(2)] tick show ?thesis by simp
  qed
qed

lemma runs_ok:
  assumes "runs_to verify m m'" and "machine_ok verify T m"
  shows "machine_ok verify T m' \<and> grows (m_broker m) (m_broker m')"
  using assms unfolding runs_to_def
proof (induction rule: rtranclp_induct)
  case (step m1 m2)
  with machine_step_ok [OF step(2)] show ?case by (auto intro: grows_trans)
qed simp

lemma first_machine_ok: "sound verify T b \<Longrightarrow> machine_ok verify T (first_machine b)"
  by (auto simp: machine_ok_def first_machine_def excluded_def own_sessions_def less_Suc_eq)

section \<open>Progress\<close>

text \<open>
  A thread that has actions, or a packet loop to go on with, is busy. It moves when its lock is free
  and, for the read lock of the session map, nobody waits to write: \<open>parking_lot\<close> lets no new reader
  pass a waiting writer.
\<close>

fun decoding :: "control \<Rightarrow> bool" where
  "decoding (Decode i read_buf) = True"
| "decoding (Bridge_Decode read_buf out) = True"
| "decoding other = False"

definition busy :: "thread \<Rightarrow> bool" where
  "busy th \<longleftrightarrow> th_actions th \<noteq> [] \<or> decoding (th_control th)"

definition next_guard :: "thread \<Rightarrow> guard option" where
  "next_guard th = (case th_actions th of [] \<Rightarrow> None | a # actions \<Rightarrow> acquires a)"

definition may_move :: "machine \<Rightarrow> nat \<Rightarrow> bool" where
  "may_move m k \<longleftrightarrow> k < length (m_threads m) \<and> busy (m_threads m ! k) \<and>
     (th_actions (m_threads m ! k) \<noteq> [] \<longrightarrow> can_act m k) \<and>
     (next_guard (m_threads m ! k) = Some Sessions_Read \<longrightarrow>
       (\<forall>th \<in> set (m_threads m). next_guard th \<noteq> Some Sessions_Write))"

definition moves :: "machine \<Rightarrow> nat \<Rightarrow> machine" where
  "moves m k =
     (case th_actions (m_threads m ! k) of
        [] \<Rightarrow> set_thread k (next_packet (th_control (m_threads m ! k)) (m_broker m)) (m_broker m) m
      | a # actions \<Rightarrow>
          let (followers, b) = perform a (m_broker m) in
          set_thread k \<lparr>th_actions = followers @ actions, th_control = th_control (m_threads m ! k)\<rparr> b m)"

definition settled :: "machine \<Rightarrow> bool" where
  "settled m \<longleftrightarrow> (\<forall>th \<in> set (m_threads m). \<not> busy th)"

lemma action_moves:
  assumes "can_act m k"
  shows "machine_step verify m (moves m k)"
proof -
  obtain a actions where a: "th_actions (m_threads m ! k) = a # actions"
    using assms by (auto simp: can_act_def split: list.splits)
  obtain control where th: "m_threads m ! k = \<lparr>th_actions = a # actions, th_control = control\<rparr>"
    using a by (cases "m_threads m ! k") simp
  obtain followers b where "perform a (m_broker m) = (followers, b)" by (cases "perform a (m_broker m)")
  with machine_step.act [OF assms th this] show ?thesis by (simp add: moves_def Let_def th)
qed

lemma moves_step: "may_move m k \<Longrightarrow> machine_step verify m (moves m k)"
proof (cases "th_actions (m_threads m ! k)")
  case Nil
  assume "may_move m k"
  then show ?thesis
    using machine_step.packet [of k m "th_control (m_threads m ! k)" verify] Nil
    by (cases "m_threads m ! k") (simp add: may_move_def moves_def)
next
  case (Cons a actions)
  assume "may_move m k"
  with Cons have "can_act m k" by (simp add: may_move_def)
  then show ?thesis by (rule action_moves)
qed

text \<open>Whoever holds the lock of the session map can go on; then whoever holds the counters; then anyone.\<close>

lemma holder_moves:
  assumes "orderly actions" and "holds actions g"
  shows "\<exists>a rest. actions = a # rest \<and> (\<forall>g'. acquires a = Some g' \<longrightarrow> level g < level g')"
proof (cases actions)
  case (Cons a rest)
  show ?thesis
  proof (cases "a = Release g")
    case False
    with assms Cons have "level g < needs a" by simp
    then have "acquires a = Some g' \<longrightarrow> level g < level g'" for g' using acquires_level [of a g'] by auto
    with Cons show ?thesis by blast
  qed (use Cons in simp)
qed (use assms in simp)

lemma level_2: "level g = 2 \<longleftrightarrow> g \<noteq> Counters" "level g = 1 \<longleftrightarrow> g = Counters"
  by (cases g; simp)+

lemma can_act_next:
  "k < length (m_threads m) \<Longrightarrow> th_actions (m_threads m ! k) \<noteq> [] \<Longrightarrow> can_act m k \<longleftrightarrow>
    (\<forall>g th g'. next_guard (m_threads m ! k) = Some g \<longrightarrow> th \<in> set (m_threads m) \<longrightarrow> holds (th_actions th) g' \<longrightarrow> \<not> conflict g g')"
  by (auto simp: can_act_def next_guard_def split: list.splits option.splits)

definition is_held :: "machine \<Rightarrow> guard \<Rightarrow> bool" where
  "is_held m g \<longleftrightarrow> (\<exists>th \<in> set (m_threads m). holds (th_actions th) g)"

lemma someone_holds:
  assumes "machine_ok verify T m" and "is_held m g"
  shows "\<exists>k < length (m_threads m). th_actions (m_threads m ! k) \<noteq> [] \<and>
    (\<forall>g'. next_guard (m_threads m ! k) = Some g' \<longrightarrow> level g < level g')"
proof -
  from assms(2) obtain k where k: "k < length (m_threads m)" "holds (th_actions (m_threads m ! k)) g"
    unfolding is_held_def by (metis in_set_conv_nth)
  have "orderly (th_actions (m_threads m ! k))" using thread_at [OF assms(1) k(1)] by (simp add: thread_ok_def)
  from holder_moves [OF this k(2)] k(1) show ?thesis by (auto simp: next_guard_def)
qed

lemma free_can_act:
  assumes "k < length (m_threads m)" and "th_actions (m_threads m ! k) \<noteq> []"
    and "\<And>g g'. next_guard (m_threads m ! k) = Some g \<Longrightarrow> is_held m g' \<Longrightarrow> level g' \<noteq> level g"
  shows "can_act m k"
  using assms conflict_level by (fastforce simp: can_act_next is_held_def)

lemma level_le_2: "level g \<le> 2"
  by (cases g) auto

lemma someone_moves:
  assumes "machine_ok verify T m" and "\<not> settled m"
  shows "\<exists>k. may_move m k"
proof -
  let ?n = "length (m_threads m)"
  note holder = someone_holds [OF assms(1)]
  consider (session_map) g where "is_held m g" "level g = 2"
    | (writer) k where "\<not> (\<exists>g. is_held m g \<and> level g = 2)" "k < ?n" "next_guard (m_threads m ! k) = Some Sessions_Write"
    | (counters) "\<not> (\<exists>g. is_held m g \<and> level g = 2)" "\<forall>th \<in> set (m_threads m). next_guard th \<noteq> Some Sessions_Write"
        "is_held m Counters"
    | (unheld) "\<not> (\<exists>g. is_held m g \<and> level g = 2)" "\<forall>th \<in> set (m_threads m). next_guard th \<noteq> Some Sessions_Write"
        "\<not> is_held m Counters"
    by (metis in_set_conv_nth)
  then show ?thesis
  proof cases
    case session_map
    from holder [OF session_map(1)] obtain k where k: "k < ?n" "th_actions (m_threads m ! k) \<noteq> []"
      "\<forall>g'. next_guard (m_threads m ! k) = Some g' \<longrightarrow> level g < level g'" by blast
    then have "next_guard (m_threads m ! k) = None"
      using session_map(2) level_le_2 by (metis not_None_eq not_less)
    with free_can_act [OF k(1,2)] k(1,2) show ?thesis by (auto simp: may_move_def busy_def)
  next
    case writer
    then have "th_actions (m_threads m ! k) \<noteq> []" by (auto simp: next_guard_def)
    with free_can_act [OF writer(2)] writer show ?thesis by (auto simp: may_move_def busy_def)
  next
    case counters
    from holder [OF counters(3)] obtain k where k: "k < ?n" "th_actions (m_threads m ! k) \<noteq> []"
      "\<forall>g'. next_guard (m_threads m ! k) = Some g' \<longrightarrow> level Counters < level g'" by blast
    have "can_act m k"
      by (rule free_can_act [OF k(1,2)]) (use k(3) counters(1) level_2 in force)
    with k counters(2) show ?thesis by (auto simp: may_move_def busy_def)
  next
    case unheld
    then have none: "\<not> is_held m g" for g using level_2(1) [of g] by (cases g) auto
    from assms(2) obtain k where k: "k < ?n" "busy (m_threads m ! k)"
      unfolding settled_def by (metis in_set_conv_nth)
    with none free_can_act [OF k(1)] unheld(2) have "may_move m k" by (simp add: may_move_def)
    then show ?thesis ..
  qed
qed

text \<open>
  A move either takes a packet off a buffer, or leaves the buffers alone and makes the work smaller.
\<close>

fun undecoded :: "control \<Rightarrow> nat" where
  "undecoded (Decode i read_buf) = Suc (length read_buf)"
| "undecoded (Bridge_Decode read_buf out) = Suc (length read_buf)"
| "undecoded other = 0"

definition machine_size :: "machine \<Rightarrow> nat \<times> nat multiset" where
  "machine_size m =
     (sum_list (map (\<lambda>th. undecoded (th_control th)) (m_threads m)),
      \<Sum>th \<leftarrow> m_threads m. work (th_actions th))"

definition smaller :: "((nat \<times> nat multiset) \<times> (nat \<times> nat multiset)) set" where
  "smaller = less_than <*lex*> mult less_than"

lemma wf_smaller: "wf smaller"
  by (simp add: smaller_def wf_lex_prod wf_mult)

lemma sum_list_update_split:
  fixes f :: "'a \<Rightarrow> 'b :: comm_monoid_add"
  assumes "k < length xs"
  shows "\<exists>rest. \<forall>x. sum_list (map f (xs[k := x])) = rest + f x"
proof (intro exI allI)
  show "sum_list (map f (xs[k := x])) = (sum_list (map f (take k xs)) + sum_list (map f (drop (Suc k) xs))) + f x" for x
    using assms by (simp add: upd_conv_take_nth_drop ac_simps)
qed

lemma next_packet_undecoded:
  assumes "decoding c"
  shows "undecoded (th_control (next_packet c b)) < undecoded c"
proof (cases c)
  case (Decode i buf)
  show ?thesis
  proof (cases "decode_packet buf")
    case (Ok pn)
    obtain p n where pn: "pn = (p, n)" by (cases pn)
    from packet_sound(2,3) [of buf p n] Ok pn show ?thesis
      by (auto simp: Decode ending_def split: outcome.split)
  next
    case (Err e)
    then show ?thesis by (cases e) (simp_all add: Decode ending_def)
  qed (simp add: Decode)
next
  case (Bridge_Decode buf out)
  show ?thesis
  proof (cases "decode_packet buf")
    case (Ok pn)
    obtain p n where pn: "pn = (p, n)" by (cases pn)
    from packet_sound(2,3) [of buf p n] Ok pn show ?thesis by (auto simp: Bridge_Decode)
  next
    case (Err e)
    then show ?thesis by (cases e) (simp_all add: Bridge_Decode)
  qed (simp add: Bridge_Decode)
qed (use assms in simp_all)

lemma moves_smaller:
  assumes "may_move m k"
  shows "(machine_size (moves m k), machine_size m) \<in> smaller"
proof -
  let ?th = "m_threads m ! k"
  have k: "k < length (m_threads m)" and busy: "busy ?th" using assms by (simp_all add: may_move_def)
  have same: "(m_threads m)[k := ?th] = m_threads m" by simp
  obtain r1 where r1: "\<And>th. sum_list (map (\<lambda>th. undecoded (th_control th)) ((m_threads m)[k := th])) = r1 + undecoded (th_control th)"
    using sum_list_update_split [OF k] by blast
  obtain r2 where r2: "\<And>th. (\<Sum>th \<leftarrow> (m_threads m)[k := th]. work (th_actions th)) = r2 + work (th_actions th)"
    using sum_list_update_split [OF k] by blast
  have size: "machine_size (set_thread k th b m) = (r1 + undecoded (th_control th), r2 + work (th_actions th))" for th b
    by (simp add: machine_size_def r1 r2)
  have old: "machine_size m = (r1 + undecoded (th_control ?th), r2 + work (th_actions ?th))"
    using r1 [of ?th] r2 [of ?th] by (simp add: machine_size_def same)
  show ?thesis
  proof (cases "th_actions ?th")
    case Nil
    with busy have "decoding (th_control ?th)" by (simp add: busy_def)
    from next_packet_undecoded [OF this] Nil show ?thesis
      unfolding old by (simp add: moves_def size smaller_def)
  next
    case (Cons a actions)
    obtain followers b where p: "perform a (m_broker m) = (followers, b)" by (cases "perform a (m_broker m)")
    have "(r2 + work (followers @ actions), r2 + work (a # actions)) \<in> mult less_than"
      using work_perform [of a "m_broker m" actions] p
      by (simp only: add.commute [of r2] fst_conv) (simp add: mult_cancel irrefl_on_def del: work_append)
    then show ?thesis unfolding old using Cons p by (simp add: moves_def size smaller_def)
  qed
qed

text \<open>A scheduler picks the thread that moves next; it has only to pick one that can.\<close>

definition schedule :: "(machine \<Rightarrow> nat) \<Rightarrow> machine \<Rightarrow> machine" where
  "schedule pick m = (if settled m then m else moves m (pick m))"

lemma schedule_settles:
  assumes "machine_ok verify T m" and "\<And>m. \<exists>k. may_move m k \<Longrightarrow> may_move m (pick m)"
  shows "\<exists>n. settled ((schedule pick ^^ n) m) \<and> runs_to verify m ((schedule pick ^^ n) m)"
  using assms(1)
proof (induction "machine_size m" arbitrary: m rule: wf_induct_rule [OF wf_smaller])
  case 1
  show ?case
  proof (cases "settled m")
    case True
    then show ?thesis by (intro exI [of _ 0]) simp
  next
    case False
    have go: "may_move m (pick m)" by (rule assms(2) [OF someone_moves [OF 1(2) False]])
    note step = moves_step [OF go, of verify]
    from 1(1) [OF moves_smaller [OF go]] machine_step_ok [OF step 1(2)]
    obtain n where "settled ((schedule pick ^^ n) (moves m (pick m)))"
      "runs_to verify (moves m (pick m)) ((schedule pick ^^ n) (moves m (pick m)))" by blast
    moreover have "(schedule pick ^^ Suc n) m = (schedule pick ^^ n) (moves m (pick m))"
      using False by (simp only: funpow_Suc_right comp_apply) (simp add: schedule_def)
    ultimately show ?thesis using step by (metis runs_step)
  qed
qed

end
