(* ===== verification/Concurrency_Properties.thy ===== *)
theory Concurrency_Properties imports Concurrency begin

text \<open>
  The properties of the broker under all interleavings of its threads, from the start on a database
  whose subscription identifiers fit the format, as those that the broker stores do.
\<close>

section \<open>The start\<close>

definition database_ok :: "database \<Rightarrow> bool" where
  "database_ok db \<longleftrightarrow> (\<forall>(key, row) \<in> set (db_subscriptions db). pred_option varint_ok (ur_sub_id row))"

lemma start_sound:
  assumes "database_ok db"
  shows "sound verify (table (b_router (start_broker parse credentials oks db env))) (start_broker parse credentials oks db env)"
  using start_facts(1) wire_start [OF assms [unfolded database_ok_def]] by (simp add: sound_def entries_ok_def)

lemmas start_runs_ok = runs_ok [OF _ first_machine_ok [OF start_sound], THEN conjunct1]

lemma empty_database_ok [simp]: "database_ok empty_database"
  by (simp add: database_ok_def empty_database_def)

text \<open>The start without credentials file, with anonymous access, as a machine.\<close>

lemma subscribed_runs:
  "runs_to verify (first_machine (start_broker parse open_credentials oks empty_database (\<lambda>_. None)))
    (machine_of (subscribed_system verify))"
  using reachable_runs [OF subscribed_reachable broker_ok_new] by (simp add: open_start)

section \<open>Properties\<close>

text \<open>
  C11: a thread that nobody interrupts does what the handlers say. Every state that the atomic system
  of connections and bridge reaches, in which each packet is handled in one piece, is a state of the
  machine of interleaved threads, with every thread idle at the corresponding point; so the
  properties of the machine hold of the handlers, and the handlers describe the machine when the
  network gives it one read at a time.
\<close>

theorem machine_simulates_system:
  assumes "reachable verify (start_broker parse credentials oks db env) s"
  shows "runs_to verify (first_machine (start_broker parse credentials oks db env)) (machine_of s)"
  using assms start_facts(1) by (rule reachable_runs)

theorem machine_simulates_system_witness:
  "runs_to (\<lambda>_ _. False) (first_machine (start_broker (\<lambda>_. None) open_credentials all_ok empty_database (\<lambda>_. None)))
     (machine_of (subscribed_system (\<lambda>_ _. False)))"
  by (rule machine_simulates_system) (use subscribed_reachable [of "\<lambda>_ _. False"] in \<open>simp add: open_start\<close>)

text \<open>
  C5: the locks keep the shared state whole. Under every interleaving of the actions of all threads,
  the trie is well formed, each client id of the session map points to an existing session of that
  client, no two connections share a session, and no two threads hold guards that exclude each
  other: the group counters are one thread's, and nobody reads the session map while it is written.
\<close>

theorem machine_invariant:
  assumes "database_ok db" and "runs_to verify (first_machine (start_broker parse credentials oks db env)) m"
  shows "ok_node (b_router (m_broker m)) \<and>
    (\<forall>c i. live (m_broker m) c i \<longrightarrow> i < length (b_heap (m_broker m)) \<and> cs_client_id (session_at (m_broker m) i) = c) \<and>
    (\<forall>k < length (m_threads m). \<forall>k' < length (m_threads m). k \<noteq> k' \<longrightarrow>
      (\<forall>i. session_of (th_control (m_threads m ! k)) = Some i \<longrightarrow> session_of (th_control (m_threads m ! k')) \<noteq> Some i) \<and>
      (\<forall>g g'. holds (th_actions (m_threads m ! k)) g \<and> holds (th_actions (m_threads m ! k')) g' \<longrightarrow> \<not> conflict g g'))"
proof -
  note ok = start_runs_ok [OF assms(2,1)]
  then have b: "broker_ok (m_broker m)" and ex: "excluded m" and own: "own_sessions m"
    by (simp_all add: machine_ok_def sound_def)
  show ?thesis
    using live_ok [OF b] b ex own by (auto simp: broker_ok_def excluded_def own_sessions_def)
qed

theorem machine_invariant_witness:
  "ok_node (b_router (m_broker (machine_of (subscribed_system (\<lambda>_ _. False)))))"
  using machine_invariant [OF empty_database_ok subscribed_runs] by blast

text \<open>
  C6: no subscription escapes the check, whatever the threads do to each other. Under every
  interleaving, each subscription in the router is one that was restored from the database, or
  belongs to the client of a session whose user logged in (with credentials that the authentication
  accepts, or anonymously where that is allowed) and may, by the ACL, read a filter with the path and
  group of the subscription.
\<close>

theorem machine_subscriptions_authorized:
  assumes "database_ok db" and "runs_to verify (first_machine (start_broker parse credentials oks db env)) m"
    and "(path, grp, info) \<in># table (b_router (m_broker m))"
    and "(path, grp, info) \<notin># table (b_router (start_broker parse credentials oks db env))"
  shows "\<exists>session \<in> set (b_heap (m_broker m)). \<exists>password filt.
    cs_client_id session = si_client_id info \<and>
    authenticate_client verify (load_auth parse credentials) (cs_username session) password \<and>
    authorize (load_auth parse credentials) (case cs_username session of None \<Rightarrow> [] | Some u \<Rightarrow> u) filt (lit ''read'') \<and>
    path = filter_path (segments (snd (parse_shared_subscription filt))) \<and>
    grp = fst (parse_shared_subscription filt)"
proof -
  let ?b = "m_broker m"
  have "sound verify (table (b_router (start_broker parse credentials oks db env))) ?b"
    using start_runs_ok [OF assms(2,1)] by (simp add: machine_ok_def)
  then have "entries_ok verify (table (b_router (start_broker parse credentials oks db env))) ?b" by (simp add: sound_def)
  with assms(3,4) obtain i filt where i: "i < length (b_heap ?b)" "logged_in verify ?b i"
    and g: "granted_entry ?b i filt (path, grp, info)"
    unfolding entries_ok_def by blast
  have "grows (start_broker parse credentials oks db env) ?b"
    using runs_ok [OF assms(2) first_machine_ok [OF start_sound [OF assms(1)]]] by (simp add: first_machine_def)
  then have auth: "b_auth ?b = load_auth parse credentials" by (simp add: grows_def start_facts)
  from i(2) obtain password where
    p: "authenticate_client verify (load_auth parse credentials) (cs_username (session_at ?b i)) password"
    by (auto simp: logged_in_def auth)
  have "session_at ?b i \<in> set (b_heap ?b)" using i(1) by (simp add: session_at_def)
  with g p show ?thesis unfolding granted_entry_def session_username_def auth fst_conv snd_conv lit_simps(1) by blast
qed

theorem machine_subscriptions_authorized_witness:
  "\<exists>session \<in> set (b_heap (m_broker (machine_of (subscribed_system (\<lambda>_ _. False))))). \<exists>password.
     cs_client_id session = lit ''a'' \<and>
     authenticate_client (\<lambda>_ _. False) (load_auth (\<lambda>_. None) open_credentials) (cs_username session) password"
proof -
  have "b_router (start_broker (\<lambda>_. None) open_credentials all_ok empty_database (\<lambda>_. None)) = empty_node"
    by (simp add: open_start new_broker_def)
  then have new: "e \<notin># table (b_router (start_broker (\<lambda>_. None) open_credentials all_ok empty_database (\<lambda>_. None)))" for e
    by simp
  have "([lit ''a''], None, \<lparr>si_client_id = lit ''a'', si_qos = 1, si_subscription_identifier = None\<rparr>)
    \<in># table (b_router (m_broker (machine_of (subscribed_system (\<lambda>_ _. False)))))"
    using subscribed_entry by (simp add: machine_of_fields)
  from machine_subscriptions_authorized [OF empty_database_ok subscribed_runs this new] show ?thesis
    unfolding subscription_info.select_convs by blast
qed

lemma handshake_receiver:
  assumes "handshake verify data b = Accepted i b' rest"
  shows "cs_receiver (session_at b' i)"
  using assms
  by (auto simp: handshake_def Let_def alloc_session_def reply_def register_session_def send_buf_def on_session_def
      session_at_def spawn_def new_session_def split: outcome.splits prod.splits packet.splits if_splits)

text \<open>The machine whose first client has connected: the CONNACK is on its channel.\<close>

lemma connected_channel:
  "runs_to verify (first_machine (start_broker parse open_credentials all_ok empty_database (\<lambda>_. None)))
    (machine_of (connected_system verify))"
  "\<exists>b. m_broker (machine_of (connected_system verify)) = b \<and> 0 < length (b_heap b) \<and>
    cs_sent (session_at b 0) = [encode_packet (connack_packet 0)] \<and> cs_receiver (session_at b 0)"
  "length (encode_packet (connack_packet 0)) + 2 ^ 17 \<le> 2 ^ 28"
proof -
  show "runs_to verify (first_machine (start_broker parse open_credentials all_ok empty_database (\<lambda>_. None)))
      (machine_of (connected_system verify))"
    using reachable_runs [OF connected_reachable broker_ok_new] by (simp add: open_start)
  obtain b where h: "handshake verify connect_bytes (new_broker auth_anonymous) = Accepted 0 b []"
    using connect_bytes_accepted(2) by blast
  then have "connected_system verify = \<lparr>sys_broker = b, sys_conns = [Running 0 []], sys_link = LinkDown\<rparr>"
    by (simp add: connected_system_def)
  with handshake_accepts [OF broker_ok_new h] handshake_keeps [OF broker_ok_new h] handshake_receiver [OF h]
  show "\<exists>b. m_broker (machine_of (connected_system verify)) = b \<and> 0 < length (b_heap b) \<and>
      cs_sent (session_at b 0) = [encode_packet (connack_packet 0)] \<and> cs_receiver (session_at b 0)"
    by (auto simp: machine_of_fields)
  show "length (encode_packet (connack_packet 0)) + 2 ^ 17 \<le> 2 ^ 28"
    by (simp add: connack_packet_def connack_properties_default_def connack_properties_body_def encode_connack_def encode_eval)
qed

text \<open>The machine whose first client has subscribed: the CONNACK and the SUBACK are on its channel.\<close>

definition suback_sample :: packet where
  "suback_sample = SubAck \<lparr>sa_packet_id = 1, sa_properties = suback_properties_default, sa_reason_codes = [1]\<rparr>"

lemma subscribed_channel:
  "b_sessions (sys_broker (subscribed_system verify)) = [(lit ''a'', 0)]"
  "length (b_heap (sys_broker (subscribed_system verify))) = 1"
  "cs_sent (session_at (sys_broker (subscribed_system verify)) 0) = [encode_packet (connack_packet 0), encode_packet suback_sample]"
  "cs_receiver (session_at (sys_broker (subscribed_system verify)) 0)"
proof -
  obtain b b' where b: "sys_broker (subscribed_system verify) = b'"
    "handshake verify connect_bytes (new_broker auth_anonymous) = Accepted 0 b []" "length (b_heap b) = 1"
     "b_auth b = auth_anonymous" "cs_client_id (session_at b 0) = lit ''a''"
    "process_client_packet 0 (Packets.Subscribe sample_subscribe) (on_session 0 (update_activity (b_clock b)) b) = Ok b'"
    using subscribed_broker [of verify] by auto
  have s: "b_sessions b = [(lit ''a'', 0)]"
    using b(2) connect_bytes_decode [of "[]"]
    by (auto simp: handshake_def Let_def alloc_session_def reply_def register_session_def sample_connect_def
        new_session_def session_at_def new_broker_def split: if_splits)
  note facts = handshake_accepts [OF broker_ok_new b(2)] handshake_receiver [OF b(2)] s b(3-6)
  show "b_sessions (sys_broker (subscribed_system verify)) = [(lit ''a'', 0)]"
    "length (b_heap (sys_broker (subscribed_system verify))) = 1"
    "cs_sent (session_at (sys_broker (subscribed_system verify)) 0) = [encode_packet (connack_packet 0), encode_packet suback_sample]"
    "cs_receiver (session_at (sys_broker (subscribed_system verify)) 0)"
    using facts unfolding b(1)
    by (auto simp: process_subscribe_def sample_subscribe_def authorize_def auth_anonymous_def broker_subscribe_def reply_def
      Let_def subscribe_properties_default_def session_at_def on_session_def update_activity_def send_buf_def spawn_def suback_sample_def
      simp del: lit_simps)
qed

lemma suback_sample_length: "length (encode_packet suback_sample) + 2 ^ 17 \<le> 2 ^ 28"
  by (simp add: suback_sample_def suback_properties_default_def suback_properties_body_def encode_suback_def encode_eval)

text \<open>
  C9: what the broker writes is MQTT under every interleaving. Every buffer on the channel of every
  client (up to the length at which a payload leaves no room for its header) is one packet that the
  decoder reads back, whatever follows it, although the writers of several threads share a channel;
  and behind its CONNECT the bridge has written a sequence of such packets to the remote broker.
\<close>

theorem machine_wire_is_mqtt:
  assumes "database_ok db" and "runs_to verify (first_machine (start_broker parse credentials oks db env)) m"
  shows "(\<forall>session \<in> set (b_heap (m_broker m)). \<forall>buf \<in> set (cs_sent session).
      length buf + 2 ^ 17 \<le> 2 ^ 28 \<longrightarrow> (\<exists>p. \<forall>rest. decode_packet (buf @ rest) = Ok (p, length buf))) \<and>
    (\<forall>th \<in> set (m_threads m). \<forall>buf out. th_control th = Bridge_Up buf out \<longrightarrow> (\<exists>user pass ps. list_all sendable ps \<and>
      out = encode_packet (bridge_connect user pass) @ concat (map encode_packet ps)))"
proof -
  note ok = start_runs_ok [OF assms(2,1)]
  then have w: "wire_ok (m_broker m)" by (simp add: machine_ok_def sound_def)
  have "\<exists>p. \<forall>rest. decode_packet (buf @ rest) = Ok (p, length buf)"
    if "session \<in> set (b_heap (m_broker m))" "buf \<in> set (cs_sent session)" "length buf + 2 ^ 17 \<le> 2 ^ 28"
    for session buf
  proof -
    have "sound_buffer buf" using w that(1,2) by (simp add: wire_ok_def)
    from sound_decodes [OF this that(3)] obtain p where p: "wf_packet p" "buf = encode_packet p" by blast
    show ?thesis unfolding p(2) using packet_roundtrip [OF p(1)] by blast
  qed
  moreover have "link_ok (LinkUp buf out)" if "th \<in> set (m_threads m)" "th_control th = Bridge_Up buf out" for th buf out
    using ok that by (fastforce simp: machine_ok_def thread_ok_def)
  ultimately show ?thesis by (auto simp: link_ok_def)
qed

theorem machine_wire_is_mqtt_witness:
  "\<exists>buf p. buf \<in> set (cs_sent (session_at (m_broker (machine_of (connected_system (\<lambda>_ _. False)))) 0)) \<and>
     decode_packet buf = Ok (p, length buf)"
proof -
  let ?b = "m_broker (machine_of (connected_system (\<lambda>_ _. False)))" and ?buf = "encode_packet (connack_packet 0)"
  have sent: "0 < length (b_heap ?b)" "cs_sent (session_at ?b 0) = [?buf]" using connected_channel(2) by auto
  then have "session_at ?b 0 \<in> set (b_heap ?b)" "?buf \<in> set (cs_sent (session_at ?b 0))" by (simp_all add: session_at_def)
  with machine_wire_is_mqtt [OF empty_database_ok connected_channel(1) [of _ "\<lambda>_. None"]] connected_channel(3) obtain p where
    "\<forall>rest. decode_packet (?buf @ rest) = Ok (p, length ?buf)" by blast
  from spec [OF this, of "[]"] sent(2) show ?thesis by auto
qed

text \<open>
  C10: the threads never wait for each other for ever, and every packet received is handled to its
  end. From every state of every interleaving, any scheduler that picks, as long as some thread can
  move, one that can (its lock is free, and no reader passes a waiting writer) brings the machine to
  a state in which no thread has an action, a lock or a whole packet left: the locks are taken in an
  order (group counters before session map, never the same twice), and each action is followed only
  by actions of a lower rank.
\<close>

theorem schedules_settle:
  assumes "database_ok db" and "runs_to verify (first_machine (start_broker parse credentials oks db env)) m"
    and "\<And>m. \<exists>k. may_move m k \<Longrightarrow> may_move m (pick m)"
  shows "\<exists>n. settled ((schedule pick ^^ n) m) \<and> runs_to verify m ((schedule pick ^^ n) m)"
  using start_runs_ok [OF assms(2,1)] assms(3) by (rule schedule_settles)

text \<open>The scheduler that picks the first thread that can move.\<close>

definition first_mover :: "machine \<Rightarrow> nat" where
  "first_mover m = (case filter (may_move m) [0..<length (m_threads m)] of [] \<Rightarrow> 0 | k # ks \<Rightarrow> k)"

lemma first_mover: "\<exists>k. may_move m k \<Longrightarrow> may_move m (first_mover m)"
proof -
  assume "\<exists>k. may_move m k"
  then obtain k where "may_move m k" by blast
  then obtain j ks where "filter (may_move m) [0..<length (m_threads m)] = j # ks"
    by (cases "filter (may_move m) [0..<length (m_threads m)]") (auto simp: filter_empty_conv may_move_def)
  moreover from this have "may_move m j" by (metis filter_eq_ConsD)
  ultimately show ?thesis by (simp add: first_mover_def)
qed

text \<open>The subscribed client has just sent another SUBSCRIBE.\<close>

definition reading_machine :: "(rstr \<Rightarrow> rstr \<Rightarrow> bool) \<Rightarrow> machine" where
  "reading_machine verify =
     set_thread 2 \<lparr>th_actions = [Touch 0], th_control = Decode 0 subscribe_bytes\<rparr>
       (sys_broker (subscribed_system verify)) (machine_of (subscribed_system verify))"

lemma reading_runs:
  "runs_to verify (first_machine (start_broker parse open_credentials oks empty_database (\<lambda>_. None))) (reading_machine verify)"
proof -
  let ?m = "machine_of (subscribed_system verify)"
  have "machine_step verify ?m (reading_machine verify)"
    unfolding reading_machine_def machine_of_fields(1) [symmetric]
    by (rule machine_step.event [where control = "Await 0 []" and ev = "Received subscribe_bytes"])
      (simp_all add: machine_of_def subscribed_facts(2))
  then show ?thesis by (rule runs_trans [OF subscribed_runs runs_step]) simp
qed

theorem schedules_settle_witness:
  "\<not> settled (reading_machine (\<lambda>_ _. False)) \<and> (\<exists>n. settled ((schedule first_mover ^^ n) (reading_machine (\<lambda>_ _. False))))"
proof -
  have "settled m \<Longrightarrow> False" if "m = reading_machine (\<lambda>_ _. False)" for m
    using subscribed_facts(2) [of "\<lambda>_ _. False"] that by (auto simp: settled_def reading_machine_def machine_of_def busy_def)
  moreover from schedules_settle [OF empty_database_ok reading_runs first_mover]
  have "\<exists>n. settled ((schedule first_mover ^^ n) (reading_machine (\<lambda>_ _. False)))" by blast
  ultimately show ?thesis by blast
qed

section \<open>A race\<close>

lemma deliver_first:
  assumes "cs_receiver s" and "sids \<noteq> []"
  shows "\<exists>sent. cs_sent (fold (deliver now topic payload qos retain) sids s) = cs_sent s @ sent \<and> sent \<noteq> [] \<and>
    (\<forall>buf \<in> set sent. \<exists>x. buf = encode_packet (Publish x))"
proof -
  let ?sent = "map (publish_bytes topic payload qos retain) (zip sids (delivery_ids qos (length sids) s))"
  have "length ?sent = length sids" by simp
  with assms(2) have "?sent \<noteq> []" by (metis length_0_conv)
  moreover have "\<forall>buf \<in> set ?sent. \<exists>x. buf = encode_packet (Publish x)"
    by (auto simp: publish_bytes_def publish_packet_def)
  ultimately show ?thesis using fold_deliver_sent [OF assms(1)] by blast
qed

lemma fold_deliver_receiver: "cs_receiver (fold (deliver now topic payload qos retain) sids s) = cs_receiver s"
  by (induction sids arbitrary: s) simp_all

lemma acknowledge_other: "i \<noteq> j \<Longrightarrow> session_at (acknowledge i pkt rc b) j = session_at b j"
  by (simp add: acknowledge_def reply_def on_session_def session_at_def split: option.split)

text \<open>A thread reads one packet and handles it, while others wait between two actions.\<close>

lemma packet_runs:
  assumes "unlocked m" and "k < length (m_threads m)" and "m_threads m ! k = idle (Await i [])"
    and "broker_ok (m_broker m)" and "wf_packet p"
    and "process_client_packet i p (on_session i (update_activity (b_clock (m_broker m))) (m_broker m)) = Ok b"
  shows "runs_to verify m (set_thread k (idle (Await i [])) b m)"
proof -
  let ?b = "m_broker m"
  let ?b1 = "on_session i (update_activity (b_clock ?b)) ?b"
  have ok: "broker_ok ?b1" by (rule broker_ok_on_session [OF assms(4)]) (simp add: update_activity_def)
  have r1: "machine_step verify m (set_thread k \<lparr>th_actions = [Touch i], th_control = Decode i (encode_packet p)\<rparr> ?b m)"
    by (rule machine_step.event [OF assms(2,3), where ev = "Received (encode_packet p)"]) simp
  from run_alone [OF assms(1,2), of "[Touch i]" verify "Decode i (encode_packet p)" ?b]
  have r2: "runs_to verify (set_thread k \<lparr>th_actions = [Touch i], th_control = Decode i (encode_packet p)\<rparr> ?b m)
      (set_thread k (idle (Decode i (encode_packet p))) ?b1 m)" by simp
  have "drain i ?b1 (encode_packet p) = Waiting b []"
    using drain_packet [OF assms(5), of i ?b1 "[]"] assms(6) by simp
  with drain_runs [OF assms(1,2) ok, of verify i "encode_packet p"]
  have "runs_to verify (set_thread k (idle (Decode i (encode_packet p))) ?b1 m) (set_thread k (idle (Await i [])) b m)"
    by simp
  then show ?thesis by (rule runs_step [OF r1 runs_trans [OF r2]])
qed

lemma overtaken_runs:
  assumes "unlocked m" and "open_connection verify data (m_broker m) =
      (\<lparr>th_actions = [Register j, Push j (encode_packet (connack_packet 0))], th_control = Await j rest\<rparr>, b)"
    and "k < length (m_threads m)" and "m_threads m ! k = idle (Await i [])" and "wf_packet (Publish pkt)"
    and "broker_ok (register_session j b)"
  defines "b3 \<equiv> on_session i (update_activity (b_clock (register_session j b))) (register_session j b)"
  shows "\<exists>m'. runs_to verify m m' \<and>
    m_broker m' = on_session j (send_buf (encode_packet (connack_packet 0))) (process_publish i pkt b3)"
proof -
  let ?n = "length (m_threads m)" and ?ca = "Push j (encode_packet (connack_packet 0))"
  let ?m1 = "m\<lparr>m_threads := m_threads m @ [idle Opening]\<rparr>"
  have n1: "?n < length (m_threads ?m1)" and u1: "unlocked ?m1" using assms(1) by (auto simp: unlocked_def)
  let ?m2 = "set_thread ?n \<lparr>th_actions = [?ca], th_control = Await j rest\<rparr> (register_session j b) ?m1"
  have s2: "machine_step verify ?m1 (set_thread ?n \<lparr>th_actions = [Register j] @ [?ca], th_control = Await j rest\<rparr> b ?m1)"
    by (rule machine_step.event [OF n1, where control = Opening and ev = "Received data"]) (use assms(2) in simp_all)
  from run_front [OF u1 n1, of "[Register j]" "[?ca]" verify "Await j rest" b] run_register [of j b]
  have "runs_to verify (set_thread ?n \<lparr>th_actions = [Register j] @ [?ca], th_control = Await j rest\<rparr> b ?m1) ?m2"
    by simp
  then have r1: "runs_to verify m ?m2" by (rule runs_step [OF machine_step.accept runs_step [OF s2]])
  let ?m3 = "set_thread k (idle (Await i [])) (process_publish i pkt b3) ?m2"
  have "k \<noteq> ?n" using assms(3) by simp
  then have r2: "runs_to verify ?m2 ?m3"
    unfolding b3_def by (intro packet_runs [where p = "Publish pkt"])
      (use u1 assms(3-6) in \<open>auto simp: unlocked_def nth_append dest!: subsetD [OF set_update_subset_insert]\<close>)
  have u3: "unlocked ?m3"
    using u1 by (auto simp: unlocked_def dest!: subsetD [OF set_update_subset_insert])
  have "?m3 = set_thread ?n \<lparr>th_actions = [?ca], th_control = Await j rest\<rparr> (process_publish i pkt b3) ?m3"
    using assms(3) by (simp add: set_thread_def list_update_append)
  with run_alone [OF u3, of ?n "[?ca]" verify "Await j rest" "process_publish i pkt b3"]
  have "runs_to verify ?m3 (set_thread ?n (idle (Await j rest))
      (on_session j (send_buf (encode_packet (connack_packet 0))) (process_publish i pkt b3)) ?m3)" by simp
  from runs_trans [OF r1 runs_trans [OF r2 this]] show ?thesis by (metis set_thread_simps(1))
qed

text \<open>
  C37: a PUBLISH can get ahead of the CONNACK. A connection enters the session map before its CONNACK
  is on its channel. When a client that still has a subscription connects (again), and another
  connection may publish to the topic, there is an interleaving in which the first thing the client
  is sent on its new connection is not the CONNACK but the publication.
\<close>

theorem publish_before_connack:
  assumes "broker_ok (m_broker m)" and "unlocked m"
    and "open_connection verify data (m_broker m) =
      (\<lparr>th_actions = [Register j, Push j (encode_packet (connack_packet 0))], th_control = Await j rest\<rparr>, b)"
    and "k < length (m_threads m)" and "m_threads m ! k = idle (Await i [])" and "i < length (b_heap (m_broker m))"
    and "wf_packet (Publish pkt)"
    and "authorize (b_auth (m_broker m)) (session_username (m_broker m) i) (p_topic pkt) (lit ''write'')"
    and "sids_for (cs_client_id (session_at b j)) (route_targets (m_broker m) (p_topic pkt)) \<noteq> []"
  shows "\<exists>m' sent. runs_to verify m m' \<and> sent \<noteq> [] \<and> (\<forall>buf \<in> set sent. \<exists>x. buf = encode_packet (Publish x)) \<and>
    cs_sent (session_at (m_broker m') j) = sent @ [encode_packet (connack_packet 0)]"
proof -
  obtain s where b: "b = (m_broker m)\<lparr>b_heap := b_heap (m_broker m) @ [s]\<rparr>" "j = length (b_heap (m_broker m))"
    and s: "cs_sent s = []" "cs_receiver s"
    using assms(3) by (auto simp: open_connection_def alloc_session_def new_session_def Let_def
        split: outcome.splits prod.splits packet.splits if_splits)
  have okb: "broker_ok b" "j < length (b_heap b)" "session_at b j = s"
    using assms(1) by (auto simp: b broker_ok_def session_at_def nth_append)
  let ?b2 = "register_session j b"
  note reg = broker_ok_register [OF okb(1,2)]
  let ?b3 = "on_session i (update_activity (b_clock ?b2)) ?b2"
  let ?b4 = "process_publish i pkt ?b3"
  have ij: "i \<noteq> j" using assms(6) b(2) by auto
  have ok3: "broker_ok ?b3" by (rule broker_ok_on_session [OF reg(1)]) (simp add: update_activity_def)
  have old_i: "i < length (b_heap b)" "session_at b i = session_at (m_broker m) i"
    using assms(6) by (simp_all add: b session_at_def nth_append)
  have at3: "session_at ?b3 j = s" "session_at ?b3 i = update_activity (b_clock ?b2) (session_at (m_broker m) i)"
    using ij okb(2,3) old_i by (simp_all add: session_at_on_session reg(3,4))
  have same3: "b_auth ?b3 = b_auth (m_broker m)" "route_targets ?b3 (p_topic pkt) = route_targets (m_broker m) (p_topic pkt)"
    using reg(5) b(1) by (simp_all add: route_targets_def Let_def register_session_def spawn_def)
  have "session_username ?b3 i = session_username (m_broker m) i"
    using at3(2) by (simp add: session_username_def update_activity_def)
  with same3(1) assms(8) have "?b4 = acknowledge i pkt 0 (route_publish (cs_client_id (session_at ?b3 i)) (p_topic pkt)
      (p_payload pkt) (p_qos pkt) (p_retain pkt) ?b3)"
    by (simp add: process_publish_def)
  moreover have "live ?b3 (cs_client_id s) j" using reg(2) okb(3) by (simp add: live_def)
  ultimately have at4: "session_at ?b4 j = fold (deliver (b_clock ?b3) (p_topic pkt) (p_payload pkt) (p_qos pkt) (p_retain pkt))
      (sids_for (cs_client_id s) (route_targets (m_broker m) (p_topic pkt))) s"
    using acknowledge_other [OF ij] route_publish_spec(7) [OF ok3] same3(2) at3(1) by metis
  with deliver_first [OF s(2)] assms(9) okb(3) s(1) obtain sent where sent: "cs_sent (session_at ?b4 j) = sent" "sent \<noteq> []"
    "\<forall>buf \<in> set sent. \<exists>x. buf = encode_packet (Publish x)" by (metis append_Nil)
  have "cs_receiver (session_at ?b4 j)" using at4 fold_deliver_receiver s(2) by metis
  moreover have "j < length (b_heap ?b4)"
    using process_keeps [OF ok3, of i "Publish pkt" ?b4] okb(2) reg(3) by (simp add: same_sessions_def)
  ultimately have "cs_sent (session_at (on_session j (send_buf (encode_packet (connack_packet 0))) ?b4) j) =
      sent @ [encode_packet (connack_packet 0)]"
    using sent(1) by (simp add: session_at_on_session send_buf_def)
  with overtaken_runs [OF assms(2-5,7) reg(1)] sent(2,3) show ?thesis by metis
qed

lemma subscribed_ok: "broker_ok (sys_broker (subscribed_system verify))" "0 < length (b_heap (sys_broker (subscribed_system verify)))"
  "b_auth (sys_broker (subscribed_system verify)) = auth_anonymous"
proof -
  have ok: "sys_ok (subscribed_system verify)" by (rule reachable_ok [OF subscribed_reachable broker_ok_new])
  then show "broker_ok (sys_broker (subscribed_system verify))" by (simp add: sys_ok_def)
  have "running (subscribed_system verify) 0 0" by (simp add: running_def subscribed_facts(2))
  with ok show "0 < length (b_heap (sys_broker (subscribed_system verify)))" unfolding sys_ok_def by blast
  show "b_auth (sys_broker (subscribed_system verify)) = auth_anonymous"
    using reachable_acl [OF subscribed_reachable broker_ok_new] by (simp add: acl_ok_def new_broker_def)
qed

lemma subscribed_targets:
  "sids_for (lit ''a'') (route_targets (sys_broker (subscribed_system verify)) (lit ''a'')) = [None]"
  by (simp add: route_targets_def Let_def target_of_def subscribed_facts(1) Router.subscribe_def
      parse_shared_subscription_def starts_with_def segments_eval add_subscription_def empty_node_def or_empty_def
      match_topic_def visit_def collect_node_subscriptions_def route_result_default_def)

theorem publish_before_connack_witness:
  "\<exists>m' sent. runs_to (\<lambda>_ _. False) (machine_of (subscribed_system (\<lambda>_ _. False))) m' \<and> sent \<noteq> [] \<and>
     (\<forall>buf \<in> set sent. \<exists>x. buf = encode_packet (Publish x)) \<and>
     cs_sent (session_at (m_broker m') (length (b_heap (sys_broker (subscribed_system (\<lambda>_ _. False)))))) =
       sent @ [encode_packet (connack_packet 0)]"
proof -
  let ?s = "subscribed_system (\<lambda>_ _. False)"
  let ?b = "sys_broker ?s" and ?j = "length (b_heap (sys_broker ?s))"
  let ?new = "new_session (b_clock ?b) (lit ''a'') None False 60 0 True"
  let ?pkt = "\<lparr>p_dup = False, p_qos = 0, p_retain = False, p_topic = lit ''a'', p_packet_id = None,
    p_properties = publish_properties_default, p_payload = [1]\<rparr>"
  have wf: "wf_packet (Publish ?pkt)"
    using publish_packet_wf [of "lit ''a''" 0 None None "[1]" False]
    by (simp add: publish_packet_def str_ok_def utf8_valid_ascii publish_properties_default_def)
  obtain clean where conn: "open_connection (\<lambda>_ _. False) connect_bytes ?b =
      (\<lparr>th_actions = [Register ?j, Push ?j (encode_packet (connack_packet 0))], th_control = Await ?j []\<rparr>,
       ?b\<lparr>b_heap := b_heap ?b @ [new_session (b_clock ?b) (lit ''a'') None clean 60 0 True]\<rparr>)"
    using connect_bytes_decode [of "[]"] subscribed_ok(3) [of "\<lambda>_ _. False"]
    by (simp add: open_connection_def Let_def alloc_session_def sample_connect_def authenticate_client_def
        authenticate_def auth_anonymous_def connect_properties_default_def connect_bytes_def del: lit_simps)
  have "cs_client_id (session_at (?b\<lparr>b_heap := b_heap ?b @ [new_session now (lit ''a'') None clean 60 0 True]\<rparr>) ?j) = lit ''a''" for now
    by (simp add: session_at_def new_session_def)
  note id = this
  have fields: "m_broker (machine_of ?s) = ?b" "2 < length (m_threads (machine_of ?s))"
    "m_threads (machine_of ?s) ! 2 = idle (Await 0 [])"
    by (simp_all add: machine_of_def subscribed_facts(2))
  have "authorize (b_auth ?b) (session_username ?b 0) (p_topic ?pkt) (lit ''write'')"
    using subscribed_ok(3) by (simp add: authorize_def auth_anonymous_def)
  from publish_before_connack [OF _ unlocked_of _ fields(2,3) _ wf, unfolded fields(1), OF subscribed_ok(1) conn subscribed_ok(2) this]
    id subscribed_targets [of "\<lambda>_ _. False"]
  show ?thesis by (simp del: lit_simps)
qed

end
