(* ===== verification/Interleaved_Delivery.thy ===== *)
theory Interleaved_Delivery imports Concurrency_Properties "HOL-Library.Sublist" begin

text \<open>
  A publication in the middle of everything else: whatever the other threads do between two actions
  of the thread that routes it, each recipient of the table gets it at most once, on a session of its
  client, and exactly once when nobody touches the client's entry in the session map meanwhile. The
  other threads are an arbitrary environment, and the thread's promise is followed from action to
  action.
\<close>

section \<open>Channels only grow\<close>

text \<open>What was sent on a channel stays, and a channel whose receiver is gone stays closed.\<close>

definition sent_on :: "broker \<Rightarrow> nat \<Rightarrow> bytes list" where
  "sent_on b i = (if i < length (b_heap b) then cs_sent (session_at b i) else [])"

definition open_on :: "broker \<Rightarrow> nat \<Rightarrow> bool" where
  "open_on b i \<longleftrightarrow> i < length (b_heap b) \<and> cs_receiver (session_at b i)"

definition extends :: "broker \<Rightarrow> broker \<Rightarrow> bool" where
  "extends b b' \<longleftrightarrow> (\<forall>i. prefix (sent_on b i) (sent_on b' i) \<and>
     (i < length (b_heap b) \<longrightarrow> i < length (b_heap b') \<and> (open_on b' i \<longrightarrow> open_on b i)))"

lemma extends_prefix: "extends b b' \<Longrightarrow> prefix (sent_on b i) (sent_on b' i)"
  by (simp add: extends_def)

lemma extends_refl [simp]: "extends b b"
  by (simp add: extends_def)

lemma extends_trans: "extends a b \<Longrightarrow> extends b c \<Longrightarrow> extends a c"
  by (meson extends_def prefix_order.trans)

lemma extends_fields: "b_heap b' = b_heap b \<Longrightarrow> extends b b'"
  by (simp add: extends_def sent_on_def open_on_def session_at_def)

lemma extends_on_session:
  assumes "\<And>s. prefix (cs_sent s) (cs_sent (f s))" and "\<And>s. cs_receiver (f s) \<Longrightarrow> cs_receiver s"
  shows "extends b (on_session j f b)"
  unfolding extends_def
proof (intro allI conjI impI)
  fix i
  show "prefix (sent_on b i) (sent_on (on_session j f b) i)"
    using assms(1) by (cases "j = i") (simp_all add: sent_on_def on_session_def session_at_def)
  assume "i < length (b_heap b)"
  then show "i < length (b_heap (on_session j f b))" by (simp add: on_session_def)
  show "open_on b i" if "open_on (on_session j f b) i"
    using that assms(2) by (cases "j = i") (auto simp: open_on_def on_session_def session_at_def)
qed

lemma extends_alloc: "extends b (snd (alloc_session s b))"
  by (simp add: extends_def sent_on_def open_on_def alloc_session_def session_at_def nth_append)

lemma perform_extends: "extends b (snd (perform a b))"
  by (cases a) (auto simp: bump_id_def next_index_def spawn_def Let_def add_in_flight_def remove_in_flight_def
      update_activity_def send_buf_def intro!: extends_on_session intro: extends_fields split: option.splits if_splits)

lemma open_extends:
  assumes "open_connection verify buf b = (th, b')"
  shows "extends b b'"
  using assms extends_alloc
  by (auto simp: open_connection_def alloc_session_def Let_def split: outcome.splits packet.splits prod.splits if_splits)

lemma step_extends:
  assumes "machine_step verify m m'"
  shows "extends (m_broker m) (m_broker m')"
  using assms
proof cases
  case (act k a actions control followers b)
  with perform_extends [of "m_broker m" a] show ?thesis by (simp add: set_thread_def)
next
  case (event k control ev th b)
  then show ?thesis
    by (cases "(verify, ev, control, m_broker m)" rule: on_event.cases) (auto simp: set_thread_def open_extends)
next
  case (writer_ends j)
  then show ?thesis by (auto intro: extends_on_session)
qed (auto simp: set_thread_def extends_fields)

section \<open>What a thread pushes\<close>

text \<open>
  The buffers that thread \<open>k\<close> puts on channels on the way from \<open>m\<close> to \<open>m'\<close>, with their sessions; the
  other threads do what they like, but for the entries of the clients \<open>kept\<close> in the session map.
\<close>

fun pushed :: "action \<Rightarrow> (nat \<times> bytes) list" where
  "pushed (Push i buf) = [(i, buf)]"
| "pushed other = []"

inductive pushes ::
  "(rstr \<Rightarrow> rstr \<Rightarrow> bool) \<Rightarrow> rstr set \<Rightarrow> nat \<Rightarrow> machine \<Rightarrow> (nat \<times> bytes) list \<Rightarrow> machine \<Rightarrow> bool"
  for verify kept k m where
  start: "pushes verify kept k m [] m"
| own: "pushes verify kept k m log m1 \<Longrightarrow> can_act m1 k \<Longrightarrow>
    pushes verify kept k m (log @ pushed (hd (th_actions (m_threads m1 ! k)))) (moves m1 k)"
| others: "pushes verify kept k m log m1 \<Longrightarrow> machine_step verify m1 m2 \<Longrightarrow> m_threads m2 ! k = m_threads m1 ! k \<Longrightarrow>
    (\<forall>c \<in> kept. map_of (b_sessions (m_broker m2)) c = map_of (b_sessions (m_broker m1)) c) \<Longrightarrow>
    pushes verify kept k m log m2"

text \<open>
  What the session map answers about a client between \<open>b\<close> and \<open>b'\<close>: no session or one of that client,
  and what it said at \<open>b\<close> when the entry is kept.
\<close>

definition lookups :: "rstr set \<Rightarrow> broker \<Rightarrow> broker \<Rightarrow> rstr \<Rightarrow> nat option set" where
  "lookups kept b b' c = {found. (c \<in> kept \<longrightarrow> found = map_of (b_sessions b) c) \<and>
     pred_option (\<lambda>i. i < length (b_heap b') \<and> cs_client_id (session_at b' i) = c) found}"

lemma lookup_found:
  assumes "broker_ok b1" and "grows b1 b'" and "\<forall>c \<in> kept. map_of (b_sessions b1) c = map_of (b_sessions b) c"
  shows "map_of (b_sessions b1) c \<in> lookups kept b b' c"
  using assms live_ok [OF assms(1), of c] by (auto simp: lookups_def live_def grows_def option.pred_set)

text \<open>
  What a list of actions will push, when the look-ups of sessions answer with an element of \<open>found\<close>: a
  message to the session of its recipient, if there is one, with some packet identifier at QoS above
  0 and none at QoS 0; a message to a shared group goes to one of its members.
\<close>

definition message_bytes :: "message \<Rightarrow> subscription_info \<Rightarrow> u16 option \<Rightarrow> bytes" where
  "message_bytes msg sub pid =
     publish_bytes (msg_topic msg) (msg_payload msg) (msg_qos msg) (msg_retain msg) (si_subscription_identifier sub, pid)"

definition delivered :: "(rstr \<Rightarrow> nat option set) \<Rightarrow> message \<Rightarrow> subscription_info \<Rightarrow> (nat \<times> bytes) list \<Rightarrow> bool" where
  "delivered found msg sub log \<longleftrightarrow>
     (None \<in> found (si_client_id sub) \<and> log = []) \<or>
     (\<exists>i pid. Some i \<in> found (si_client_id sub) \<and> (pid = None \<longleftrightarrow> msg_qos msg = 0) \<and> log = [(i, message_bytes msg sub pid)])"

fun owes :: "(rstr \<Rightarrow> nat option set) \<Rightarrow> action \<Rightarrow> (nat \<times> bytes) list \<Rightarrow> bool" where
  "owes found (Deliver msg sub) log = delivered found msg sub log"
| "owes found (PickShared msg grp subs) log =
     (if subs = [] then log = [] else \<exists>sub \<in> set subs. delivered found msg sub log)"
| "owes found (TakeId i msg sub) log = (\<exists>pid. log = [(i, message_bytes msg sub (Some pid))])"
| "owes found (RetakeId i msg sub) log = (\<exists>pid. log = [(i, message_bytes msg sub (Some pid))])"
| "owes found (Push i buf) log = (log = [(i, buf)])"
| "owes found (MatchTopic msg) log = False"
| "owes found (PushAll buf) log = False"
| "owes found (Register i) log = False"
| "owes found (Remove client_id) log = False"
| "owes found other log = (log = [])"

fun owe :: "(rstr \<Rightarrow> nat option set) \<Rightarrow> action list \<Rightarrow> (nat \<times> bytes) list \<Rightarrow> bool" where
  "owe found [] log = (log = [])"
| "owe found (a # actions) log = (\<exists>l1 l2. log = l1 @ l2 \<and> owes found a l1 \<and> owe found actions l2)"

lemma owe_append: "owe found (xs @ ys) log \<longleftrightarrow> (\<exists>l1 l2. log = l1 @ l2 \<and> owe found xs l1 \<and> owe found ys l2)"
proof (induction xs arbitrary: log)
  case (Cons a xs)
  then show ?case by (simp, metis append.assoc)
qed simp

lemma owe_with_id: "owe found (with_id i msg sub pid) log \<longleftrightarrow> log = [(i, message_bytes msg sub (Some pid))]"
  by (auto simp: with_id_def message_bytes_def publish_bytes_def)

text \<open>An action keeps what its thread owes, and it does not touch the session map.\<close>

definition plain :: "action \<Rightarrow> bool" where
  "plain a \<longleftrightarrow> (\<forall>msg. a \<noteq> MatchTopic msg) \<and> (\<forall>buf. a \<noteq> PushAll buf) \<and> (\<forall>i. a \<noteq> Register i) \<and> (\<forall>c. a \<noteq> Remove c)"

lemma perform_owes:
  assumes "owe found (fst (perform a b)) log" and "plain a" and "\<And>c. map_of (b_sessions b) c \<in> found c"
  shows "\<exists>l1. owes found a l1 \<and> l1 = pushed a @ log"
proof (cases a)
  case (PickShared msg grp subs)
  show ?thesis
  proof (cases "subs = []")
    case True
    with assms PickShared show ?thesis by simp
  next
    case False
    then have "subs ! (n mod length subs) \<in> set subs" for n by simp
    with False assms PickShared show ?thesis by (auto simp: next_index_def Let_def)
  qed
next
  case (Deliver msg sub)
  have "msg_qos msg = 0 \<longleftrightarrow> \<not> 0 < msg_qos msg" by (simp add: word_gt_0)
  with assms(1) assms(3) [of "si_client_id sub"] Deliver show ?thesis
    by (auto simp: delivered_def message_bytes_def publish_bytes_def split: option.splits if_splits)
next
  case (TakeId i msg sub)
  with assms show ?thesis by (auto simp: bump_id_def owe_with_id Let_def split: if_splits)
next
  case (RetakeId i msg sub)
  with assms show ?thesis by (auto simp: bump_id_def owe_with_id Let_def)
qed (use assms in \<open>auto simp: plain_def\<close>)

lemma plain_perform:
  assumes "plain a"
  shows "b_sessions (snd (perform a b)) = b_sessions b \<and> list_all plain (fst (perform a b))"
  using assms
  by (cases a) (auto simp: plain_def bump_id_def with_id_def next_index_def Let_def list.pred_set split: option.splits)

lemma owe_perform:
  assumes "owe found (fst (perform a b) @ actions) log" and "plain a" and "\<And>c. map_of (b_sessions b) c \<in> found c"
  shows "owe found (a # actions) (pushed a @ log)"
proof -
  from assms(1) obtain l1 l2 where l: "log = l1 @ l2" "owe found (fst (perform a b)) l1" "owe found actions l2"
    by (auto simp: owe_append)
  from perform_owes [OF l(2) assms(2,3)] have "owes found a (pushed a @ l1)" by simp
  with l show ?thesis unfolding owe.simps by (intro exI [of _ "pushed a @ l1"] exI [of _ l2]) simp
qed

lemma pushes_runs: "pushes verify kept k m log m' \<Longrightarrow> runs_to verify m m'"
  by (induction rule: pushes.induct) (auto simp: runs_to_def intro: rtranclp.rtrancl_into_rtrancl action_moves)

lemma pushes_owe:
  assumes "pushes verify kept k m log m'" and "list_all plain (th_actions (m_threads m ! k))" and "machine_ok verify T m"
    and "grows (m_broker m') b'"
  defines "found \<equiv> lookups kept (m_broker m) b'"
  shows "machine_ok verify T m' \<and> list_all plain (th_actions (m_threads m' ! k)) \<and>
    (\<forall>c \<in> kept. map_of (b_sessions (m_broker m')) c = map_of (b_sessions (m_broker m)) c) \<and>
    (\<forall>rest. owe found (th_actions (m_threads m' ! k)) rest \<longrightarrow> owe found (th_actions (m_threads m ! k)) (log @ rest))"
  using assms(1-4)
proof (induction rule: pushes.induct)
  case (own log m1)
  from own(2) obtain a actions where th: "th_actions (m_threads m1 ! k) = a # actions" and k: "k < length (m_threads m1)"
    by (auto simp: can_act_def split: list.splits)
  obtain followers b where p: "perform a (m_broker m1) = (followers, b)" by (cases "perform a (m_broker m1)")
  have m2: "m_broker (moves m1 k) = b" "th_actions (m_threads (moves m1 k) ! k) = followers @ actions"
    using th p k by (simp_all add: moves_def)
  have ok1: "machine_ok verify T m1" using runs_ok [OF pushes_runs [OF own(1)] own(5)] by blast
  from machine_step_ok [OF action_moves [OF own(2)] ok1]
  have ok2: "machine_ok verify T (moves m1 k)" and g: "grows (m_broker m1) b'"
    using own(6) by (auto intro: grows_trans)
  have ih: "plain a" "list_all plain actions"
    "\<forall>c \<in> kept. map_of (b_sessions (m_broker m1)) c = map_of (b_sessions (m_broker m)) c"
    "\<And>rest. owe found (a # actions) rest \<Longrightarrow> owe found (th_actions (m_threads m ! k)) (log @ rest)"
    using own(3) [OF own(4,5) g] th by auto
  have "broker_ok (m_broker m1)" using ok1 by (simp add: machine_ok_def sound_def)
  note looked = lookup_found [OF this g ih(3), folded found_def]
  note plain = plain_perform [OF ih(1), of "m_broker m1"]
  have "owe found (th_actions (m_threads m ! k)) ((log @ pushed a) @ rest)" if "owe found (followers @ actions) rest" for rest
    using ih(4) [OF owe_perform [of found a "m_broker m1" actions rest, OF _ ih(1) looked]] that p by simp
  with ih plain m2 th p ok2 show ?case by simp
next
  case (others log m1 m2)
  have ok1: "machine_ok verify T m1" using runs_ok [OF pushes_runs [OF others(1)] others(7)] by blast
  from machine_step_ok [OF others(2) ok1] others(8) have "machine_ok verify T m2" "grows (m_broker m1) b'"
    by (auto intro: grows_trans)
  with others(5) [OF others(6,7)] others(3,4) show ?case by simp
qed (simp add: found_def)

text \<open>What a thread pushes arrives on the channels in its order, among what others push.\<close>

definition pushes_on :: "nat \<Rightarrow> (nat \<times> bytes) list \<Rightarrow> bytes list" where
  "pushes_on i log = map snd (filter (\<lambda>(j, buf). j = i) log)"

lemma pushes_on_append [simp]: "pushes_on i (xs @ ys) = pushes_on i xs @ pushes_on i ys"
  by (simp add: pushes_on_def)

lemma perform_sends:
  assumes "open_on (snd (perform a b)) i" and "i < length (b_heap b)"
  shows "\<exists>added. sent_on (snd (perform a b)) i = sent_on b i @ added \<and> subseq (pushes_on i (pushed a)) added"
proof (cases "\<exists>buf. a = Push i buf")
  case True
  then obtain buf where a: "a = Push i buf" by blast
  have "open_on b i" using perform_extends [of b a] assms by (simp add: extends_def)
  with assms(2) a show ?thesis
    by (simp add: pushes_on_def open_on_def sent_on_def on_session_def session_at_def send_buf_def)
next
  case False
  then have "pushes_on i (pushed a) = []" by (cases a) (auto simp: pushes_on_def)
  with perform_extends [of b a] show ?thesis by (auto simp: extends_def prefix_def)
qed

lemma moves_act:
  assumes "can_act m k"
  obtains a actions where "th_actions (m_threads m ! k) = a # actions" "m_broker (moves m k) = snd (perform a (m_broker m))"
proof -
  obtain a actions where "th_actions (m_threads m ! k) = a # actions"
    using assms by (auto simp: can_act_def split: list.splits)
  then show thesis by (rule that) (simp add: \<open>th_actions (m_threads m ! k) = a # actions\<close> moves_def Let_def split: prod.split)
qed

lemma pushes_extends: "pushes verify kept k m log m' \<Longrightarrow> extends (m_broker m) (m_broker m')"
proof (induction rule: pushes.induct)
  case (own log m1)
  then show ?case by (metis moves_act perform_extends extends_trans)
qed (auto intro: extends_trans step_extends)

lemma pushes_on_channels:
  assumes "pushes verify kept k m log m'" and "i < length (b_heap (m_broker m))" and "open_on (m_broker m') i"
  shows "\<exists>added. sent_on (m_broker m') i = sent_on (m_broker m) i @ added \<and> subseq (pushes_on i log) added"
  using assms
proof (induction rule: pushes.induct)
  case start
  show ?case by (simp add: pushes_on_def)
next
  case (own log m1)
  obtain a actions where th: "th_actions (m_threads m1 ! k) = a # actions" and b: "m_broker (moves m1 k) = snd (perform a (m_broker m1))"
    using own(2) by (rule moves_act)
  have i: "i < length (b_heap (m_broker m1))" using pushes_extends [OF own(1)] own(4) by (simp add: extends_def)
  have "open_on (m_broker m1) i" using perform_extends [of "m_broker m1" a] own(5) i unfolding b by (simp add: extends_def)
  from own(3) [OF own(4) this] perform_sends [OF own(5) [unfolded b] i] show ?case
    by (auto simp: b th list_emb_append_mono)
next
  case (others log m1 m2)
  have i: "i < length (b_heap (m_broker m1))" using pushes_extends [OF others(1)] others(6) by (simp add: extends_def)
  note step = step_extends [OF others(2), unfolded extends_def, rule_format, of i]
  have "open_on (m_broker m1) i" using step i others(7) by blast
  from others(5) [OF others(6) this] step show ?case by (auto simp: prefix_def intro: subseq_drop_many list_emb_append2)
qed

section \<open>The property\<close>

lemma owe_deliveries:
  "owe found (map (Deliver msg) subs) log \<Longrightarrow> \<exists>logs. list_all2 (delivered found msg) subs logs \<and> log = concat logs"
proof (induction subs arbitrary: log)
  case (Cons sub subs)
  then obtain l1 l2 where l: "log = l1 @ l2" "delivered found msg sub l1" "owe found (map (Deliver msg) subs) l2"
    by auto
  from Cons.IH [OF l(3)] obtain logs where "list_all2 (delivered found msg) subs logs" "l2 = concat logs" by blast
  with l show ?case by (intro exI [of _ "l1 # logs"]) simp
qed simp

lemma owe_picks:
  assumes "owe found (map (\<lambda>(grp, subs). PickShared msg grp subs) groups) log"
    and "\<And>grp subs. (grp, subs) \<in> set groups \<Longrightarrow> subs \<noteq> []"
  shows "\<exists>chosen logs. list_all2 (delivered found msg) chosen logs \<and> log = concat logs \<and>
    list_all2 (\<lambda>(grp, subs) sub. sub \<in> set subs) groups chosen"
  using assms
proof (induction groups arbitrary: log)
  case (Cons gs groups)
  obtain grp subs where gs: "gs = (grp, subs)" by (cases gs)
  with Cons.prems obtain l1 l2 sub where l: "log = l1 @ l2" "sub \<in> set subs" "delivered found msg sub l1"
    "owe found (map (\<lambda>(grp, subs). PickShared msg grp subs) groups) l2"
    by (fastforce split: if_splits)
  from Cons.IH [OF l(4)] Cons.prems(2) obtain chosen logs where
    "list_all2 (delivered found msg) chosen logs" "l2 = concat logs"
    "list_all2 (\<lambda>(grp, subs) sub. sub \<in> set subs) groups chosen"
    by (metis list.set_intros(2))
  with l gs show ?case by (intro exI [of _ "sub # chosen"] exI [of _ "l1 # logs"]) simp
qed simp

lemma owe_acknowledge: "owe found (acknowledge_actions i pkt rc) log \<Longrightarrow>
    log = concat (map pushed (acknowledge_actions i pkt rc))"
  by (auto simp: acknowledge_actions_def split: option.splits if_splits)

text \<open>What a thread pushes from the match of a publication to the end of the packet.\<close>

lemma publication_log:
  assumes "database_ok db" and "runs_to verify (first_machine (start_broker parse credentials oks db env)) m"
    and "can_act m k" and "th_actions (m_threads m ! k) = MatchTopic msg # acknowledge_actions i pkt rc"
    and "pushes verify kept k (moves m k) log m'" and "th_actions (m_threads m' ! k) = []"
  defines "matched \<equiv> \<lambda>grp. picked (segments (msg_topic msg)) grp (table (b_router (m_broker m)))"
  shows "\<exists>direct chosen groups logs.
    log = concat logs @ concat (map pushed (acknowledge_actions i pkt rc)) \<and>
    list_all2 (delivered (lookups kept (m_broker m) (m_broker m')) msg) (direct @ chosen) logs \<and>
    mset direct = matched None \<and> distinct groups \<and> set groups = {grp. matched (Some grp) \<noteq> {#}} \<and>
    list_all2 (\<lambda>grp sub. sub \<in># matched (Some grp)) groups chosen \<and>
    (\<forall>j < length (b_heap (m_broker m)). open_on (m_broker m') j \<longrightarrow>
      (\<exists>added. sent_on (m_broker m') j = sent_on (m_broker m) j @ added \<and> subseq (pushes_on j log) added))"
proof -
  let ?b = "m_broker m" and ?ack = "acknowledge_actions i pkt rc"
  let ?r = "match_topic (msg_topic msg) (b_router ?b)" and ?S = "lookups kept (m_broker m) (m_broker m')"
  note ok = start_runs_ok [OF assms(2,1)]
  then have "broker_ok ?b" by (simp add: machine_ok_def sound_def)
  then have node: "ok_node (b_router ?b)" by (simp add: broker_ok_def)
  note spec = match_topic_spec [OF node, of "msg_topic msg"]
  have k: "k < length (m_threads m)" using assms(3) by (simp add: can_act_def)
  let ?delivers = "map (Deliver msg) (normal ?r)"
  let ?picks = "map (\<lambda>(grp, subs). PickShared msg grp subs) (shared ?r)"
  have start: "th_actions (m_threads (moves m k) ! k) = ?delivers @ ?picks @ ?ack" "m_broker (moves m k) = ?b"
    using assms(4) k by (simp_all add: moves_def Let_def)
  have "list_all plain (?delivers @ ?picks @ ?ack)"
    by (simp add: list.pred_map comp_def case_prod_beta plain_def acknowledge_actions_def list.pred_True split: option.split)
  moreover have "machine_ok verify (table (b_router (start_broker parse credentials oks db env))) (moves m k)"
    using machine_step_ok [OF action_moves [OF assms(3)] ok] by blast
  ultimately have "owe ?S (?delivers @ ?picks @ ?ack) log"
    using pushes_owe [OF assms(5) _ _ grows_refl] start assms(6) by simp
  then obtain l1 l2 l3 where l: "log = l1 @ l2 @ l3" "owe ?S ?delivers l1" "owe ?S ?picks l2" "owe ?S ?ack l3"
    by (auto simp: owe_append)
  from owe_deliveries [OF l(2)] obtain logs1 where
    l1: "list_all2 (delivered ?S msg) (normal ?r) logs1" "l1 = concat logs1" by blast
  from owe_picks [OF l(3)] group_list(2) [OF node] obtain chosen logs2 where
    l2: "list_all2 (delivered ?S msg) chosen logs2" "l2 = concat logs2"
      "list_all2 (\<lambda>(grp, subs) sub. sub \<in> set subs) (shared ?r) chosen" by metis
  have "list_all2 (\<lambda>grp sub. sub \<in># matched (Some grp)) (map fst (shared ?r)) chosen"
    unfolding list_all2_map1
  proof (rule list.rel_mono_strong [OF l2(3)])
    fix gs sub
    assume gs: "gs \<in> set (shared ?r)" "(case gs of (grp, subs) \<Rightarrow> \<lambda>sub. sub \<in> set subs) sub"
    obtain grp subs where "gs = (grp, subs)" by (cases gs)
    with gs group_list(1) [OF node] show "sub \<in># matched (Some (fst gs))"
      unfolding matched_def by (metis case_prod_conv fst_conv set_mset_mset)
  qed
  moreover have "mset (normal ?r) = matched None" using spec [of None] by (simp add: routed_def matched_def)
  moreover have "distinct (map fst (shared ?r))" using spec [of None] by (simp add: ok_result_def)
  moreover have "set (map fst (shared ?r)) = {grp. matched (Some grp) \<noteq> {#}}"
    unfolding matched_def by (rule groups_of_match [OF node])
  moreover have "list_all2 (delivered ?S msg) (normal ?r @ chosen) (logs1 @ logs2)"
    using l1(1) l2(1) by (rule list_all2_appendI)
  moreover have "log = concat (logs1 @ logs2) @ concat (map pushed ?ack)"
    using l(1) l1(2) l2(2) owe_acknowledge [OF l(4)] by simp
  moreover have "\<forall>j < length (b_heap ?b). open_on (m_broker m') j \<longrightarrow>
      (\<exists>added. sent_on (m_broker m') j = sent_on ?b j @ added \<and> subseq (pushes_on j log) added)"
    using pushes_on_channels [OF assms(5)] by (simp add: start(2))
  ultimately show ?thesis by blast
qed

text \<open>
  C7: a publication is delivered exactly once to each recipient, whatever the other threads do. Take a
  thread that is about to match a publication, in any state of any interleaving, and let it and all
  other threads go on in any order until it has finished the packet. What it pushed on the channels is
  then, in order: for each subscription of the table without group whose filter matches, and for one
  member of each group with such a subscription, at most one PUBLISH, on the channel of a session of
  that client; and the acknowledgement. For the clients \<open>kept\<close>, whose entries in the session map nobody
  changed meanwhile, it is exactly one PUBLISH, on the channel of the session in the map, or none if
  there is no session. On each channel that is still open these buffers stand behind what was there,
  in this order, among what the other threads pushed.
\<close>

theorem interleaved_publication_delivered:
  assumes "database_ok db" and "runs_to verify (first_machine (start_broker parse credentials oks db env)) m"
    and "can_act m k" and "th_actions (m_threads m ! k) = MatchTopic msg # acknowledge_actions i pkt rc"
    and "pushes verify kept k (moves m k) log m'" and "th_actions (m_threads m' ! k) = []"
  defines "matched \<equiv> \<lambda>grp. picked (segments (msg_topic msg)) grp (table (b_router (m_broker m)))"
  shows "\<exists>direct chosen groups logs.
    log = concat logs @ concat (map pushed (acknowledge_actions i pkt rc)) \<and>
    list_all2 (delivered (lookups kept (m_broker m) (m_broker m')) msg) (direct @ chosen) logs \<and>
    mset direct = matched None \<and> distinct groups \<and> set groups = {grp. matched (Some grp) \<noteq> {#}} \<and>
    list_all2 (\<lambda>grp sub. sub \<in># matched (Some grp)) groups chosen \<and>
    (\<forall>j < length (b_heap (m_broker m)). open_on (m_broker m') j \<longrightarrow>
      (\<exists>added. sent_on (m_broker m') j = sent_on (m_broker m) j @ added \<and> subseq (pushes_on j log) added))"
  unfolding matched_def by (rule publication_log [OF assms(1-6)])

lemma pushes_trans:
  assumes "pushes verify kept k m1 log2 m2" and "pushes verify kept k m log1 m1"
  shows "pushes verify kept k m (log1 @ log2) m2"
  using assms
proof (induction rule: pushes.induct)
  case (own log m2)
  from pushes.own [OF own(3) own(2)] own(4) show ?case by simp
qed (auto intro: pushes.others)

text \<open>A thread that nobody interrupts pushes what it pushes and comes to its end.\<close>

lemma pushes_alone:
  assumes "unlocked m" and "k < length (m_threads m)" and "orderly actions"
  shows "\<exists>log. pushes verify kept k (set_thread k \<lparr>th_actions = actions, th_control = control\<rparr> b m) log
    (set_thread k (idle control) (run actions b) m)"
  using assms(3)
proof (induction actions b rule: run.induct)
  case (1 b)
  show ?case by (auto intro: pushes.start)
next
  case (2 a actions b)
  let ?m = "set_thread k \<lparr>th_actions = a # actions, th_control = control\<rparr> b m"
  obtain followers b' where p: "perform a b = (followers, b')" by (cases "perform a b")
  have "can_act ?m k" by (rule unlocked_can_act [OF assms(1,2) 2(2)])
  from pushes.own [OF pushes.start this] p assms(2)
  have "pushes verify kept k ?m (pushed a) (set_thread k \<lparr>th_actions = followers @ actions, th_control = control\<rparr> b' m)"
    by (simp add: moves_def)
  with 2(1) orderly_perform [OF 2(2), of b] p show ?case
    by (auto simp: run.simps(2) intro: pushes_trans)
qed

section \<open>A run with publications\<close>

text \<open>
  The subscribed client publishes at QoS 0 to its own filter: the broker in which its session is the
  only one, with the buffers on its channel, and the machine from the wait for the PUBLISH to the match
  and from there to the end of the packet.
\<close>

definition sample_message :: "u8 \<Rightarrow> message" where
  "sample_message x = \<lparr>msg_topic = lit ''a'', msg_payload = [x], msg_qos = 0, msg_retain = False\<rparr>"

definition pending_publish :: "u8 \<Rightarrow> publish" where
  "pending_publish x = \<lparr>p_dup = False, p_qos = 0, p_retain = False, p_topic = lit ''a'', p_packet_id = None,
     p_properties = publish_properties_default, p_payload = [x]\<rparr>"

definition delivered_publish :: "u8 \<Rightarrow> packet" where
  "delivered_publish x = publish_packet (lit ''a'') [x] 0 False None None"

definition sample_entry :: subscription_info where
  "sample_entry = \<lparr>si_client_id = lit ''a'', si_qos = 1, si_subscription_identifier = None\<rparr>"

definition subscriber_state :: "bytes list \<Rightarrow> broker \<Rightarrow> bool" where
  "subscriber_state sent b \<longleftrightarrow> b_router b = Router.subscribe (lit ''a'') (lit ''a'') 1 None empty_node \<and>
     b_sessions b = [(lit ''a'', 0)] \<and> b_auth b = auth_anonymous \<and>
     (\<exists>s. b_heap b = [s] \<and> cs_sent s = sent \<and> cs_receiver s)"

definition reading_at :: "(rstr \<Rightarrow> rstr \<Rightarrow> bool) \<Rightarrow> action list \<Rightarrow> control \<Rightarrow> broker \<Rightarrow> machine" where
  "reading_at verify actions control b =
     set_thread 2 \<lparr>th_actions = actions, th_control = control\<rparr> b (machine_of (subscribed_system verify))"

lemma subscriber_threads: "2 < length (m_threads (machine_of (subscribed_system verify)))"
  by (simp add: machine_of_def subscribed_facts(2))

lemma reading_at_fields [simp]:
  "m_broker (reading_at verify actions control b) = b"
  "m_threads (reading_at verify actions control b) ! 2 = \<lparr>th_actions = actions, th_control = control\<rparr>"
  "2 < length (m_threads (reading_at verify actions control b))"
  using subscriber_threads [of verify] by (simp_all add: reading_at_def)

lemma reading_at_can_act: "orderly (a # actions) \<Longrightarrow> can_act (reading_at verify (a # actions) control b) 2"
  unfolding reading_at_def by (rule unlocked_can_act [OF unlocked_of subscriber_threads])

lemma subscribed_start:
  "subscriber_state [encode_packet (connack_packet 0), encode_packet suback_sample] (sys_broker (subscribed_system verify))"
  "machine_of (subscribed_system verify) = reading_at verify [] (Await 0 []) (sys_broker (subscribed_system verify))"
proof -
  show "subscriber_state [encode_packet (connack_packet 0), encode_packet suback_sample] (sys_broker (subscribed_system verify))"
    using subscribed_facts(1) [of verify] subscribed_channel [of verify] subscribed_ok(3) [of verify]
    by (auto simp: subscriber_state_def session_at_def length_Suc_conv simp del: lit_simps)
  have "m_threads (machine_of (subscribed_system verify)) ! 2 = idle (Await 0 [])"
    by (simp add: machine_of_def subscribed_facts(2))
  from set_thread_same [OF this] show
    "machine_of (subscribed_system verify) = reading_at verify [] (Await 0 []) (sys_broker (subscribed_system verify))"
    by (simp add: reading_at_def machine_of_fields)
qed

lemma pending_publish_wf: "wf_packet (Publish (pending_publish x))"
  using publish_packet_wf [of "lit ''a''" 0 None None "[x]" False]
  by (simp add: pending_publish_def publish_packet_def str_ok_def utf8_valid_ascii publish_properties_default_def)

lemma matching_machine:
  assumes "subscriber_state sent b"
  shows "\<exists>b'. subscriber_state sent b' \<and> runs_to verify (reading_at verify [] (Await 0 []) b)
    (reading_at verify [MatchTopic (sample_message x)] (Decode 0 []) b')"
proof -
  let ?buf = "encode_packet (Publish (pending_publish x))"
  let ?b1 = "on_session 0 (update_activity (b_clock b)) b"
  note k = subscriber_threads [of verify]
  from assms have state1: "subscriber_state sent ?b1"
    by (auto simp: subscriber_state_def on_session_def session_at_def update_activity_def)
  have r1: "machine_step verify (reading_at verify [] (Await 0 []) b) (reading_at verify [Touch 0] (Decode 0 ?buf) b)"
    using machine_step.event [of 2 "reading_at verify [] (Await 0 []) b" "Await 0 []" verify "Received ?buf"]
    by (simp add: reading_at_def k)
  have r2: "runs_to verify (reading_at verify [Touch 0] (Decode 0 ?buf) b) (reading_at verify [] (Decode 0 ?buf) ?b1)"
    using run_alone [OF unlocked_of k, of "[Touch 0]" verify "Decode 0 ?buf" b] by (simp add: reading_at_def)
  obtain front where acts: "packet_actions 0 (Publish (pending_publish x)) ?b1 = Ok (front @ [MatchTopic (sample_message x)])"
    and front: "orderly (front @ [MatchTopic (sample_message x)])" "subscriber_state sent (run front ?b1)"
  proof
    show "packet_actions 0 (Publish (pending_publish x)) ?b1 =
        Ok ((CountPublish # (if cs_client_id (session_at ?b1 0) \<noteq> bridge_client then [TellBridge (lit ''a'') [x]] else [])) @
          [MatchTopic (sample_message x)])"
      using assms
      by (simp add: publish_actions_def acknowledge_actions_def pending_publish_def sample_message_def authorize_def
          subscriber_state_def auth_anonymous_def del: lit_simps)
  qed (use state1 in \<open>auto intro!: orderly_free simp: holds_def subscriber_state_def\<close>)
  have r3: "machine_step verify (reading_at verify [] (Decode 0 ?buf) ?b1)
      (reading_at verify (front @ [MatchTopic (sample_message x)]) (Decode 0 []) ?b1)"
    using next_packet_step [OF k, of verify "Decode 0 ?buf" ?b1] packet_roundtrip [OF pending_publish_wf, of x "[]"] acts
    by (simp add: reading_at_def)
  have r4: "runs_to verify (reading_at verify (front @ [MatchTopic (sample_message x)]) (Decode 0 []) ?b1)
      (reading_at verify [MatchTopic (sample_message x)] (Decode 0 []) (run front ?b1))"
    unfolding reading_at_def by (rule run_front [OF unlocked_of k front(1)]) simp
  show ?thesis
    using runs_step [OF r1 runs_trans [OF r2 runs_step [OF r3 r4]]] front(2) by blast
qed

lemma run_sample:
  assumes "subscriber_state sent b"
  shows "subscriber_state (sent @ [encode_packet (delivered_publish x)])
    (run (fst (perform (MatchTopic (sample_message x)) b)) b)"
proof -
  from assms obtain s where b: "b_heap b = [s]" "cs_sent s = sent" "cs_receiver s" "b_sessions b = [(lit ''a'', 0)]"
    "b_router b = Router.subscribe (lit ''a'') (lit ''a'') 1 None empty_node" "b_auth b = auth_anonymous"
    by (auto simp: subscriber_state_def)
  have "match_topic (lit ''a'') (b_router b) = \<lparr>normal = [sample_entry], shared = []\<rparr>"
    unfolding b(5) sample_entry_def by code_simp
  with b show ?thesis
    by (simp add: subscriber_state_def sample_message_def Let_def on_session_def session_at_def send_buf_def
        delivered_publish_def sample_entry_def run.simps del: lit_simps)
qed

lemma publishing_machine:
  assumes "subscriber_state sent b"
  shows "\<exists>log b'. subscriber_state (sent @ [encode_packet (delivered_publish x)]) b' \<and>
    pushes verify kept 2 (moves (reading_at verify [MatchTopic (sample_message x)] (Decode 0 []) b) 2) log
      (reading_at verify [] (Decode 0 []) b')"
proof -
  let ?followers = "fst (perform (MatchTopic (sample_message x)) b)"
  have "moves (reading_at verify [MatchTopic (sample_message x)] (Decode 0 []) b) 2 = reading_at verify ?followers (Decode 0 []) b"
    using subscriber_threads [of verify] by (simp add: moves_def reading_at_def Let_def)
  moreover have "orderly ?followers" using orderly_followers [of "MatchTopic (sample_message x)" b] by simp
  from pushes_alone [OF unlocked_of subscriber_threads this, of verify kept "Decode 0 []" b] obtain log where
    "pushes verify kept 2 (reading_at verify ?followers (Decode 0 []) b) log (reading_at verify [] (Decode 0 []) (run ?followers b))"
    by (auto simp: reading_at_def)
  ultimately show ?thesis using run_sample [OF assms, of x] by metis
qed

lemma sample_picked:
  "subscriber_state sent b \<Longrightarrow> picked (segments (msg_topic (sample_message x))) None (table (b_router b)) = {#sample_entry#}"
  by (simp add: subscriber_state_def sample_entry_def sample_message_def trie.tab_sub new_entry_def
      parse_shared_subscription_def starts_with_def segments_eval picked_def)

lemma sample_acknowledged: "acknowledge_actions i (pending_publish x) rc = []"
  by (simp add: acknowledge_actions_def pending_publish_def)

theorem interleaved_publication_delivered_witness:
  "\<exists>m m' direct chosen logs log.
     pushes (\<lambda>_ _. False) UNIV 2 (moves m 2) log m' \<and> log = concat logs \<and>
     list_all2 (delivered (lookups UNIV (m_broker m) (m_broker m')) (sample_message 1)) (direct @ chosen) logs \<and>
     mset direct = {#sample_entry#}"
proof -
  let ?v = "\<lambda>_ _. False" and ?msg = "sample_message 1"
  obtain b where runs: "runs_to ?v (machine_of (subscribed_system ?v)) (reading_at ?v [MatchTopic ?msg] (Decode 0 []) b)"
    and b: "subscriber_state [encode_packet (connack_packet 0), encode_packet suback_sample] b"
    using matching_machine [OF subscribed_start(1)] subscribed_start(2) by metis
  let ?m = "reading_at ?v [MatchTopic ?msg] (Decode 0 []) b"
  obtain log b' where l: "pushes ?v UNIV 2 (moves ?m 2) log (reading_at ?v [] (Decode 0 []) b')"
    using publishing_machine [OF b] by blast
  have go: "can_act ?m 2" by (rule reading_at_can_act) simp
  have acts: "th_actions (m_threads ?m ! 2) = MatchTopic ?msg # acknowledge_actions 0 (pending_publish 1) 0"
    by (simp add: sample_acknowledged)
  have ended: "th_actions (m_threads (reading_at ?v [] (Decode 0 []) b') ! 2) = []" by simp
  from interleaved_publication_delivered [OF empty_database_ok runs_trans [OF subscribed_runs runs] go acts l ended]
  obtain direct chosen logs where "log = concat logs"
    "list_all2 (delivered (lookups UNIV (m_broker ?m) (m_broker (reading_at ?v [] (Decode 0 []) b'))) ?msg) (direct @ chosen) logs"
    "mset direct = picked (segments (msg_topic ?msg)) None (table (b_router (m_broker ?m)))"
    unfolding sample_acknowledged by auto
  moreover have "picked (segments (msg_topic ?msg)) None (table (b_router (m_broker ?m))) = {#sample_entry#}"
    using sample_picked [OF b] by simp
  ultimately show ?thesis using l by metis
qed

end
