(* ===== verification/Serving.thy ===== *)
theory Serving imports Writer Interleaved_Delivery begin

text \<open>
  The broker with its writers: the threads of the theory Interleaving append to the channels of the
  sessions, and the writer of each session takes the buffers off and writes them to its socket or its
  WebSocket, all in any order. What arrives at a client is what was sent on its channel.
\<close>

section \<open>Steps\<close>

datatype transport = Socket writer | Web ws_writer

text \<open>
  The writer of a session runs as long as it holds the receiver of the channel, which \<open>cs_receiver\<close>
  records.
\<close>

inductive serves :: "(rstr \<Rightarrow> rstr \<Rightarrow> bool) \<Rightarrow> machine \<times> (nat \<Rightarrow> transport) \<Rightarrow> machine \<times> (nat \<Rightarrow> transport) \<Rightarrow> bool"
  for verify where
  thread: "machine_step verify m m' \<Longrightarrow> serves verify (m, ws) (m', ws)"
| socket: "i < length (b_heap (m_broker m)) \<Longrightarrow> cs_receiver (session_at (m_broker m) i) \<Longrightarrow> ws i = Socket w \<Longrightarrow>
    serves verify (m, ws) (m, ws(i := Socket (writer_step (cs_sent (session_at (m_broker m) i)) ev w)))"
| web: "i < length (b_heap (m_broker m)) \<Longrightarrow> cs_receiver (session_at (m_broker m) i) \<Longrightarrow> ws i = Web v \<Longrightarrow>
    serves verify (m, ws) (m, ws(i := Web (ws_writer_step (cs_sent (session_at (m_broker m) i)) wev v)))"

definition serves_to ::
  "(rstr \<Rightarrow> rstr \<Rightarrow> bool) \<Rightarrow> machine \<times> (nat \<Rightarrow> transport) \<Rightarrow> machine \<times> (nat \<Rightarrow> transport) \<Rightarrow> bool" where
  "serves_to verify = (serves verify)\<^sup>*\<^sup>*"

section \<open>Every writer keeps its contract\<close>

definition transport_ok :: "bytes list \<Rightarrow> transport \<Rightarrow> bool" where
  "transport_ok sent t = (case t of Socket w \<Rightarrow> writer_ok sent w | Web v \<Rightarrow> ws_writer_ok sent v)"

definition fresh_transports :: "(nat \<Rightarrow> transport) \<Rightarrow> bool" where
  "fresh_transports ws \<longleftrightarrow> (\<forall>i. ws i = Socket new_writer \<or> ws i = Web new_ws_writer)"

lemma transport_ok_extended: "transport_ok sent t \<Longrightarrow> prefix sent sent' \<Longrightarrow> transport_ok sent' t"
  by (auto simp: transport_ok_def socket.extended websocket.extended split: transport.splits)

lemma fresh_transport_ok: "fresh_transports ws \<Longrightarrow> transport_ok sent (ws i)"
  using socket.fresh websocket.fresh by (auto simp: fresh_transports_def transport_ok_def dest!: spec [of _ i])

lemma serves_ok:
  assumes "serves verify (m, ws) (m', ws')" and "\<And>i. transport_ok (sent_on (m_broker m) i) (ws i)"
  shows "transport_ok (sent_on (m_broker m') i) (ws' i)"
  using assms(1)
proof cases
  case thread
  with transport_ok_extended [OF assms(2) step_extends [THEN extends_prefix]] show ?thesis by simp
next
  case (socket j w ev)
  with assms(2) [of i] socket.steps show ?thesis by (auto simp: transport_ok_def sent_on_def)
next
  case (web j v ev)
  with assms(2) [of i] websocket.steps show ?thesis by (auto simp: transport_ok_def sent_on_def)
qed

lemma serves_runs: "serves_to verify (m, ws) (m', ws') \<Longrightarrow> runs_to verify m m'"
  unfolding serves_to_def
proof (induction "(m', ws')" arbitrary: m' ws' rule: rtranclp_induct)
  case base
  show ?case by (simp add: runs_to_def)
next
  case (step s)
  obtain m1 ws1 where s: "s = (m1, ws1)" by (cases s)
  from step(2) [unfolded s] step(3) [OF s] show ?case
    by cases (auto simp: runs_to_def intro: rtranclp.rtrancl_into_rtrancl)
qed

lemma runs_extends: "runs_to verify m m' \<Longrightarrow> extends (m_broker m) (m_broker m')"
  unfolding runs_to_def by (induction rule: rtranclp_induct) (auto intro: extends_trans step_extends)

lemma serves_trans: "serves_to verify s s1 \<Longrightarrow> serves_to verify s1 s2 \<Longrightarrow> serves_to verify s s2"
  unfolding serves_to_def by (rule rtranclp_trans)

lemma serves_to_ok:
  assumes "serves_to verify (m0, ws0) (m, ws)" and "fresh_transports ws0"
  shows "transport_ok (sent_on (m_broker m) i) (ws i)"
  using assms(1) unfolding serves_to_def
proof (induction "(m, ws)" arbitrary: m ws i rule: rtranclp_induct)
  case base
  then show ?case using fresh_transport_ok [OF assms(2)] by simp
next
  case (step s)
  obtain m1 ws1 where s: "s = (m1, ws1)" by (cases s)
  from serves_ok [OF step(2) [unfolded s] step(3) [OF s]] show ?case .
qed

text \<open>What a session's channel carries, as packets.\<close>

lemma channel_packets:
  assumes "wire_ok b" and "i < length (b_heap b)"
    and "\<And>buf. buf \<in> set (cs_sent (session_at b i)) \<Longrightarrow> length buf + 2 ^ 17 \<le> 2 ^ 28"
  shows "\<exists>ps. list_all wf_packet ps \<and> cs_sent (session_at b i) = map encode_packet ps"
proof -
  have "session_at b i \<in> set (b_heap b)" using assms(2) by (simp add: session_at_def)
  with assms(1) have "\<forall>buf \<in> set (cs_sent (session_at b i)). sound_buffer buf" by (simp add: wire_ok_def)
  with assms(3) have "\<forall>buf \<in> set (cs_sent (session_at b i)). \<exists>p. wf_packet p \<and> buf = encode_packet p"
    using sound_decodes by blast
  then have "\<exists>ps. list_all wf_packet ps \<and> bufs = map encode_packet ps" if "set bufs \<subseteq> set (cs_sent (session_at b i))" for bufs
    using that
  proof (induction bufs)
    case (Cons buf bufs)
    then obtain p ps where "wf_packet p" "buf = encode_packet p" "list_all wf_packet ps" "bufs = map encode_packet ps"
      by auto
    then show ?case by (intro exI [of _ "p # ps"]) simp
  qed simp
  then show ?thesis by blast
qed

lemma socket_client_reads:
  assumes "database_ok db" and "fresh_transports ws0"
    and "serves_to verify (first_machine (start_broker parse credentials oks db env), ws0) (m, ws)"
    and "i < length (b_heap (m_broker m))" and "ws i = Socket w" and "concat chunks = wr_out w"
    and "\<And>buf. buf \<in> set (cs_sent (session_at (m_broker m) i)) \<Longrightarrow> length buf + 2 ^ 17 \<le> 2 ^ 28"
  shows "\<exists>ps k rest. list_all wf_packet ps \<and> cs_sent (session_at (m_broker m) i) = map encode_packet ps \<and>
    foldl (feed client_loop) (Waiting [] []) chunks = Waiting (take k ps) rest \<and> k \<le> wr_taken w \<and>
    (wr_stage w = Receiving \<longrightarrow> k = wr_taken w \<and> rest = [])"
proof -
  let ?sent = "cs_sent (session_at (m_broker m) i)"
  note run = serves_runs [OF assms(3)]
  have ok: "writer_ok ?sent w" using serves_to_ok [OF assms(3,2), of i] assms(4,5) by (simp add: transport_ok_def sent_on_def)
  from start_runs_ok [OF run assms(1)] have "wire_ok (m_broker m)" by (simp add: machine_ok_def sound_def)
  from channel_packets [OF this assms(4,7)] obtain ps where ps: "list_all wf_packet ps" "?sent = map encode_packet ps" by blast
  have taken: "wr_taken w \<le> length ps" using socket.takes [OF ok] ps(2) by simp
  have "list_all wf_packet (take (wr_taken w) ps)" using ps(1) by (auto simp: list_all_iff dest: in_set_takeD)
  from socket.client_reads [OF ok this] ps(2) obtain k rest where
    "client_loop [] (wr_out w) = Waiting (take k (take (wr_taken w) ps)) rest" "k \<le> length (take (wr_taken w) ps)"
    "wr_stage w = Receiving \<longrightarrow> k = length (take (wr_taken w) ps) \<and> rest = []"
    by (auto simp: take_map)
  with ps taken client.chunks [of "[]" chunks] assms(6) show ?thesis
    by (intro exI [of _ ps] exI [of _ k] exI [of _ rest]) (auto simp: min_absorb1 min_absorb2)
qed

section \<open>Properties\<close>

text \<open>
  C8: a client gets what was sent to it, in order. While the threads of the broker and the writers run
  in any order, a client over TCP or TLS that reads what its socket has carried so far, in whatever
  chunks, takes off exactly the first of the packets that were sent on its session's channel: no packet
  is lost, repeated, reordered or torn by the writes of several threads, and it waits with a part of
  the next one; when the writer waits for the channel, it has all packets that the writer has taken.
\<close>

theorem clients_read_their_channels:
  assumes "database_ok db" and "fresh_transports ws0"
    and "serves_to verify (first_machine (start_broker parse credentials oks db env), ws0) (m, ws)"
    and "i < length (b_heap (m_broker m))" and "ws i = Socket w" and "concat chunks = wr_out w"
    and "\<And>buf. buf \<in> set (cs_sent (session_at (m_broker m) i)) \<Longrightarrow> length buf + 2 ^ 17 \<le> 2 ^ 28"
  shows "\<exists>ps k rest. list_all wf_packet ps \<and> cs_sent (session_at (m_broker m) i) = map encode_packet ps \<and>
    foldl (feed client_loop) (Waiting [] []) chunks = Waiting (take k ps) rest \<and> k \<le> wr_taken w \<and>
    (wr_stage w = Receiving \<longrightarrow> k = wr_taken w \<and> rest = [])"
  using assms by (rule socket_client_reads)

lemma runs_serves: "runs_to verify m m' \<Longrightarrow> serves_to verify (m, ws) (m', ws)"
  unfolding runs_to_def serves_to_def
  by (induction rule: rtranclp_induct) (auto intro: rtranclp.rtrancl_into_rtrancl serves.thread)

lemma socket_serves:
  assumes "i < length (b_heap (m_broker m))" and "cs_receiver (session_at (m_broker m) i)"
  shows "serves_to verify (m, ws(i := Socket w))
    (m, ws(i := Socket (fold (writer_step (cs_sent (session_at (m_broker m) i))) evs w)))"
proof (induction evs arbitrary: w)
  case (Cons ev evs)
  let ?w = "writer_step (cs_sent (session_at (m_broker m) i)) ev w"
  have "serves verify (m, ws(i := Socket w)) (m, ws(i := Socket ?w))"
    using serves.socket [OF assms, of "ws(i := Socket w)" w verify ev] by simp
  from converse_rtranclp_into_rtranclp [OF this Cons [of ?w, unfolded serves_to_def]] show ?case
    by (simp only: serves_to_def fold.simps comp_apply)
qed (simp add: serves_to_def)

lemma runs_then_writes:
  assumes "runs_to verify m0 m" and "open_on (m_broker m) i" and "ws i = Socket w"
  shows "serves_to verify (m0, ws) (m, ws(i := Socket (fold (writer_step (cs_sent (session_at (m_broker m) i))) evs w)))"
proof -
  have "ws(i := Socket w) = ws" using assms(3) by auto
  with socket_serves [of i m verify ws w evs] assms(2) runs_serves [OF assms(1)] show ?thesis
    unfolding serves_to_def open_on_def by (metis rtranclp_trans)
qed

theorem clients_read_their_channels_witness:
  "foldl (feed client_loop) (Waiting [] [])
     [take 2 (encode_packet (connack_packet 0)), drop 2 (encode_packet (connack_packet 0))] = Waiting [connack_packet 0] []"
proof -
  let ?m = "machine_of (connected_system (\<lambda>_ _. False))" and ?buf = "encode_packet (connack_packet 0)"
  let ?ws = "(\<lambda>_. Socket new_writer)" and ?w = "fold (writer_step [?buf]) [Next, Took (length ?buf), Flushed] new_writer"
  let ?chunks = "[take 2 ?buf, drop 2 ?buf]"
  have c: "0 < length (b_heap (m_broker ?m))" "cs_sent (session_at (m_broker ?m) 0) = [?buf]"
    "cs_receiver (session_at (m_broker ?m) 0)" using connected_channel(2) by auto
  have nonempty: "?buf \<noteq> []" by (simp add: encode_packet_def split: prod.split)
  have w: "wr_out ?w = ?buf" "wr_stage ?w = Receiving" "wr_taken ?w = 1"
    using nonempty by (simp_all add: new_writer_def writer_step_def writing_def)
  have "fresh_transports ?ws" by (simp add: fresh_transports_def)
  moreover have "serves_to (\<lambda>_ _. False) (first_machine (start_broker (\<lambda>_. None) open_credentials all_ok empty_database (\<lambda>_. None)), ?ws)
      (?m, ?ws(0 := Socket ?w))"
    using rtranclp_trans [OF runs_serves [OF connected_channel(1), unfolded serves_to_def]
        socket_serves [OF c(1,3), of _ ?ws new_writer, unfolded serves_to_def c(2)]]
    unfolding serves_to_def by (metis fun_upd_triv)
  moreover have "(?ws(0 := Socket ?w)) 0 = Socket ?w" by simp
  moreover have "concat ?chunks = wr_out ?w" by (simp add: w(1) del: fold.simps)
  ultimately have "\<exists>ps k rest. list_all wf_packet ps \<and> [?buf] = map encode_packet ps \<and>
      foldl (feed client_loop) (Waiting [] []) ?chunks = Waiting (take k ps) rest \<and> k \<le> wr_taken ?w \<and>
      (wr_stage ?w = Receiving \<longrightarrow> k = wr_taken ?w \<and> rest = [])"
    using clients_read_their_channels [OF empty_database_ok, of ?ws _ _ open_credentials all_ok "\<lambda>_. None" ?m "?ws(0 := Socket ?w)" 0 ?w ?chunks]
      c(1) connected_channel(3) unfolding c(2) by fastforce
  then obtain p where p: "wf_packet p" "?buf = encode_packet p"
      "foldl (feed client_loop) (Waiting [] []) ?chunks = Waiting [p] []"
    unfolding w(2,3) by auto
  from packet_roundtrip [OF p(1), of "[]"] packet_roundtrip [OF small_packets_wf(2), of 0 "[]"] p(2)
  have "p = connack_packet 0" by simp
  with p(3) show ?thesis by simp
qed

text \<open>
  C12: each WebSocket message is one packet. While threads and writers run in any order, the messages
  that a client's WebSocket was handed are the encodings of the first packets sent on its session's
  channel, one message each, in order; at most one packet that the writer has taken is not handed over
  yet, and none when the writer waits for the channel.
\<close>

theorem websocket_messages_are_packets:
  assumes "database_ok db" and "fresh_transports ws0"
    and "serves_to verify (first_machine (start_broker parse credentials oks db env), ws0) (m, ws)"
    and "i < length (b_heap (m_broker m))" and "ws i = Web v"
    and "\<And>buf. buf \<in> set (cs_sent (session_at (m_broker m) i)) \<Longrightarrow> length buf + 2 ^ 17 \<le> 2 ^ 28"
  shows "\<exists>ps k. list_all wf_packet ps \<and> cs_sent (session_at (m_broker m) i) = map encode_packet ps \<and>
    ww_messages v = map encode_packet (take k ps) \<and> k \<le> ww_taken v \<and> ww_taken v \<le> Suc k \<and>
    (ww_stage v = Receiving \<longrightarrow> k = ww_taken v)"
proof -
  let ?sent = "cs_sent (session_at (m_broker m) i)"
  note run = serves_runs [OF assms(3)]
  have ok: "ws_writer_ok ?sent v" using serves_to_ok [OF assms(3,2), of i] assms(4,5) by (simp add: transport_ok_def sent_on_def)
  from start_runs_ok [OF run assms(1)] have "wire_ok (m_broker m)" by (simp add: machine_ok_def sound_def)
  from channel_packets [OF this assms(4,6)] obtain ps where ps: "list_all wf_packet ps" "?sent = map encode_packet ps" by blast
  have "buf \<noteq> []" if "buf \<in> set (take (ww_taken v) ?sent)" for buf
    using in_set_takeD [OF that] unfolding ps(2) by (auto simp: encode_packet_def split: prod.splits)
  then have "filter (\<lambda>buf. buf \<noteq> []) (take (ww_taken v) ?sent) = take (ww_taken v) ?sent" by simp
  with ok have out: "ww_messages v @ held (ww_adapter v) = map encode_packet (take (ww_taken v) ps)"
    by (simp add: ws_writer_ok_def ps(2) take_map)
  let ?k = "length (ww_messages v)"
  from out have "ww_messages v = take ?k (map encode_packet (take (ww_taken v) ps))" by (metis append_eq_conv_conj)
  moreover have len: "?k + length (held (ww_adapter v)) = ww_taken v"
    using arg_cong [OF out, of length] websocket.takes [OF ok] ps(2) by simp
  ultimately have "ww_messages v = map encode_packet (take ?k ps)" by (simp add: take_map)
  moreover have "length (held (ww_adapter v)) \<le> 1" by (simp add: held_def)
  moreover have "held (ww_adapter v) = []" if "ww_stage v = Receiving"
    using ok that by (simp add: ws_writer_ok_def held_def)
  ultimately show ?thesis using ps len by (intro exI [of _ ps] exI [of _ ?k]) auto
qed

lemma web_serves:
  assumes "i < length (b_heap (m_broker m))" and "cs_receiver (session_at (m_broker m) i)"
  shows "serves_to verify (m, ws(i := Web v))
    (m, ws(i := Web (fold (ws_writer_step (cs_sent (session_at (m_broker m) i))) evs v)))"
proof (induction evs arbitrary: v)
  case (Cons ev evs)
  let ?v = "ws_writer_step (cs_sent (session_at (m_broker m) i)) ev v"
  have "serves verify (m, ws(i := Web v)) (m, ws(i := Web ?v))"
    using serves.web [OF assms, of "ws(i := Web v)" v verify ev] by simp
  from converse_rtranclp_into_rtranclp [OF this Cons [of ?v, unfolded serves_to_def]] show ?case
    by (simp only: serves_to_def fold.simps comp_apply)
qed (simp add: serves_to_def)

theorem websocket_messages_are_packets_witness:
  "\<exists>p. wf_packet p \<and> ww_messages (fold (ws_writer_step [encode_packet (connack_packet 0)])
     [Ws_Next, Ws_Flush \<lparr>fa_ready = Ready True, fa_start_send = True, fa_flush = Ready True\<rparr>] new_ws_writer) = [encode_packet p]"
proof -
  let ?m = "machine_of (connected_system (\<lambda>_ _. False))" and ?buf = "encode_packet (connack_packet 0)"
  let ?ans = "\<lparr>fa_ready = Ready True, fa_start_send = True, fa_flush = Ready True\<rparr>"
  let ?ws = "(\<lambda>_. Web new_ws_writer)" and ?v = "fold (ws_writer_step [?buf]) [Ws_Next, Ws_Flush ?ans] new_ws_writer"
  have c: "0 < length (b_heap (m_broker ?m))" "cs_sent (session_at (m_broker ?m) 0) = [?buf]"
    "cs_receiver (session_at (m_broker ?m) 0)" using connected_channel(2) by auto
  have "?buf \<noteq> []" by (simp add: encode_packet_def split: prod.split)
  then have v: "ww_stage ?v = Receiving" "ww_taken ?v = 1"
    by (simp_all add: new_ws_writer_def ws_writer_step_def poll_write_def poll_flush_def new_adapter_def Let_def)
  have "fresh_transports ?ws" by (simp add: fresh_transports_def)
  moreover have "serves_to (\<lambda>_ _. False) (first_machine (start_broker (\<lambda>_. None) open_credentials all_ok empty_database (\<lambda>_. None)), ?ws)
      (?m, ?ws(0 := Web ?v))"
    using rtranclp_trans [OF runs_serves [OF connected_channel(1), unfolded serves_to_def]
        web_serves [OF c(1,3), of _ ?ws new_ws_writer, unfolded serves_to_def c(2)]]
    unfolding serves_to_def by (metis fun_upd_triv)
  moreover have "(?ws(0 := Web ?v)) 0 = Web ?v" by simp
  ultimately have "\<exists>ps k. list_all wf_packet ps \<and> [?buf] = map encode_packet ps \<and>
      ww_messages ?v = map encode_packet (take k ps) \<and> k \<le> ww_taken ?v \<and> ww_taken ?v \<le> Suc k \<and>
      (ww_stage ?v = Receiving \<longrightarrow> k = ww_taken ?v)"
    using websocket_messages_are_packets [OF empty_database_ok, of ?ws _ _ open_credentials all_ok "\<lambda>_. None" ?m "?ws(0 := Web ?v)" 0 ?v]
      c(1) connected_channel(3) unfolding c(2) by fastforce
  then show ?thesis unfolding v by auto
qed

section \<open>Reading from a WebSocket\<close>

text \<open>
  The non-empty reads of a connection from its adapter, up to the end or an error. When a read is
  pending, the task waits and polls it again.
\<close>

fun chunks_read :: "nat list \<Rightarrow> ws_poll list \<Rightarrow> adapter \<Rightarrow> bytes list" where
  "chunks_read [] polls ad = []"
| "chunks_read (n # ns) polls ad =
     (case poll_read n polls ad of
        (ReadReady out, polls', ad') \<Rightarrow> if out = [] then [] else out # chunks_read ns polls' ad'
      | (ReadPending, polls', ad') \<Rightarrow> chunks_read ns polls' ad'
      | (ReadError, polls', ad') \<Rightarrow> [])"

lemma concat_chunks_read: "concat (chunks_read ns polls ad) = read_all ns polls ad"
  by (induction ns arbitrary: polls ad) (auto split: prod.split poll_read_result.split)

text \<open>
  C13: a stream over a WebSocket is handled like one over TCP. The data of the WebSocket messages
  before the first close, error or end, text or binary, however it is spread over them, with pings,
  pongs, empty messages and pending polls in between, and whatever room the reads have, brings the
  connection where the same bytes from a socket do: to the state and the waiting bytes, or the error
  of the first packet that ends it, of the loop over all of them. In particular, when they are the
  encoding of packets that the handlers accept, each is handled once, in order, and nothing is left
  in the buffer.
\<close>

theorem websocket_stream_processed:
  fixes b :: broker and i :: nat and polls :: "ws_poll list" and ns :: "nat list"
  assumes "list_all (\<lambda>n. 0 < n) ns" and "length (ws_bytes polls) + pending_polls polls < length ns"
  defines "result \<equiv> foldl (feed (drain i)) (Waiting b []) (chunks_read ns polls new_adapter)"
  shows "result = drain i b (ws_bytes polls) \<and>
    (concat chunks = ws_bytes polls \<longrightarrow> result = foldl (feed (drain i)) (Waiting b []) chunks) \<and>
    (list_all wf_packet ps \<and> ws_bytes polls = concat (map encode_packet ps) \<and>
      handle_all (process_client_packet i) ps b = Ok b' \<longrightarrow> result = Waiting b' [])"
proof -
  from read_all_prefix [OF assms(1), of polls new_adapter] assms(2)
  have "concat (chunks_read ns polls new_adapter) = ws_bytes polls"
    by (auto simp: unread_def new_adapter_def concat_chunks_read)
  with reader.chunks [of i b "chunks_read ns polls new_adapter"] have result: "result = drain i b (ws_bytes polls)"
    by (simp add: result_def)
  moreover have "drain i b (concat (map encode_packet ps)) = Waiting b' []"
    if "list_all wf_packet ps" "handle_all (process_client_packet i) ps b = Ok b'"
    using reader.in_order [OF _ that(2), of encode_packet "[]"] that(1)
    by (simp add: reader.loop_Nil list_all_iff packet_roundtrip)
  ultimately show ?thesis by (auto simp: reader.chunks)
qed

theorem websocket_stream_processed_witness:
  "foldl (feed (drain 0)) (Waiting demo_broker [])
     (chunks_read [9, 1, 9, 9, 9, 9, 9] [Msg (Binary [0xC0]), WsPending, Msg Ping, Msg (Binary [0, 0xC0, 0])] new_adapter) =
     Waiting (reply 0 PingResp (reply 0 PingResp demo_broker)) []"
  using websocket_stream_processed [where ns = "[9, 1, 9, 9, 9, 9, 9]" and i = 0 and b = demo_broker and ps = "[PingReq, PingReq]"
      and polls = "[Msg (Binary [0xC0]), WsPending, Msg Ping, Msg (Binary [0, 0xC0, 0])]"
      and b' = "reply 0 PingResp (reply 0 PingResp demo_broker)", THEN conjunct2, THEN conjunct2]
  by (simp add: ping_bytes del: chunks_read.simps)

end
