(* ===== verification/Certificates.thy ===== *)
theory Certificates imports Prelude "HOL-Library.Sublist" begin

text \<open>
  The TLS certificates: \<open>ensure_certificates\<close> of \<open>src/tls.rs\<close>, which writes a self-signed pair when
  one is missing, and the choice in \<open>main\<close> of \<open>src/main.rs\<close> whether the TLS listener starts. The
  generator (rcgen), the PEM parser and rustls are parameters, and so is whether each operation on
  the file system succeeds where nothing in the tree forbids it.
\<close>

section \<open>The file system\<close>

text \<open>
  A tree of directories and files by their places: the names on the way from the root, as the
  operating system resolves a path. Two spellings of one path are one place, and the parent of a
  path is the place without its last name.
\<close>

type_synonym place = "rstr list"

datatype fs_node = Directory | Regular bytes

type_synonym file_system = "place \<Rightarrow> fs_node option"

text \<open>
  How the file operations of one run go: for the directories of a parent \<open>None\<close> when all that are
  missing are made, \<open>Some n\<close> when it fails after \<open>n\<close> of them; files created; and for a write \<open>None\<close>
  when all bytes are written, \<open>Some n\<close> when it fails after \<open>n\<close> bytes.
\<close>

record file_io =
  io_cert_dir :: "nat option"
  io_key_dir :: "nat option"
  io_cert_create :: bool
  io_cert_write :: "nat option"
  io_key_create :: bool
  io_key_write :: "nat option"

text \<open>
  \<open>std::fs::create_dir_all\<close>: below the place \<open>here\<close> the directories on the way along the names, the
  missing ones made from the top down; a file in the way is an error.
\<close>

fun make_dirs :: "nat option \<Rightarrow> place \<Rightarrow> rstr list \<Rightarrow> file_system \<Rightarrow> bool \<times> file_system" where
  "make_dirs made here [] fs = (True, fs)"
| "make_dirs made here (name # names) fs =
     (let dir = here @ [name] in
      case fs dir of
        Some Directory \<Rightarrow> make_dirs made dir names fs
      | Some (Regular content) \<Rightarrow> (False, fs)
      | None \<Rightarrow>
          (case made of
             None \<Rightarrow> make_dirs None dir names (fs(dir \<mapsto> Directory))
           | Some 0 \<Rightarrow> (False, fs)
           | Some (Suc n) \<Rightarrow> make_dirs (Some n) dir names (fs(dir \<mapsto> Directory))))"

definition create_dir_all :: "nat option \<Rightarrow> place \<Rightarrow> file_system \<Rightarrow> bool \<times> file_system" where
  "create_dir_all made dir fs = make_dirs made [] dir fs"

text \<open>
  \<open>File::create\<close>, which empties an existing file and fails on a directory or without one to create
  the file in; then \<open>write_all\<close>.
\<close>

definition write_file :: "bool \<Rightarrow> nat option \<Rightarrow> place \<Rightarrow> bytes \<Rightarrow> file_system \<Rightarrow> bool \<times> file_system" where
  "write_file create written path content fs =
     (if \<not> create \<or> fs path = Some Directory \<or> fs (butlast path) \<noteq> Some Directory then (False, fs)
      else case written of
        None \<Rightarrow> (True, fs(path \<mapsto> Regular content))
      | Some n \<Rightarrow> (False, fs(path \<mapsto> Regular (take n content))))"

section \<open>Writing a pair\<close>

definition subject_alt_names :: "rstr list" where
  "subject_alt_names = [lit ''localhost'', lit ''127.0.0.1'', lit ''10.0.1.2'', lit ''host.wokwi.internal'']"

text \<open>
  \<open>True\<close> is \<open>Ok\<close>; \<open>generate\<close> gives the PEM texts of certificate and key. \<open>exists\<close> holds of a
  directory, too.
\<close>

definition ensure_certificates ::
  "(rstr list \<Rightarrow> (bytes \<times> bytes) option) \<Rightarrow> file_io \<Rightarrow> place \<Rightarrow> place \<Rightarrow> file_system \<Rightarrow> bool \<times> file_system" where
  "ensure_certificates generate io cert_path key_path fs =
     (if fs cert_path \<noteq> None \<and> fs key_path \<noteq> None then (True, fs)
      else case generate subject_alt_names of
        None \<Rightarrow> (False, fs)
      | Some (cert_pem, key_pem) \<Rightarrow>
          let (ok, fs) = create_dir_all (io_cert_dir io) (butlast cert_path) fs in
          if \<not> ok then (False, fs)
          else
            let (ok, fs) = create_dir_all (io_key_dir io) (butlast key_path) fs in
            if \<not> ok then (False, fs)
            else
              let (ok, fs) = write_file (io_cert_create io) (io_cert_write io) cert_path cert_pem fs in
              if \<not> ok then (False, fs)
              else write_file (io_key_create io) (io_key_write io) key_path key_pem fs)"

section \<open>Loading it\<close>

text \<open>
  \<open>parse_certs\<close> and \<open>parse_key\<close> read the content of a file: \<open>None\<close> is an error, a key file without a
  key is \<open>Some None\<close>; a directory cannot be read. \<open>config\<close> stands for \<open>with_single_cert\<close>; when it
  refuses the pair, \<open>main\<close> returns its error and the broker does not start.
\<close>

definition read_file :: "file_system \<Rightarrow> place \<Rightarrow> bytes option" where
  "read_file fs path = (case fs path of Some (Regular content) \<Rightarrow> Some content | _ \<Rightarrow> None)"

definition load_certs :: "(bytes \<Rightarrow> 'c list option) \<Rightarrow> file_system \<Rightarrow> place \<Rightarrow> 'c list option" where
  "load_certs parse_certs fs path =
     (case read_file fs path of None \<Rightarrow> None | Some content \<Rightarrow> parse_certs content)"

definition load_key :: "(bytes \<Rightarrow> 'k option option) \<Rightarrow> file_system \<Rightarrow> place \<Rightarrow> 'k option" where
  "load_key parse_key fs path =
     (case read_file fs path of
        None \<Rightarrow> None
      | Some content \<Rightarrow> (case parse_key content of None \<Rightarrow> None | Some key \<Rightarrow> key))"

definition tls_acceptor ::
  "(bytes \<Rightarrow> 'c list option) \<Rightarrow> (bytes \<Rightarrow> 'k option option) \<Rightarrow> ('c list \<Rightarrow> 'k \<Rightarrow> ('a, 'e) outcome) \<Rightarrow>
    place \<Rightarrow> place \<Rightarrow> file_system \<Rightarrow> ('a option, 'e) outcome" where
  "tls_acceptor parse_certs parse_key config cert_file key_file fs =
     (if fs cert_file \<noteq> None \<and> fs key_file \<noteq> None then
        case load_certs parse_certs fs cert_file of
          Some certs \<Rightarrow>
            (case load_key parse_key fs key_file of
               Some key \<Rightarrow> and_then (config certs key) (\<lambda>acceptor. Ok (Some acceptor))
             | None \<Rightarrow> Ok None)
        | None \<Rightarrow> Ok None
      else Ok None)"

section \<open>The directories made\<close>

text \<open>The places on the way from one place down to another, and the missing ones of them made.\<close>

definition on_way :: "place \<Rightarrow> place \<Rightarrow> place \<Rightarrow> bool" where
  "on_way here dir p \<longleftrightarrow> strict_prefix here p \<and> prefix p dir"

definition with_dirs :: "place \<Rightarrow> file_system \<Rightarrow> file_system" where
  "with_dirs dir fs = (\<lambda>p. if on_way [] dir p \<and> fs p = None then Some Directory else fs p)"

lemma on_way_step:
  "on_way here (here @ name # names) p \<longleftrightarrow> p = here @ [name] \<or> on_way (here @ [name]) (here @ name # names) p"
  "\<not> on_way here dir here"
  by (auto simp: on_way_def strict_prefix_def prefix_def append_eq_append_conv2 append_eq_Cons_conv Cons_eq_append_conv)

lemma make_dirs_step:
  assumes "make_dirs made here (name # names) fs = (True, fs')"
  defines "dir \<equiv> here @ [name]"
  shows "\<exists>made' fs1. make_dirs made' dir names fs1 = (True, fs') \<and> fs1 dir = Some Directory \<and>
    (\<forall>p. p \<noteq> dir \<longrightarrow> fs1 p = fs p) \<and> (fs dir = None \<or> fs dir = Some Directory)"
proof (cases "fs dir")
  case None
  with assms obtain made' where "make_dirs made' dir names (fs(dir \<mapsto> Directory)) = (True, fs')"
    by (auto simp: Let_def split: option.splits nat.splits)
  with None show ?thesis by (intro exI [of _ made'] exI [of _ "fs(dir \<mapsto> Directory)"]) simp
next
  case (Some entry)
  with assms show ?thesis by (cases entry) (auto simp: Let_def)
qed

lemma make_dirs_Ok:
  assumes "make_dirs made here names fs = (True, fs')"
  shows "fs' p = (if on_way here (here @ names) p then Some Directory else fs p) \<and>
    (on_way here (here @ names) p \<longrightarrow> fs p = None \<or> fs p = Some Directory)"
  using assms
proof (induction names arbitrary: made here fs)
  case Nil
  then show ?case by (auto simp: on_way_def strict_prefix_def)
next
  case (Cons name names)
  let ?dir = "here @ [name]"
  from make_dirs_step [OF Cons.prems] obtain made' fs1 where step: "make_dirs made' ?dir names fs1 = (True, fs')"
    "fs1 ?dir = Some Directory" "\<forall>p. p \<noteq> ?dir \<longrightarrow> fs1 p = fs p" "fs ?dir = None \<or> fs ?dir = Some Directory" by blast
  from Cons.IH [OF step(1)] step(2-4) on_way_step(2) [of ?dir "?dir @ names"] on_way_step(1) [of here name names p]
  show ?case by (cases "p = ?dir") simp_all
qed

lemma create_dir_all_Ok:
  assumes "create_dir_all made dir fs = (True, fs')"
  shows "fs' = with_dirs dir fs"
proof
  show "fs' p = with_dirs dir fs p" for p
    using make_dirs_Ok [OF assms [unfolded create_dir_all_def], of p] by (auto simp: with_dirs_def)
qed

lemma write_file_Ok:
  "write_file create written path content fs = (True, fs') \<Longrightarrow> fs' = fs(path \<mapsto> Regular content)"
  by (auto simp: write_file_def split: option.splits if_splits)

lemma ensure_certificates_Ok:
  assumes "ensure_certificates generate io cert key fs = (True, fs')" and "\<not> (fs cert \<noteq> None \<and> fs key \<noteq> None)"
  shows "\<exists>c k. generate subject_alt_names = Some (c, k) \<and>
    fs' = (with_dirs (butlast key) (with_dirs (butlast cert) fs))(cert \<mapsto> Regular c, key \<mapsto> Regular k)"
  using assms
  by (auto simp: ensure_certificates_def Let_def dest!: write_file_Ok create_dir_all_Ok
      split: option.splits if_splits prod.splits)

section \<open>Properties\<close>

text \<open>
  C35: a successful run leaves a usable pair. When \<open>ensure_certificates\<close> succeeds, both places exist.
  If both did before, nothing is changed. Otherwise they hold one generated pair (when both are the
  same place, the key alone), every missing directory on the way to either of them is there, no other
  place is changed, and, the places being different, the TLS listener starts with the pair whenever
  the parser reads what the generator wrote and the configuration takes it. From then on no run,
  however it goes, changes anything.
\<close>

theorem certificates_ensured:
  assumes "ensure_certificates generate io cert key fs = (True, fs')"
  shows "fs' cert \<noteq> None \<and> fs' key \<noteq> None \<and>
    (if fs cert \<noteq> None \<and> fs key \<noteq> None then fs' = fs
     else \<exists>pems. generate subject_alt_names = Some pems \<and>
       fs' key = Some (Regular (snd pems)) \<and> (cert \<noteq> key \<longrightarrow> fs' cert = Some (Regular (fst pems))) \<and>
       (\<forall>p. p \<noteq> cert \<and> p \<noteq> key \<longrightarrow> fs' p =
          (if fs p = None \<and> (on_way [] (butlast cert) p \<or> on_way [] (butlast key) p) then Some Directory else fs p)) \<and>
       (\<forall>parse_certs parse_key config certs k acceptor.
          cert \<noteq> key \<longrightarrow> parse_certs (fst pems) = Some certs \<longrightarrow> parse_key (snd pems) = Some (Some k) \<longrightarrow>
          config certs k = Ok acceptor \<longrightarrow>
          tls_acceptor parse_certs parse_key config cert key fs' = Ok (Some acceptor))) \<and>
    ensure_certificates generate' io' cert key fs' = (True, fs')"
proof (cases "fs cert \<noteq> None \<and> fs key \<noteq> None")
  case True
  with assms show ?thesis by (auto simp: ensure_certificates_def)
next
  case False
  from ensure_certificates_Ok [OF assms False] obtain c k where g: "generate subject_alt_names = Some (c, k)" and
    fs': "fs' = (with_dirs (butlast key) (with_dirs (butlast cert) fs))(cert \<mapsto> Regular c, key \<mapsto> Regular k)" by blast
  have "fs' p = (if fs p = None \<and> (on_way [] (butlast cert) p \<or> on_way [] (butlast key) p) then Some Directory else fs p)"
    if "p \<noteq> cert" "p \<noteq> key" for p
    using that by (simp add: fs' with_dirs_def)
  moreover have "tls_acceptor parse_certs parse_key config cert key fs' = Ok (Some acceptor)"
    if "cert \<noteq> key" "parse_certs c = Some certs" "parse_key k = Some (Some pkey)" "config certs pkey = Ok acceptor"
    for parse_certs parse_key config certs pkey acceptor
    using that by (simp add: fs' tls_acceptor_def load_certs_def load_key_def read_file_def)
  ultimately show ?thesis
    using False g by (auto simp: ensure_certificates_def fs')
qed

text \<open>An empty tree, and a run in which every operation succeeds.\<close>

definition empty_tree :: file_system where
  "empty_tree = [[] \<mapsto> Directory]"

definition good_io :: file_io where
  "good_io = \<lparr>io_cert_dir = None, io_key_dir = None, io_cert_create = True, io_cert_write = None,
     io_key_create = True, io_key_write = None\<rparr>"

theorem certificates_ensured_witness:
  "let fs = snd (ensure_certificates (\<lambda>names. Some ([1], [2])) good_io [lit ''tls'', lit ''c''] [lit ''k''] empty_tree) in
   fs [lit ''tls'', lit ''c''] = Some (Regular [1]) \<and> fs [lit ''k''] = Some (Regular [2]) \<and>
   fs [lit ''tls''] = Some Directory \<and> fs [lit ''x''] = None"
proof -
  let ?fs = "empty_tree([lit ''tls''] \<mapsto> Directory, [lit ''tls'', lit ''c''] \<mapsto> Regular [1], [lit ''k''] \<mapsto> Regular [2])"
  have e: "ensure_certificates (\<lambda>names. Some ([1], [2])) good_io [lit ''tls'', lit ''c''] [lit ''k''] empty_tree = (True, ?fs)"
    by (simp add: ensure_certificates_def create_dir_all_def write_file_def empty_tree_def good_io_def)
  have "on_way [] [lit ''tls''] [lit ''tls'']" "\<not> on_way [] [lit ''tls''] [lit ''x'']"
    by (simp_all add: on_way_def strict_prefix_def)
  with certificates_ensured [OF e, of "\<lambda>_. None" good_io] e show ?thesis by (simp add: empty_tree_def)
qed

text \<open>
  A run that is interrupted in the write of the key leaves a pair that no later run repairs: both
  files exist, so the next start takes them as they are, and a key file without a key leaves the
  broker without TLS.
\<close>

theorem interrupted_key_stays:
  assumes "generate subject_alt_names = Some (cert_pem, key_pem)" and "fs key = None" and "cert \<noteq> key"
    and "create_dir_all (io_cert_dir io) (butlast cert) fs = (True, fs1)"
    and "create_dir_all (io_key_dir io) (butlast key) fs1 = (True, fs2)"
    and "write_file (io_cert_create io) (io_cert_write io) cert cert_pem fs2 = (True, fs3)"
    and "io_key_create io" and "fs3 key = None" and "fs3 (butlast key) = Some Directory" and "io_key_write io = Some 0"
  shows "\<exists>fs'. ensure_certificates generate io cert key fs = (False, fs') \<and>
    (\<forall>generate' io'. ensure_certificates generate' io' cert key fs' = (True, fs')) \<and>
    (parse_key [] = Some None \<longrightarrow> tls_acceptor parse_certs parse_key config cert key fs' = Ok None)"
proof -
  have "ensure_certificates generate io cert key fs = (False, fs3(key \<mapsto> Regular []))"
    using assms by (simp add: ensure_certificates_def write_file_def [of True "Some 0"])
  moreover have "fs3 cert = Some (Regular cert_pem)" using write_file_Ok [OF assms(6)] by simp
  ultimately show ?thesis using assms(3)
    by (auto simp: ensure_certificates_def tls_acceptor_def load_key_def read_file_def split: option.split)
qed

text \<open>A certificate whose key file is missing is overwritten.\<close>

theorem lone_certificate_overwritten:
  assumes "generate subject_alt_names = Some (cert_pem, key_pem)" and "fs cert = Some (Regular own)" and "fs key = None"
    and "ensure_certificates generate io cert key fs = (True, fs')"
  shows "fs' cert = Some (Regular cert_pem)"
proof -
  have "cert \<noteq> key" using assms(2,3) by auto
  with ensure_certificates_Ok [OF assms(4)] assms(1-3) show ?thesis by auto
qed

end
