(* ===== verification/Metrics.thy ===== *)
theory Metrics imports Numbers Recovery begin

text \<open>
  The metrics exporter, \<open>src/metrics.rs\<close>: the text it answers a scrape with, as a function of the
  three numbers it has loaded, and a reader of that text by which the answer is proved right. The
  listener and the loads are in the theories Main_Program and Scrape.
\<close>

section \<open>The answer\<close>

definition newline :: rstr where
  "newline = [10]"

definition crlf :: rstr where
  "crlf = [13, 10]"

text \<open>The format string of the body, with the three counters.\<close>

definition metrics_body :: "nat \<Rightarrow> u64 \<Rightarrow> u64 \<Rightarrow> rstr" where
  "metrics_body active_connections messages_published subs =
     lit ''# HELP pipistrelle_connections_total Total number of active client connections'' @ newline @
     lit ''# TYPE pipistrelle_connections_total gauge'' @ newline @
     lit ''pipistrelle_connections_total '' @ decimal active_connections @ newline @
     lit ''# HELP pipistrelle_messages_published_total Total number of messages published'' @ newline @
     lit ''# TYPE pipistrelle_messages_published_total counter'' @ newline @
     lit ''pipistrelle_messages_published_total '' @ decimal (unat messages_published) @ newline @
     lit ''# HELP pipistrelle_subscriptions_total Total number of subscriptions active/added'' @ newline @
     lit ''# TYPE pipistrelle_subscriptions_total counter'' @ newline @
     lit ''pipistrelle_subscriptions_total '' @ decimal (unat subs) @ newline"

definition metrics_response :: "nat \<Rightarrow> u64 \<Rightarrow> u64 \<Rightarrow> rstr" where
  "metrics_response active_connections messages_published subs =
     (let body = metrics_body active_connections messages_published subs in
      lit ''HTTP/1.1 200 OK'' @ crlf @
      lit ''Content-Type: text/plain; version=0.0.4; charset=utf-8'' @ crlf @
      lit ''Content-Length: '' @ decimal (length body) @ crlf @
      lit ''Connection: close'' @ crlf @
      crlf @
      body)"

section \<open>A reader\<close>

text \<open>
  The header lines of an answer (each ends in a carriage return) up to the empty one, and the rest;
  the length the header announces; the samples of a body: its lines that are no comments, split at
  the space.
\<close>

definition http_parse :: "rstr \<Rightarrow> rstr list \<times> rstr" where
  "http_parse resp =
     (let ls = split_at 10 resp in
      (takeWhile (\<lambda>l. l \<noteq> [13]) ls, join_with 10 (tl (dropWhile (\<lambda>l. l \<noteq> [13]) ls))))"

definition content_length :: "rstr list \<Rightarrow> nat option" where
  "content_length headers =
     map_option (\<lambda>l. number 0 (butlast (drop (length (lit ''Content-Length: '')) l)))
       (find (starts_with (lit ''Content-Length: '')) headers)"

definition sample :: "rstr \<Rightarrow> (rstr \<times> nat) option" where
  "sample l =
     (if l = [] \<or> hd l = of_char CHR ''#'' then None
      else case split_at 32 l of [name, val] \<Rightarrow> Some (name, number 0 val) | _ \<Rightarrow> None)"

definition samples :: "rstr \<Rightarrow> (rstr \<times> nat) list" where
  "samples body = List.map_filter sample (split_at 10 body)"

section \<open>Lemmas\<close>

lemma split_line:
  assumes "10 \<notin> set l"
  shows "split_at 10 (l @ newline @ rest) = l # split_at 10 rest" and "split_at 10 (l @ newline) = [l, []]"
  using split_at_append(1) [OF assms, of rest] split_at_append(1) [OF assms, of "[]"] by (simp_all add: newline_def)

lemma split_crlf:
  assumes "10 \<notin> set l"
  shows "split_at 10 (l @ crlf @ rest) = (l @ [13]) # split_at 10 rest"
  using split_at_append(1) [of 10 "l @ [13]" rest] assms by (simp add: crlf_def)

lemma decimal_no: "10 \<notin> set (decimal n)" "13 \<notin> set (decimal n)" "32 \<notin> set (decimal n)"
  using decimal_digits [of n] digit_neq by blast+

lemma sample_line:
  assumes "name \<noteq> []" and "hd name \<noteq> of_char CHR ''#''" and "32 \<notin> set name"
  shows "sample ((name @ [32]) @ decimal n) = Some (name, n)"
  using assms split_at_append(1) [OF assms(3), of "decimal n"] split_at_append(2) [of 32 "decimal n"] decimal_no(3) [of n]
  by (cases name) (auto simp: sample_def number_decimal)

lemma sample_Nil [simp]: "sample [] = None"
  by (simp add: sample_def)

lemma samples_simps:
  "samples (l @ newline @ rest) = (case sample l of Some s \<Rightarrow> s # samples rest | None \<Rightarrow> samples rest)"
  "samples (l @ newline) = (case sample l of Some s \<Rightarrow> [s] | None \<Rightarrow> [])" if "10 \<notin> set l"
  using that by (simp_all add: samples_def split_line map_filter_simps split: option.split)

lemma body_samples:
  "samples (metrics_body a p s) =
    [(lit ''pipistrelle_connections_total'', a),
     (lit ''pipistrelle_messages_published_total'', unat p),
     (lit ''pipistrelle_subscriptions_total'', unat s)]"
proof -
  let ?c1 = "lit ''# HELP pipistrelle_connections_total Total number of active client connections''"
  let ?c2 = "lit ''# TYPE pipistrelle_connections_total gauge''"
  let ?c3 = "lit ''# HELP pipistrelle_messages_published_total Total number of messages published''"
  let ?c4 = "lit ''# TYPE pipistrelle_messages_published_total counter''"
  let ?c5 = "lit ''# HELP pipistrelle_subscriptions_total Total number of subscriptions active/added''"
  let ?c6 = "lit ''# TYPE pipistrelle_subscriptions_total counter''"
  let ?n1 = "lit ''pipistrelle_connections_total''"
  let ?n2 = "lit ''pipistrelle_messages_published_total''"
  let ?n3 = "lit ''pipistrelle_subscriptions_total''"
  have c: "10 \<notin> set ?c1" "10 \<notin> set ?c2" "10 \<notin> set ?c3" "10 \<notin> set ?c4" "10 \<notin> set ?c5" "10 \<notin> set ?c6"
    by simp_all
  have n: "10 \<notin> set ?n1" "10 \<notin> set ?n2" "10 \<notin> set ?n3" by simp_all
  then have l: "10 \<notin> set ((?n1 @ [32]) @ decimal a)" "10 \<notin> set ((?n2 @ [32]) @ decimal (unat p))"
    "10 \<notin> set ((?n3 @ [32]) @ decimal (unat s))"
    using decimal_no(1) by auto
  have sc: "sample ?c1 = None" "sample ?c2 = None" "sample ?c3 = None" "sample ?c4 = None" "sample ?c5 = None"
    "sample ?c6 = None"
    by (simp_all add: sample_def)
  have sn: "sample ((?n1 @ [32]) @ decimal a) = Some (?n1, a)"
    "sample ((?n2 @ [32]) @ decimal (unat p)) = Some (?n2, unat p)"
    "sample ((?n3 @ [32]) @ decimal (unat s)) = Some (?n3, unat s)"
    by (rule sample_line; simp)+
  have b: "metrics_body a p s = ?c1 @ newline @ ?c2 @ newline @ ((?n1 @ [32]) @ decimal a) @ newline @
      ?c3 @ newline @ ?c4 @ newline @ ((?n2 @ [32]) @ decimal (unat p)) @ newline @
      ?c5 @ newline @ ?c6 @ newline @ ((?n3 @ [32]) @ decimal (unat s)) @ newline"
    by (simp add: metrics_body_def)
  show ?thesis
    unfolding b by (simp only: samples_simps [OF c(1)] samples_simps [OF c(2)] samples_simps [OF c(3)]
        samples_simps [OF c(4)] samples_simps [OF c(5)] samples_simps [OF c(6)] samples_simps [OF l(1)]
        samples_simps [OF l(2)] samples_simps [OF l(3)] sc sn option.case)
qed

lemma parse_header:
  assumes "10 \<notin> set l" and "l \<noteq> []"
  shows "http_parse (l @ crlf @ rest) = ((l @ [13]) # fst (http_parse rest), snd (http_parse rest))"
    and "http_parse (crlf @ rest) = ([], rest)"
  using split_crlf [OF assms(1), of rest] split_crlf [of "[]" rest] assms(2)
  by (simp_all add: http_parse_def Let_def)

text \<open>
  The answer is a well-formed message: its header announces exactly the length of what follows the
  empty line, whatever the numbers are, and a reader of the body finds three samples, each number
  read back from its decimal form.
\<close>

lemma response_read:
  "let (headers, body) = http_parse (metrics_response a p s) in
     content_length headers = Some (length body) \<and>
     samples body =
       [(lit ''pipistrelle_connections_total'', a),
        (lit ''pipistrelle_messages_published_total'', unat p),
        (lit ''pipistrelle_subscriptions_total'', unat s)]"
proof -
  let ?body = "metrics_body a p s"
  let ?h1 = "lit ''HTTP/1.1 200 OK''"
  let ?h2 = "lit ''Content-Type: text/plain; version=0.0.4; charset=utf-8''"
  let ?h3 = "lit ''Content-Length: '' @ decimal (length ?body)"
  let ?h4 = "lit ''Connection: close''"
  have l: "10 \<notin> set ?h1" "10 \<notin> set ?h2" "10 \<notin> set ?h3" "10 \<notin> set ?h4"
    using decimal_no(1) [of "length ?body"] by simp_all
  have n: "?h1 \<noteq> []" "?h2 \<noteq> []" "?h3 \<noteq> []" "?h4 \<noteq> []" by simp_all
  have r: "metrics_response a p s = ?h1 @ crlf @ ?h2 @ crlf @ ?h3 @ crlf @ ?h4 @ crlf @ crlf @ ?body"
    by (simp only: metrics_response_def Let_def append_assoc)
  have p: "http_parse (metrics_response a p s) = ([?h1 @ [13], ?h2 @ [13], ?h3 @ [13], ?h4 @ [13]], ?body)"
    unfolding r by (simp only: parse_header(1) [OF l(1) n(1)] parse_header(1) [OF l(2) n(2)]
        parse_header(1) [OF l(3) n(3)] parse_header(1) [OF l(4) n(4)] parse_header(2) [OF l(1) n(1)] fst_conv snd_conv)
  have "content_length [?h1 @ [13], ?h2 @ [13], ?h3 @ [13], ?h4 @ [13]] = Some (length ?body)"
    by (simp add: content_length_def starts_with_def number_decimal)
  then show ?thesis by (simp only: p Let_def prod.case body_samples)
qed

text \<open>
  What the gauge of connections counts is the sessions of the map: after a restart it counts every
  stored session, although no client is connected.
\<close>

theorem offline_sessions_counted:
  "length (b_sessions (restored_broker auth c pid topic payload qos)) = 1 \<and>
   \<not> cs_receiver (session_at (restored_broker auth c pid topic payload qos) 0)"
  by (simp add: restored_broker_def all_ok_def restore_sessions_from_db_def load_all_sessions_def
      load_all_subscriptions_def load_all_in_flight_def empty_database_def save_session_def save_in_flight_def
      new_broker_def alloc_session_def new_session_def on_session_def session_at_def add_in_flight_def)

end
