(* ===== verification/Bridge_Task.thy ===== *)
theory Bridge_Task imports Bridge begin

text \<open>
  The whole task of the bridge, \<open>src/bridge.rs\<close>: \<open>connect_and_run_bridge\<close> from the first connection
  to the end of its loop, and the loop of \<open>start_bridge_engine\<close> around it. What the network answers
  is a parameter.
\<close>

section \<open>One connection\<close>

text \<open>
  The answers on the way to the main loop: the TCP connection, the host as a server name, the TLS
  handshake, the writes of CONNECT and SUBSCRIBE with their flushes, and the first read, which times
  out (\<open>None\<close>), fails (\<open>Some None\<close>) or gives bytes.
\<close>

record dial_io =
  dl_connect :: bool
  dl_server_name :: bool
  dl_handshake :: bool
  dl_write_connect :: bool
  dl_first_read :: "bytes option option"
  dl_write_subscribe :: bool

text \<open>The read buffer behind the CONNACK and what was written.\<close>

definition bridge_dial :: "rstr \<Rightarrow> rstr \<Rightarrow> dial_io \<Rightarrow> (bytes \<times> bytes, unit) outcome" where
  "bridge_dial user pass io =
     (if \<not> dl_connect io then Err ()
      else if \<not> dl_server_name io then Err ()
      else if \<not> dl_handshake io then Err ()
      else if \<not> dl_write_connect io then Err ()
      else case dl_first_read io of
        None \<Rightarrow> Err ()
      | Some None \<Rightarrow> Err ()
      | Some (Some read_buf) \<Rightarrow>
          if read_buf = [] then Err ()
          else and_then (bridge_connack read_buf) (\<lambda>rest.
            if \<not> dl_write_subscribe io then Err ()
            else Ok (rest, encode_packet (bridge_connect user pass) @ encode_packet bridge_subscribe)))"

definition connect_and_run_bridge :: "rstr \<Rightarrow> rstr \<Rightarrow> dial_io \<Rightarrow> bridge_event list \<Rightarrow> broker \<Rightarrow> bridge_result" where
  "connect_and_run_bridge user pass io evs b =
     (case bridge_dial user pass io of
        Ok (read_buf, written) \<Rightarrow> bridge_loop evs \<lparr>bs_broker = b, bs_read_buf = read_buf, bs_written = written\<rparr>
      | Err e \<Rightarrow> BridgeError b
      | Panic \<Rightarrow> BridgePanic b)"

section \<open>All connections\<close>

text \<open>
  The loop of the task over the connections it makes, with the broker it leaves and the seconds it
  waits after each. A panic ends the task; a connection that goes on is the last one.
\<close>

fun bridge_task :: "rstr \<Rightarrow> rstr \<Rightarrow> (dial_io \<times> bridge_event list) list \<Rightarrow> nat \<Rightarrow> broker \<Rightarrow> broker \<times> nat list" where
  "bridge_task user pass [] backoff b = (b, [])"
| "bridge_task user pass ((io, evs) # conns) backoff b =
     (case connect_and_run_bridge user pass io evs b of
        Looping s \<Rightarrow> (bs_broker s, [])
      | BridgeError b' \<Rightarrow>
          let (backoff', wait) = reconnect False backoff;
              (b'', waits) = bridge_task user pass conns backoff' b' in (b'', wait # waits)
      | BridgePanic b' \<Rightarrow> (b', []))"

lemma bridge_loop_result_keeps:
  assumes "broker_ok (bs_broker s)"
  shows "bridge_keeps (bs_broker s) (result_broker (bridge_loop evs s))"
  using assms
proof (induction evs arbitrary: s)
  case (Cons ev evs)
  note turn = bridge_turn_keeps [OF Cons.prems, of ev]
  show ?case
  proof (cases "bridge_turn ev s")
    case (Looping s1)
    with turn have "bridge_keeps (bs_broker s) (bs_broker s1)" by simp
    with Cons.IH [of s1] Looping show ?thesis by (auto simp: bridge_keeps_def intro: same_trans)
  qed (use turn in simp_all)
qed (simp add: bridge_keeps_def)

lemma connection_keeps:
  assumes "broker_ok b"
  shows "bridge_keeps b (result_broker (connect_and_run_bridge user pass io evs b))"
  using assms bridge_loop_result_keeps [of "\<lparr>bs_broker = b, bs_read_buf = rb, bs_written = w\<rparr>" evs for rb w]
  by (auto simp: connect_and_run_bridge_def bridge_keeps_def split: outcome.split prod.split)

lemma bridge_task_waits:
  "\<exists>n. snd (bridge_task user pass conns backoff b) = reconnect_waits (replicate n False) backoff"
proof (induction conns arbitrary: backoff b)
  case Nil
  show ?case by (intro exI [of _ 0]) simp
next
  case (Cons conn conns)
  obtain io evs where conn: "conn = (io, evs)" by (cases conn)
  show ?case
  proof (cases "connect_and_run_bridge user pass io evs b")
    case (BridgeError b')
    from Cons [of "min (backoff * 2) 60" b'] obtain n where
      "snd (bridge_task user pass conns (min (backoff * 2) 60) b') = reconnect_waits (replicate n False) (min (backoff * 2) 60)" ..
    with BridgeError conn show ?thesis by (intro exI [of _ "Suc n"]) (auto simp: Let_def split: prod.split)
  qed (use conn in \<open>auto intro: exI [of _ 0]\<close>)
qed

lemma bridge_task_keeps: "broker_ok b \<Longrightarrow> bridge_keeps b (fst (bridge_task user pass conns backoff b))"
proof (induction conns arbitrary: backoff b)
  case (Cons conn conns)
  obtain io evs where conn: "conn = (io, evs)" by (cases conn)
  note keeps = connection_keeps [OF Cons.prems, of user pass io evs]
  show ?case
  proof (cases "connect_and_run_bridge user pass io evs b")
    case (BridgeError b')
    with keeps have "bridge_keeps b b'" by simp
    with Cons.IH [of b' "min (backoff * 2) 60"] BridgeError conn show ?thesis
      by (auto simp: Let_def bridge_keeps_def split: prod.split intro: same_trans)
  qed (use keeps conn in simp_all)
qed (simp add: bridge_keeps_def)

text \<open>
  C33: the bridge contains the remote broker. Over the whole life of the task, whatever the network
  answers and the remote broker sends, and however many connections are made, nothing of it is put on
  the channel to the remote broker, so a message cannot travel in a circle through this bridge; router,
  session map and configuration stay as they are and the broker keeps its invariant; and the waits
  between the connections are 10, 15, 25 and 45 seconds and then 65 seconds for ever, however well the
  connections in between went.
\<close>

theorem bridge_contains_remote:
  assumes "broker_ok b" and "bridge_task user pass conns 5 b = (b', waits)"
  shows "b_bridge_sender b' = b_bridge_sender b \<and> b_router b' = b_router b \<and> b_sessions b' = b_sessions b \<and>
    b_auth b' = b_auth b \<and> broker_ok b' \<and>
    waits = take (length waits) ([10, 15, 25, 45] @ replicate (length waits) 65)"
proof -
  obtain n where "waits = reconnect_waits (replicate n False) 5"
    using bridge_task_waits [of user pass conns 5 b] assms(2) by auto
  moreover have "reconnect_waits (replicate n False) 5 = take n ([10, 15, 25, 45] @ replicate n 65)" for n
  proof -
    have "[65, 65, 65, 65] @ replicate k (65 :: nat) = replicate (k + 4) 65" for k by (simp add: eval_nat_numeral)
    from arg_cong [OF this, of "take k" for k] show ?thesis
      by (cases n; cases "n - 1"; cases "n - 2"; cases "n - 3") (auto simp: Let_def waits_60)
  qed
  ultimately have w: "waits = take n ([10, 15, 25, 45] @ replicate n 65)" by simp
  then have "length waits = n" by simp
  with w bridge_task_keeps [OF assms(1), of user pass conns 5] assms(2) show ?thesis
    by (simp add: bridge_keeps_def same_sessions_def)
qed

text \<open>Two connections: the host cannot be reached, and the remote broker sends a message and hangs up.\<close>

theorem bridge_contains_remote_witness:
  "let b = demo_broker\<lparr>b_bridge_sender := Some []\<rparr>;
       unreachable = \<lparr>dl_connect = False, dl_server_name = True, dl_handshake = True, dl_write_connect = True,
         dl_first_read = None, dl_write_subscribe = True\<rparr>;
       reached = unreachable\<lparr>dl_connect := True, dl_first_read := Some (Some [0x20, 3, 0, 0, 0])\<rparr>;
       (b', waits) = bridge_task [] [] [(unreachable, []), (reached, [RemoteBytes [0xD0, 0], RemoteClosed])] 5 b in
   waits = [10, 15] \<and> b_bridge_sender b' = Some []"
proof -
  let ?b = "demo_broker\<lparr>b_bridge_sender := Some []\<rparr>"
  let ?unreachable = "\<lparr>dl_connect = False, dl_server_name = True, dl_handshake = True, dl_write_connect = True,
         dl_first_read = None, dl_write_subscribe = True\<rparr>"
  let ?reached = "?unreachable\<lparr>dl_connect := True, dl_first_read := Some (Some [0x20, 3, 0, 0, 0])\<rparr>"
  let ?conns = "[(?unreachable, []), (?reached, [RemoteBytes [0xD0, 0], RemoteClosed])]"
  have ok: "broker_ok ?b" using demo_broker_facts(1) broker_ok_same [of ?b demo_broker] by simp
  have "bridge_connack [0x20, 3, 0, 0, 0] = Ok []"
    by (simp add: bridge_connack_def decode_connack_def connack_properties_decode_def connack_properties_default_def
        decode_eval cong: and_then_weak_cong)
  then have "bridge_dial [] [] ?reached = Ok ([], encode_packet (bridge_connect [] []) @ encode_packet bridge_subscribe)"
    by (simp add: bridge_dial_def)
  moreover have "bridge_drain ?b [0xD0, 0] = Waiting ?b []"
    by (subst bridge_drain.simps) (simp add: decode_eval bridge.loop_Nil cong: and_then_weak_cong)
  ultimately have second: "connect_and_run_bridge [] [] ?reached [RemoteBytes [0xD0, 0], RemoteClosed] ?b = BridgeError ?b"
    by (simp add: connect_and_run_bridge_def)
  have "connect_and_run_bridge [] [] ?unreachable [] ?b = BridgeError ?b"
    by (simp add: connect_and_run_bridge_def bridge_dial_def)
  with second have t: "bridge_task [] [] ?conns 5 ?b = (?b, [10, 15])" by simp
  from bridge_contains_remote [OF ok t] t show ?thesis by (simp add: Let_def del: bridge_task.simps)
qed

end
