(* ===== verification/Main_Program.thy ===== *)
theory Main_Program imports Serving Startup Certificates Metrics Bridge_Task begin

text \<open>
  \<open>main\<close> of \<open>src/main.rs\<close> from its first line to the last listener, \<open>Persistence::new\<close>, and the accept
  loops. What the file system, the database, the network and the libraries answer is a parameter; the
  result is the broker with the listeners that run, an error that \<open>main\<close> returns, or a panic.
\<close>

section \<open>Opening the database\<close>

text \<open>A database file: the tables it has.\<close>

record stored =
  st_sessions :: "(rstr \<times> session_row) list option"
  st_subscriptions :: "((rstr \<times> rstr) \<times> subscription_row) list option"
  st_in_flight :: "((rstr \<times> u16) \<times> in_flight_row) list option"

text \<open>\<open>CREATE TABLE IF NOT EXISTS\<close>.\<close>

definition create_table :: "'r list option \<Rightarrow> 'r list" where
  "create_table existing = (case existing of None \<Rightarrow> [] | Some rows \<Rightarrow> rows)"

text \<open>
  \<open>open_file\<close> is \<open>Connection::open\<close>, which makes a missing file; the flags say whether the pragmas and
  the three statements succeed. Every failure is an \<open>expect\<close>.
\<close>

definition persistence_new ::
  "environment \<Rightarrow> (rstr \<Rightarrow> stored option) \<Rightarrow> bool \<times> bool \<times> bool \<times> bool \<Rightarrow> (database, 'e) outcome" where
  "persistence_new env open_file oks =
     (let db_path = (case env (lit ''PIPISTRELLE_DB_PATH'') of Some path \<Rightarrow> path | None \<Rightarrow> lit ''pipistrelle.db'');
          (pragmas, sessions, subscriptions_ok, in_flight) = oks in
      case open_file db_path of
        None \<Rightarrow> Panic
      | Some file \<Rightarrow>
          if \<not> pragmas then Panic
          else if \<not> sessions then Panic
          else if \<not> subscriptions_ok then Panic
          else if \<not> in_flight then Panic
          else Ok \<lparr>db_sessions = create_table (st_sessions file),
            db_subscriptions = create_table (st_subscriptions file),
            db_in_flight = create_table (st_in_flight file)\<rparr>)"

section \<open>The start\<close>

datatype service = Metrics_Service | Plain_Service | Tls_Service | Ws_Service

text \<open>
  \<open>wd_place\<close>: the place a path names. \<open>wd_bind\<close>: can the port be bound for the service, at its moment
  of the start, when the broker has the given ones? Between two binds another process may take or
  free a port, so each service has an answer of its own.
\<close>

record ('c, 'k, 'a, 'e) world =
  wd_logger :: bool
  wd_env :: environment
  wd_args :: "rstr list"
  wd_generate :: "rstr list \<Rightarrow> (bytes \<times> bytes) option"
  wd_file_io :: file_io
  wd_place :: "rstr \<Rightarrow> place"
  wd_files :: file_system
  wd_parse_certs :: "bytes \<Rightarrow> 'c list option"
  wd_parse_key :: "bytes \<Rightarrow> 'k option option"
  wd_tls_config :: "'c list \<Rightarrow> 'k \<Rightarrow> ('a, 'e) outcome"
  wd_parse_credentials :: "rstr \<Rightarrow> user_config list option"
  wd_credentials :: credentials_env
  wd_open_file :: "rstr \<Rightarrow> stored option"
  wd_sql :: "bool \<times> bool \<times> bool \<times> bool"
  wd_loads :: "bool \<times> bool \<times> bool"
  wd_bind :: "service \<Rightarrow> u16 list \<Rightarrow> u16 \<Rightarrow> bool"

datatype 'e main_error = Logger_Set | Invalid_Arguments | Tls_Refused 'e | Cannot_Bind service

type_synonym listeners = "(service \<times> u16) list"

text \<open>The metrics server starts if it can; the other three listeners stop \<open>main\<close> if they cannot.\<close>

definition start_metrics_server :: "('c, 'k, 'a, 'e) world \<Rightarrow> u16 \<Rightarrow> listeners \<Rightarrow> listeners" where
  "start_metrics_server w port bound =
     (if wd_bind w Metrics_Service (map snd bound) port then bound @ [(Metrics_Service, port)] else bound)"

definition bind_service :: "('c, 'k, 'a, 'e) world \<Rightarrow> service \<Rightarrow> u16 \<Rightarrow> listeners \<Rightarrow> (listeners, 'e main_error) outcome" where
  "bind_service w service port bound =
     (if wd_bind w service (map snd bound) port then Ok (bound @ [(service, port)]) else Err (Cannot_Bind service))"

text \<open>The acceptor, if TLS is to be served.\<close>

definition main_acceptor :: "('c, 'k, 'a, 'e) world \<Rightarrow> rstr \<Rightarrow> rstr \<Rightarrow> ('a option, 'e) outcome" where
  "main_acceptor w cert_file key_file =
     (let cert = wd_place w cert_file;
          key = wd_place w key_file;
          (ok, fs) = ensure_certificates (wd_generate w) (wd_file_io w) cert key (wd_files w) in
      tls_acceptor (wd_parse_certs w) (wd_parse_key w) (wd_tls_config w) cert key fs)"

definition main_start :: "('c, 'k, 'a, 'e) world \<Rightarrow> (broker \<times> listeners, 'e main_error) outcome" where
  "main_start w =
     (if \<not> wd_logger w then Err Logger_Set
      else
        let ps = ports (wd_env w) in
        case certificate_paths (wd_args w) of
          None \<Rightarrow> Err Invalid_Arguments
        | Some (cert_file, key_file) \<Rightarrow>
            (case main_acceptor w cert_file key_file of
               Err e \<Rightarrow> Err (Tls_Refused e)
             | Panic \<Rightarrow> Panic
             | Ok acceptor \<Rightarrow>
                 and_then (persistence_new (wd_env w) (wd_open_file w) (wd_sql w)) (\<lambda>db.
                   let b = start_broker (wd_parse_credentials w) (wd_credentials w) (wd_loads w) db (wd_env w);
                       bound = start_metrics_server w (ps_metrics ps) [] in
                   and_then (bind_service w Plain_Service (ps_tcp ps) bound) (\<lambda>bound.
                   and_then (if acceptor = None then Ok bound else bind_service w Tls_Service (ps_tls ps) bound) (\<lambda>bound.
                   and_then (bind_service w Ws_Service (ps_ws ps) bound) (\<lambda>bound.
                     Ok (b, bound)))))))"

section \<open>The accept loops\<close>

text \<open>
  What \<open>accept\<close> gives: a socket, with whether its TLS or WebSocket handshake succeeds (for a scrape,
  whether the socket becomes readable), or an error. Each loop goes on in any case.
\<close>

datatype accept_event = Accepted_Socket bool | Accept_Failed

text \<open>Does the event open a connection, that is a task that runs \<open>handle_connection\<close>?\<close>

fun opens_connection :: "service \<Rightarrow> accept_event \<Rightarrow> bool" where
  "opens_connection Plain_Service (Accepted_Socket handshake_ok) = True"
| "opens_connection Tls_Service (Accepted_Socket handshake_ok) = handshake_ok"
| "opens_connection Ws_Service (Accepted_Socket handshake_ok) = handshake_ok"
| "opens_connection Metrics_Service (Accepted_Socket readable) = False"
| "opens_connection service Accept_Failed = False"

text \<open>
  What a scrape is answered. The size of the session map and the two counters are loaded one after the
  other, so other tasks may run between the loads: the state is given as each of them finds it.
\<close>

fun scrape :: "accept_event \<Rightarrow> broker \<Rightarrow> broker \<Rightarrow> broker \<Rightarrow> bytes option" where
  "scrape (Accepted_Socket readable) b1 b2 b3 =
     (if readable
      then Some (metrics_response (length (b_sessions b1)) (b_messages_published b2) (b_subscriptions b3))
      else None)"
| "scrape Accept_Failed b1 b2 b3 = None"

fun accept_loops :: "(service \<times> accept_event) list \<Rightarrow> machine \<Rightarrow> machine" where
  "accept_loops [] m = m"
| "accept_loops ((service, ev) # evs) m =
     accept_loops evs
       (if opens_connection service ev then m\<lparr>m_threads := m_threads m @ [\<lparr>th_actions = [], th_control = Opening\<rparr>]\<rparr> else m)"

text \<open>A way to the remote broker that succeeds is the step of the machine that brings the link up.\<close>

lemma dial_links:
  assumes "bridge_dial user pass io = Ok (rest, out)" and "b_bridge_sender (m_broker m) \<noteq> None"
    and "k < length (m_threads m)" and "m_threads m ! k = \<lparr>th_actions = [], th_control = Bridge_Down\<rparr>"
  shows "machine_step verify m (set_thread k \<lparr>th_actions = [], th_control = Bridge_Up rest out\<rparr> (m_broker m) m)"
proof -
  from assms(1) obtain data where data: "bridge_connack data = Ok rest"
    and out: "out = encode_packet (bridge_connect user pass) @ encode_packet bridge_subscribe"
    by (auto simp: bridge_dial_def and_then_Ok_iff split: if_splits option.splits)
  from machine_step.link_up [OF assms(3,4,2) data] show ?thesis by (simp add: out)
qed

text \<open>Whatever arrives at the listeners is steps of the machine, one for each connection.\<close>

lemma accept_loops_runs:
  "runs_to verify m (accept_loops evs m) \<and> m_broker (accept_loops evs m) = m_broker m \<and>
   m_threads (accept_loops evs m) = m_threads m @
     replicate (length (filter (\<lambda>(service, ev). opens_connection service ev) evs)) (idle Opening)"
proof (induction evs arbitrary: m)
  case (Cons sev evs)
  obtain service ev where sev: "sev = (service, ev)" by (cases sev)
  from Cons [of "m\<lparr>m_threads := m_threads m @ [idle Opening]\<rparr>"] Cons [of m] show ?case
    by (auto simp: sev intro: runs_step [OF machine_step.accept])
qed (simp add: runs_to_def)

section \<open>Properties\<close>

text \<open>
  Documented behaviour of \<open>bind\<close>: a port other than 0 that is bound is not bound again. And a start
  during which no other process frees a port: what can be bound later could be bound at the first
  bind.
\<close>

definition ports_exclusive :: "('c, 'k, 'a, 'e) world \<Rightarrow> bool" where
  "ports_exclusive w \<longleftrightarrow> (\<forall>service bound p. wd_bind w service bound p \<longrightarrow> p \<noteq> 0 \<longrightarrow> p \<notin> set bound)"

definition no_port_freed :: "('c, 'k, 'a, 'e) world \<Rightarrow> bool" where
  "no_port_freed w \<longleftrightarrow> (\<forall>service bound p. wd_bind w service bound p \<longrightarrow> wd_bind w Metrics_Service [] p)"

text \<open>The stored subscription identifiers are numbers that the format can carry.\<close>

definition stored_ok :: "stored \<Rightarrow> bool" where
  "stored_ok file \<longleftrightarrow> database_ok \<lparr>db_sessions = create_table (st_sessions file),
     db_subscriptions = create_table (st_subscriptions file), db_in_flight = create_table (st_in_flight file)\<rparr>"

definition serves_tls :: "('c, 'k, 'a, 'e) world \<Rightarrow> bool" where
  "serves_tls w \<longleftrightarrow> (\<exists>cert key acceptor. certificate_paths (wd_args w) = Some (cert, key) \<and>
     main_acceptor w cert key = Ok (Some acceptor))"

lemma persistence_new_ok:
  assumes "persistence_new env open_file oks = Ok db" and "\<And>path file. open_file path = Some file \<Longrightarrow> stored_ok file"
  shows "database_ok db"
  using assms by (auto simp: persistence_new_def Let_def stored_ok_def split: prod.splits option.splits if_splits)

lemma main_start_Ok:
  fixes w :: "('c, 'k, 'a, 'e) world"
  assumes "main_start w = Ok (b, bound)"
  shows "\<exists>db metrics tls. persistence_new (wd_env w) (wd_open_file w) (wd_sql w) = (Ok db :: (database, 'e main_error) outcome) \<and>
    b = start_broker (wd_parse_credentials w) (wd_credentials w) (wd_loads w) db (wd_env w) \<and>
    metrics = (if wd_bind w Metrics_Service [] (ps_metrics (ports (wd_env w))) then [(Metrics_Service, ps_metrics (ports (wd_env w)))] else []) \<and>
    tls = (if serves_tls w then [(Tls_Service, ps_tls (ports (wd_env w)))] else []) \<and>
    bound = metrics @ [(Plain_Service, ps_tcp (ports (wd_env w)))] @ tls @ [(Ws_Service, ps_ws (ports (wd_env w)))] \<and>
    wd_bind w Plain_Service (map snd metrics) (ps_tcp (ports (wd_env w))) \<and>
    (tls \<noteq> [] \<longrightarrow> wd_bind w Tls_Service (map snd metrics @ [ps_tcp (ports (wd_env w))]) (ps_tls (ports (wd_env w)))) \<and>
    wd_bind w Ws_Service (map snd metrics @ [ps_tcp (ports (wd_env w))] @ map snd tls) (ps_ws (ports (wd_env w)))"
proof -
  from assms obtain cert key acceptor db where
    p: "certificate_paths (wd_args w) = Some (cert, key)" "main_acceptor w cert key = Ok acceptor"
      "persistence_new (wd_env w) (wd_open_file w) (wd_sql w) = (Ok db :: (database, 'e main_error) outcome)"
    by (auto simp: main_start_def Let_def and_then_Ok_iff split: if_splits option.splits outcome.splits)
  have tls: "serves_tls w \<longleftrightarrow> acceptor \<noteq> None" using p(1,2) by (auto simp: serves_tls_def)
  show ?thesis
    by (rule exI [of _ db],
        rule exI [of _ "if wd_bind w Metrics_Service [] (ps_metrics (ports (wd_env w)))
          then [(Metrics_Service, ps_metrics (ports (wd_env w)))] else []"],
        rule exI [of _ "if serves_tls w then [(Tls_Service, ps_tls (ports (wd_env w)))] else []"])
      (use assms p tls in \<open>auto simp: main_start_def start_metrics_server_def bind_service_def Let_def and_then_Ok_iff
        split: if_splits option.splits outcome.splits\<close>)
qed

text \<open>
  C14: what a started broker is. When \<open>main\<close> reaches its wait for the shutdown signal, the plain and
  the WebSocket listener run on the ports of the settings, the TLS listener exactly when certificate
  and key are usable, and at most the metrics listener is missing; the ports of the listeners that run
  are distinct, and that of the metrics is different from them even when its listener is missing,
  unless another process freed a port during the start: two equal ones other than 0 keep the broker
  from starting. Every state that the threads reach from here keeps the invariants of the broker and
  of the wire.
\<close>

theorem started_broker:
  fixes w :: "('c, 'k, 'a, 'e) world"
  assumes "main_start w = Ok (b, bound)" and "ports_exclusive w"
    and "\<And>path file. wd_open_file w path = Some file \<Longrightarrow> stored_ok file"
  defines "ps \<equiv> ports (wd_env w)" and "tls \<equiv> if serves_tls w then [(Tls_Service, ps_tls (ports (wd_env w)))] else []"
  shows "(bound = [(Metrics_Service, ps_metrics ps), (Plain_Service, ps_tcp ps)] @ tls @ [(Ws_Service, ps_ws ps)] \<or>
      bound = [(Plain_Service, ps_tcp ps)] @ tls @ [(Ws_Service, ps_ws ps)]) \<and>
    distinct (filter (\<lambda>p. p \<noteq> 0) (map snd bound)) \<and>
    (no_port_freed w \<longrightarrow> distinct (filter (\<lambda>p. p \<noteq> 0) ([ps_metrics ps, ps_tcp ps] @ map snd tls @ [ps_ws ps]))) \<and>
    (runs_to verify (first_machine b) m \<longrightarrow> broker_ok (m_broker m) \<and> wire_ok (m_broker m))"
proof -
  obtain db metrics tls' where facts: "persistence_new (wd_env w) (wd_open_file w) (wd_sql w) = (Ok db :: (database, 'e main_error) outcome)"
      "b = start_broker (wd_parse_credentials w) (wd_credentials w) (wd_loads w) db (wd_env w)"
      "metrics = (if wd_bind w Metrics_Service [] (ps_metrics ps) then [(Metrics_Service, ps_metrics ps)] else [])" "tls' = tls"
      "bound = metrics @ [(Plain_Service, ps_tcp ps)] @ tls' @ [(Ws_Service, ps_ws ps)]"
      "wd_bind w Plain_Service (map snd metrics) (ps_tcp ps)"
      "tls' \<noteq> [] \<longrightarrow> wd_bind w Tls_Service (map snd metrics @ [ps_tcp ps]) (ps_tls ps)"
      "wd_bind w Ws_Service (map snd metrics @ [ps_tcp ps] @ map snd tls') (ps_ws ps)"
    using main_start_Ok [OF assms(1), folded ps_def, folded tls_def [folded ps_def]] by (elim exE conjE) (rule that)
  note db = facts(1,2) and metrics = facts(3) and bound = facts(5) [unfolded facts(4)] and binds = facts(6-8) [unfolded facts(4)]
  have fresh: "p = 0 \<or> p \<notin> set used" if "wd_bind w service used p" for service used p
    using assms(2) that by (auto simp: ports_exclusive_def)
  have running: "distinct (filter (\<lambda>p. p \<noteq> 0) (map snd bound))"
    using fresh [OF binds(1)] fresh [OF binds(3)] binds(2) fresh [of Tls_Service "map snd metrics @ [ps_tcp ps]" "ps_tls ps"]
    by (cases "metrics = []") (auto simp: bound metrics tls_def ps_def split: if_splits)
  moreover have "distinct (filter (\<lambda>p. p \<noteq> 0) ([ps_metrics ps, ps_tcp ps] @ map snd tls @ [ps_ws ps]))" if free: "no_port_freed w"
  proof (cases "metrics = []")
    case True
    then have "p \<noteq> ps_metrics ps" if "wd_bind w service used p" for service used p
      using free that by (auto simp: no_port_freed_def metrics split: if_splits)
    with binds have "ps_metrics ps \<notin> {ps_tcp ps, ps_ws ps} \<union> set (map snd tls)"
      by (force simp: tls_def ps_def split: if_splits)
    with running True show ?thesis by (auto simp: bound)
  next
    case False
    with running show ?thesis by (auto simp: bound metrics split: if_splits)
  qed
  moreover have "broker_ok (m_broker m) \<and> wire_ok (m_broker m)" if "runs_to verify (first_machine b) m"
    using start_runs_ok [OF that [unfolded db(2)] persistence_new_ok [OF db(1) assms(3)]]
    by (simp add: machine_ok_def sound_def)
  ultimately show ?thesis using bound metrics by auto
qed

text \<open>An empty directory, no settings, and a generator of certificates that fails: no TLS.\<close>

definition bare_world :: "(unit, unit, unit, unit) world" where
  "bare_world =
     \<lparr>wd_logger = True, wd_env = (\<lambda>_. None), wd_args = [lit ''pipistrelle''], wd_generate = (\<lambda>_. None),
      wd_file_io = good_io, wd_place = (\<lambda>path. [path]), wd_files = empty_tree, wd_parse_certs = (\<lambda>_. None), wd_parse_key = (\<lambda>_. None), wd_tls_config = (\<lambda>_ _. Ok ()),
      wd_parse_credentials = (\<lambda>_. None), wd_credentials = open_credentials,
      wd_open_file = (\<lambda>_. Some \<lparr>st_sessions = None, st_subscriptions = None, st_in_flight = None\<rparr>),
      wd_sql = (True, True, True, True), wd_loads = (True, True, True), wd_bind = (\<lambda>service bound p. p \<notin> set bound)\<rparr>"

lemma default_ports:
  "ports (\<lambda>_. None) = \<lparr>ps_tcp = 1883, ps_tls = 8883, ps_ws = 8083, ps_metrics = 9090\<rparr>"
  using settings_exact [of "\<lambda>_. None"] by (simp add: port_spec_def del: lit_simps)

theorem started_broker_witness:
  "\<exists>b bound. main_start bare_world = Ok (b, bound) \<and>
     map snd bound = [9090, 1883, 8083] \<and> broker_ok b"
proof -
  let ?db = "\<lparr>db_sessions = [], db_subscriptions = [], db_in_flight = []\<rparr>"
  let ?b = "start_broker (\<lambda>_. None) open_credentials (True, True, True) ?db (\<lambda>_. None)"
  have args: "certificate_paths [lit ''pipistrelle''] = Some (lit ''cert.pem'', lit ''key.pem'')"
    by (simp add: certificate_paths_def parse_args.simps del: lit_simps)
  have "main_acceptor bare_world (lit ''cert.pem'') (lit ''key.pem'') = Ok None"
    by (simp add: main_acceptor_def bare_world_def ensure_certificates_def tls_acceptor_def empty_tree_def del: lit_simps)
  with args have start: "main_start bare_world = Ok (?b, [(Metrics_Service, 9090), (Plain_Service, 1883), (Ws_Service, 8083)])"
    by (simp add: main_start_def default_ports persistence_new_def create_table_def start_metrics_server_def
        bind_service_def bare_world_def del: lit_simps)
  have "ports_exclusive bare_world" by (simp add: ports_exclusive_def bare_world_def)
  moreover have "stored_ok st" if "wd_open_file bare_world path = Some st" for path st
    using that by (auto simp: bare_world_def stored_ok_def database_ok_def create_table_def)
  ultimately have "runs_to v (first_machine ?b) m \<longrightarrow> broker_ok (m_broker m) \<and> wire_ok (m_broker m)" for v m
    using started_broker [OF start] by blast
  from this [of _ "first_machine ?b"] have "broker_ok ?b" by (simp add: runs_to_def first_machine_def)
  with start show ?thesis by simp
qed

end
