(* ===== verification/Scrape.thy ===== *)
theory Scrape imports Main_Program begin

text \<open>
  A scrape while the broker runs: the three loads of \<open>src/metrics.rs\<close> at three points of a run of the
  interleaved threads, and what the numbers count.
\<close>

section \<open>Counting\<close>

text \<open>
  A run with the number of publications and of subscriptions that threads have counted in it: every
  step of the machine is one of these.
\<close>

inductive counting ::
  "(rstr \<Rightarrow> rstr \<Rightarrow> bool) \<Rightarrow> machine \<Rightarrow> nat \<Rightarrow> nat \<Rightarrow> machine \<Rightarrow> bool" for verify m where
  start: "counting verify m 0 0 m"
| action: "counting verify m p s m1 \<Longrightarrow> can_act m1 k \<Longrightarrow> th_actions (m_threads m1 ! k) = a # actions \<Longrightarrow>
    counting verify m (p + of_bool (a = CountPublish)) (s + of_bool (a = CountSubscription)) (moves m1 k)"
| other: "counting verify m p s m1 \<Longrightarrow> machine_step verify m1 m2 \<Longrightarrow> \<nexists>k. can_act m1 k \<and> m2 = moves m1 k \<Longrightarrow>
    counting verify m p s m2"

lemma counting_runs: "counting verify m p s m' \<Longrightarrow> runs_to verify m m'"
  by (induction rule: counting.induct) (auto simp: runs_to_def intro: rtranclp.rtrancl_into_rtrancl action_moves)

lemma counting_steps:
  assumes "counting verify m p s m1" and "machine_step verify m1 m2"
  shows "\<exists>p s. counting verify m p s m2"
proof (cases "\<exists>k. can_act m1 k \<and> m2 = moves m1 k")
  case True
  then obtain k where k: "can_act m1 k" "m2 = moves m1 k" by blast
  then obtain a actions where "th_actions (m_threads m1 ! k) = a # actions"
    by (auto simp: can_act_def split: list.splits)
  from counting.action [OF assms(1) k(1) this] k(2) show ?thesis by blast
next
  case False
  from counting.other [OF assms this] show ?thesis by blast
qed

lemma runs_counting: "runs_to verify m m' \<Longrightarrow> \<exists>p s. counting verify m p s m'"
  unfolding runs_to_def by (induction rule: rtranclp_induct) (auto intro: counting.start dest: counting_steps)

lemma counting_trans:
  assumes "counting verify m1 p2 s2 m2" and "counting verify m p1 s1 m1"
  shows "counting verify m (p1 + p2) (s1 + s2) m2"
  using assms
proof (induction rule: counting.induct)
  case (action p s m2 k a actions)
  from counting.action [OF action(4) [OF action(5)] action(2,3)] show ?case by (simp add: add.assoc)
qed (auto intro: counting.other)

lemma perform_counts:
  "b_messages_published (snd (perform a b)) = b_messages_published b + of_bool (a = CountPublish)"
  "b_subscriptions (snd (perform a b)) = b_subscriptions b + of_bool (a = CountSubscription)"
  by (cases a; simp add: bump_id_def next_index_def on_session_def spawn_def Let_def split: option.split)+

lemma open_counts:
  assumes "open_connection verify buf b = (th, b')"
  shows "b_messages_published b' = b_messages_published b" and "b_subscriptions b' = b_subscriptions b"
  using assms
  by (auto simp: open_connection_def alloc_session_def Let_def split: outcome.splits packet.splits prod.splits if_splits)

lemma other_counts:
  assumes "machine_step verify m m'" and "\<nexists>k. can_act m k \<and> m' = moves m k"
  shows "b_messages_published (m_broker m') = b_messages_published (m_broker m) \<and>
    b_subscriptions (m_broker m') = b_subscriptions (m_broker m)"
  using assms(1)
proof cases
  case (act k a actions control followers b)
  then have "m' = moves m k" by (simp add: moves_def Let_def)
  with act(2) assms(2) show ?thesis by blast
next
  case (event k control ev th b)
  then show ?thesis
    by (cases "(verify, ev, control, m_broker m)" rule: on_event.cases) (auto simp: set_thread_def open_counts)
qed (auto simp: set_thread_def on_session_def)

lemma counting_counts:
  assumes "counting verify m p s m'"
  shows "b_messages_published (m_broker m') = b_messages_published (m_broker m) + of_nat p \<and>
    b_subscriptions (m_broker m') = b_subscriptions (m_broker m) + of_nat s"
  using assms
proof (induction rule: counting.induct)
  case (action p s m1 k a actions)
  have "m_broker (moves m1 k) = snd (perform a (m_broker m1))"
    using action(3) by (simp add: moves_def Let_def split: prod.split)
  with action(4) show ?case by (simp add: perform_counts algebra_simps)
qed (simp_all add: other_counts)

section \<open>Property\<close>

text \<open>
  C34: a scrape reports what was counted. While the threads of a started broker run in any order, a
  scrape loads the size of the session map and then the two counters, with steps of other threads
  between the loads. Its answer is well formed: the header announces exactly the length of the body,
  and a reader finds in the body the number of sessions at the first load, the publications that
  threads have counted until the second and the subscriptions they have counted until the third, as
  long as the 64-bit counters have not wrapped around.
\<close>

theorem scrape_reports_counts:
  assumes "counting verify (first_machine (start_broker parse credentials oks db env)) p1 s1 m1"
    and "counting verify m1 p2 s2 m2" and "counting verify m2 p3 s3 m3"
    and "p1 + p2 < 2 ^ 64" and "s1 + s2 + s3 < 2 ^ 64"
    and "scrape (Accepted_Socket True) (m_broker m1) (m_broker m2) (m_broker m3) = Some answer"
  shows "let (headers, body) = http_parse answer in
     content_length headers = Some (length body) \<and>
     samples body =
       [(lit ''pipistrelle_connections_total'', length (b_sessions (m_broker m1))),
        (lit ''pipistrelle_messages_published_total'', p1 + p2),
        (lit ''pipistrelle_subscriptions_total'', s1 + s2 + s3)]"
proof -
  let ?first = "first_machine (start_broker parse credentials oks db env)"
  have zero: "b_messages_published (m_broker ?first) = 0" "b_subscriptions (m_broker ?first) = 0"
    by (simp_all add: first_machine_def start_facts)
  note c2 = counting_trans [OF assms(2,1)]
  from counting_counts [OF c2] zero have "b_messages_published (m_broker m2) = of_nat (p1 + p2)" by simp
  then have p: "unat (b_messages_published (m_broker m2)) = p1 + p2"
    using assms(4) by (simp add: unsigned_of_nat take_bit_nat_eq_self del: of_nat_add)
  from counting_counts [OF counting_trans [OF assms(3) c2]] zero
  have "b_subscriptions (m_broker m3) = of_nat (s1 + s2 + s3)" by simp
  then have s: "unat (b_subscriptions (m_broker m3)) = s1 + s2 + s3"
    using assms(5) by (simp add: unsigned_of_nat take_bit_nat_eq_self del: of_nat_add)
  from assms(6) have "answer = metrics_response (length (b_sessions (m_broker m1)))
      (b_messages_published (m_broker m2)) (b_subscriptions (m_broker m3))" by simp
  with response_read [of "length (b_sessions (m_broker m1))" "b_messages_published (m_broker m2)"
      "b_subscriptions (m_broker m3)"] p s show ?thesis by simp
qed

theorem scrape_reports_counts_witness:
  "samples (snd (http_parse (metrics_response 0 0 0))) =
     [(lit ''pipistrelle_connections_total'', 0), (lit ''pipistrelle_messages_published_total'', 0),
      (lit ''pipistrelle_subscriptions_total'', 0)]"
proof -
  let ?m = "first_machine (start_broker (\<lambda>_. None) open_credentials all_ok empty_database (\<lambda>_. None))"
  have b: "b_sessions (m_broker ?m) = []" "b_messages_published (m_broker ?m) = 0" "b_subscriptions (m_broker ?m) = 0"
    by (simp_all add: first_machine_def open_start new_broker_def start_facts)
  have "scrape (Accepted_Socket True) (m_broker ?m) (m_broker ?m) (m_broker ?m) = Some (metrics_response 0 0 0)"
    by (simp add: b)
  from scrape_reports_counts [OF counting.start counting.start counting.start _ _ this] show ?thesis
    by (simp add: b case_prod_beta)
qed

end
