(* ===== verification/Shutdown.thy ===== *)
theory Shutdown imports Serving begin

text \<open>
  The end of \<open>main\<close> in \<open>src/main.rs\<close>, with \<open>graceful_shutdown\<close> of \<open>src/session.rs\<close>, among the other
  threads and the writers: what the clients see of it before the process exits.
\<close>

section \<open>Schedules\<close>

text \<open>
  One turn of the program: a step of one of the threads, given by the machine after it, or an answer
  to the writer of a session. A writer has its turns as long as it holds its receiver.
\<close>

datatype turn = Thread_Turn machine | Socket_Turn nat socket_event | Web_Turn nat ws_event

fun take_turn :: "turn \<Rightarrow> machine \<times> (nat \<Rightarrow> transport) \<Rightarrow> machine \<times> (nat \<Rightarrow> transport)" where
  "take_turn (Thread_Turn m') (m, ws) = (m', ws)"
| "take_turn (Socket_Turn i ev) (m, ws) =
     (case ws i of
        Socket w \<Rightarrow>
          if open_on (m_broker m) i
          then (m, ws(i := Socket (writer_step (cs_sent (session_at (m_broker m) i)) ev w)))
          else (m, ws)
      | Web v \<Rightarrow> (m, ws))"
| "take_turn (Web_Turn i ev) (m, ws) =
     (case ws i of
        Socket w \<Rightarrow> (m, ws)
      | Web v \<Rightarrow>
          if open_on (m_broker m) i
          then (m, ws(i := Web (ws_writer_step (cs_sent (session_at (m_broker m) i)) ev v)))
          else (m, ws))"

text \<open>The schedules that can happen: each turn of a thread is a step of the machine.\<close>

fun possible :: "(rstr \<Rightarrow> rstr \<Rightarrow> bool) \<Rightarrow> turn \<Rightarrow> machine \<times> (nat \<Rightarrow> transport) \<Rightarrow> bool" where
  "possible verify (Thread_Turn m') (m, ws) \<longleftrightarrow> machine_step verify m m'"
| "possible verify other s \<longleftrightarrow> True"

fun played :: "(rstr \<Rightarrow> rstr \<Rightarrow> bool) \<Rightarrow> turn list \<Rightarrow> machine \<times> (nat \<Rightarrow> transport) \<Rightarrow> bool" where
  "played verify [] s \<longleftrightarrow> True"
| "played verify (t # ts) s \<longleftrightarrow> possible verify t s \<and> played verify ts (take_turn t s)"

lemma played_append: "played verify (ts @ us) s \<longleftrightarrow> played verify ts s \<and> played verify us (fold take_turn ts s)"
  by (induction ts arbitrary: s) simp_all

lemma turn_serves:
  assumes "possible verify t (m, ws)"
  shows "serves_to verify (m, ws) (take_turn t (m, ws))"
proof (cases t)
  case (Thread_Turn m')
  with assms show ?thesis by (auto simp: serves_to_def intro: serves.thread)
next
  case (Socket_Turn i ev)
  then show ?thesis
    by (cases "ws i") (auto simp: serves_to_def open_on_def intro!: r_into_rtranclp serves.socket)
next
  case (Web_Turn i ev)
  then show ?thesis
    by (cases "ws i") (auto simp: serves_to_def open_on_def intro!: r_into_rtranclp serves.web)
qed

lemma played_serves: "played verify ts s \<Longrightarrow> serves_to verify s (fold take_turn ts s)"
proof (induction ts arbitrary: s)
  case (Cons t ts)
  obtain m ws where s: "s = (m, ws)" by (cases s)
  from Cons turn_serves [of verify t m ws] show ?case
    unfolding s serves_to_def by (simp, meson rtranclp_trans)
qed (simp add: serves_to_def)

section \<open>The end of main\<close>

text \<open>
  \<open>main\<close>, the thread 0, as it is in \<open>graceful_shutdown\<close> once it has the read lock of the session map:
  it has DISCONNECT to send on the channel of every session in the map.
\<close>

definition shutting_down :: "machine \<Rightarrow> machine" where
  "shutting_down m =
     (let (pushes, b) = perform (PushAll disconnect_all) (m_broker m) in
      set_thread 0 \<lparr>th_actions = pushes, th_control = Main_Task\<rparr> b m)"

text \<open>
  \<open>main\<close> waits for Ctrl-C, logs an error when the handler cannot be registered, which ends the wait at
  once, and shuts down in any case: \<open>sending\<close> are the turns of all threads and writers until
  \<open>graceful_shutdown\<close> returns. It then sleeps for 500 milliseconds, in which \<open>grace\<close> goes on, each turn
  with its time since the start of the sleep, and returns, which ends the process: what has a later
  time does not happen. The result is whether an error was logged, and what the process leaves.
\<close>

definition main_end ::
  "bool \<Rightarrow> turn list \<Rightarrow> (nat \<times> turn) list \<Rightarrow> machine \<times> (nat \<Rightarrow> transport) \<Rightarrow>
    bool \<times> machine \<times> (nat \<Rightarrow> transport)" where
  "main_end registered sending grace s =
     (let (m, ws) = s;
          s = fold take_turn sending (shutting_down m, ws);
          s = fold take_turn (map snd (takeWhile (\<lambda>(time, t). time < 500) grace)) s in
      (\<not> registered, s))"

section \<open>DISCONNECT on every channel\<close>

text \<open>
  Until \<open>main\<close> has sent DISCONNECT on an open channel, it still has it to do; from then on it is on
  the channel, behind what was there.
\<close>

definition bye_due :: "nat \<Rightarrow> nat \<Rightarrow> machine \<Rightarrow> bool" where
  "bye_due n i m \<longleftrightarrow> 0 < length (m_threads m) \<and>
     (open_on (m_broker m) i \<longrightarrow>
       Push i disconnect_all \<in> set (th_actions (m_threads m ! 0)) \<or> disconnect_all \<in> set (drop n (sent_on (m_broker m) i)))"

lemma bye_kept:
  assumes "bye_due n i m" and "extends (m_broker m) (m_broker m')" and "0 < length (m_threads m')"
    and "i < length (b_heap (m_broker m))"
    and "Push i disconnect_all \<in> set (th_actions (m_threads m ! 0)) \<Longrightarrow> open_on (m_broker m') i \<Longrightarrow>
      Push i disconnect_all \<in> set (th_actions (m_threads m' ! 0)) \<or> disconnect_all \<in> set (drop n (sent_on (m_broker m') i))"
  shows "bye_due n i m'"
proof -
  obtain later where "sent_on (m_broker m') i = sent_on (m_broker m) i @ later"
    using extends_prefix [OF assms(2), of i] by (auto simp: prefix_def)
  then have "disconnect_all \<in> set (drop n (sent_on (m_broker m) i)) \<Longrightarrow> disconnect_all \<in> set (drop n (sent_on (m_broker m') i))"
    by simp
  moreover have "open_on (m_broker m') i \<Longrightarrow> open_on (m_broker m) i" using assms(2,4) by (simp add: extends_def)
  ultimately show ?thesis using assms(1,3,5) by (auto simp: bye_due_def)
qed

lemma bye_step:
  assumes "machine_step verify m m'" and "bye_due n i m" and "i < length (b_heap (m_broker m))" and "n \<le> length (sent_on (m_broker m) i)"
  shows "bye_due n i m'"
proof (rule bye_kept [OF assms(2) step_extends [OF assms(1)] _ assms(3)])
  have len: "0 < length (m_threads m)" using assms(2) by (simp add: bye_due_def)
  show "0 < length (m_threads m')" using assms(1) len by cases (auto simp: set_thread_def)
  assume due: "Push i disconnect_all \<in> set (th_actions (m_threads m ! 0))" and "open_on (m_broker m') i"
  show "Push i disconnect_all \<in> set (th_actions (m_threads m' ! 0)) \<or> disconnect_all \<in> set (drop n (sent_on (m_broker m') i))"
    using assms(1)
  proof cases
    case (act k a actions control followers b)
    show ?thesis
    proof (cases "k = 0")
      case True
      show ?thesis
      proof (cases "a = Push i disconnect_all")
        case True
        have "open_on (m_broker m) i"
          using \<open>open_on (m_broker m') i\<close> step_extends [OF assms(1)] assms(3) by (simp add: extends_def)
        with True act(1,4) have "sent_on (m_broker m') i = sent_on (m_broker m) i @ [disconnect_all]"
          by (auto simp: sent_on_def open_on_def session_at_def send_buf_def on_session_def)
        with assms(4) show ?thesis by simp
      next
        case False
        with due act \<open>k = 0\<close> len show ?thesis by (auto simp: set_thread_def)
      qed
    next
      case False
      with due act show ?thesis by (simp add: set_thread_def)
    qed
  next
    case accept
    with due len show ?thesis by (simp add: nth_append)
  next
    case (event k control ev th b)
    with due show ?thesis by (cases "k = 0") (auto simp: set_thread_def)
  next
    case (packet k control)
    with due show ?thesis by (cases "k = 0") (auto simp: set_thread_def)
  next
    case (link_up k data rest user pass)
    with due show ?thesis by (cases "k = 0") (auto simp: set_thread_def)
  next
    case (link k buf out ev)
    with due show ?thesis by (cases "k = 0") (auto simp: set_thread_def)
  next
    case (link_takes k buf out msg queue control)
    with due show ?thesis by (cases "k = 0") (auto simp: set_thread_def)
  next
    case (shutdown k)
    with due show ?thesis by (cases "k = 0") (auto simp: set_thread_def)
  qed (use due in auto)
qed

lemma turn_fields:
  "m_broker (fst (take_turn t (m, ws))) = (case t of Thread_Turn m' \<Rightarrow> m_broker m' | _ \<Rightarrow> m_broker m)"
  "m_threads (fst (take_turn t (m, ws))) = (case t of Thread_Turn m' \<Rightarrow> m_threads m' | _ \<Rightarrow> m_threads m)"
  by (cases t; simp split: transport.split)+

lemma turn_extends: "possible verify t s \<Longrightarrow> extends (m_broker (fst s)) (m_broker (fst (take_turn t s)))"
  by (cases s; cases t) (auto simp: step_extends split: transport.split)

lemma bye_played:
  assumes "played verify ts s" and "bye_due n i (fst s)" and "i < length (b_heap (m_broker (fst s)))"
    and "n \<le> length (sent_on (m_broker (fst s)) i)"
  shows "bye_due n i (fst (fold take_turn ts s))"
  using assms
proof (induction ts arbitrary: s)
  case (Cons t ts)
  obtain m ws where s: "s = (m, ws)" by (cases s)
  let ?s = "take_turn t s"
  have ext: "extends (m_broker m) (m_broker (fst ?s))" using turn_extends [of verify t s] Cons.prems(1) s by simp
  have "bye_due n i (fst ?s)"
  proof (cases t)
    case (Thread_Turn m')
    with bye_step [of verify m m' n i] Cons.prems s show ?thesis by simp
  next
    case (Socket_Turn j ev)
    with Cons.prems(2) s turn_fields [of t m ws] show ?thesis by (simp add: bye_due_def)
  next
    case (Web_Turn j ev)
    with Cons.prems(2) s turn_fields [of t m ws] show ?thesis by (simp add: bye_due_def)
  qed
  moreover have "i < length (b_heap (m_broker (fst ?s)))" "n \<le> length (sent_on (m_broker (fst ?s)) i)"
    using ext Cons.prems(3,4) extends_prefix [OF ext, of i, THEN prefix_length_le] by (auto simp: s extends_def)
  ultimately show ?case using Cons.IH [of ?s] Cons.prems(1) by simp
qed simp

section \<open>The writer in the grace period\<close>

text \<open>
  What the writer of session \<open>i\<close> gets done in a schedule, measured by what it has left (\<open>unwritten\<close>: the
  bytes, and three for each buffer, which it has to take off, to write to its end and to flush); and
  the schedules in which no answer ends the writer.
\<close>

fun progress :: "nat \<Rightarrow> turn list \<Rightarrow> machine \<times> (nat \<Rightarrow> transport) \<Rightarrow> nat" where
  "progress i [] s = 0"
| "progress i (t # ts) s =
     (case (t, snd s i) of
        (Socket_Turn j ev, Socket w) \<Rightarrow>
          if j = i \<and> open_on (m_broker (fst s)) i
          then unwritten (sent_on (m_broker (fst s)) i) w -
            unwritten (sent_on (m_broker (fst s)) i) (writer_step (sent_on (m_broker (fst s)) i) ev w)
          else 0
      | _ \<Rightarrow> 0) + progress i ts (take_turn t s)"

definition unbroken :: "nat \<Rightarrow> turn list \<Rightarrow> bool" where
  "unbroken i ts \<longleftrightarrow> (\<forall>ev. Socket_Turn i ev \<in> set ts \<longrightarrow> ev \<in> {Next, Flushed} \<union> range Took)"

text \<open>
  The first buffers \<open>goal\<close> of a channel are out, or the writer still works on them and what is left of
  them is at most \<open>left\<close>.
\<close>

definition on_course :: "bytes list \<Rightarrow> nat \<Rightarrow> writer \<Rightarrow> bool" where
  "on_course goal left w \<longleftrightarrow> prefix (concat goal) (wr_out w) \<or>
     wr_taken w \<le> length goal \<and> wr_stage w \<notin> {Closing, Terminated} \<and> unwritten goal w \<le> left"

lemma writer_out_grows: "prefix (wr_out w) (wr_out (writer_step sent ev w))"
  by (cases "(sent, ev, wr_stage w, w)" rule: writer_turn.cases) (auto simp: writer_step_def)

lemma unwritten_append:
  "wr_taken w \<le> length goal \<Longrightarrow> unwritten (goal @ later) w = unwritten goal w + (\<Sum>buf\<leftarrow>later. length buf + 3)"
  by (simp add: unwritten_def)

lemma on_course_step:
  assumes "on_course goal (left + (unwritten sent w - unwritten sent (writer_step sent ev w))) w"
    and "prefix goal sent" and "writer_ok sent w" and "ev \<in> {Next, Flushed} \<union> range Took"
  shows "on_course goal left (writer_step sent ev w)"
proof (cases "prefix (concat goal) (wr_out w)")
  case True
  with writer_out_grows [of w sent ev] show ?thesis unfolding on_course_def by (blast intro: prefix_order.trans)
next
  case False
  with assms(1) have w: "wr_taken w \<le> length goal" "wr_stage w \<notin> {Closing, Terminated}"
    "unwritten goal w \<le> left + (unwritten sent w - unwritten sent (writer_step sent ev w))"
    by (auto simp: on_course_def)
  obtain later where sent: "sent = goal @ later" using assms(2) by (auto simp: prefix_def)
  have busy: "wr_taken w < length goal" if "wr_stage w = Receiving"
  proof (rule ccontr)
    assume "\<not> wr_taken w < length goal"
    with w(1) have "take (wr_taken w) sent = goal" by (simp add: sent)
    with assms(3) that False show False by (simp add: writer_ok_def)
  qed
  have step: "wr_taken (writer_step sent ev w) \<le> length goal \<and> wr_stage (writer_step sent ev w) \<notin> {Closing, Terminated}"
    using busy w(1,2) assms(4) by (cases "wr_stage w") (auto simp: writer_step_def writing_def split: if_splits)
  have "unwritten sent (writer_step sent ev w) \<le> unwritten sent w"
  proof (cases "goes_on sent ev (wr_stage w) w")
    case True
    from goes_on_less [OF this] show ?thesis by simp
  next
    case False
    with assms(4) w(2) show ?thesis
      by (cases "wr_stage w") (auto simp: writer_step_def writing_def unwritten_def split: if_splits)
  qed
  with w(3) step unwritten_append [OF w(1), of later] unwritten_append [of "writer_step sent ev w" goal later]
  show ?thesis by (auto simp: on_course_def sent)
qed

lemma on_course_turn:
  assumes "on_course goal (left + progress i (t # ts) s) w" and "possible verify t s" and "snd s i = Socket w"
    and "writer_ok (sent_on (m_broker (fst s)) i) w" and "prefix goal (sent_on (m_broker (fst s)) i)"
    and "\<And>ev. t = Socket_Turn i ev \<Longrightarrow> ev \<in> {Next, Flushed} \<union> range Took"
  shows "\<exists>w'. snd (take_turn t s) i = Socket w' \<and> on_course goal (left + progress i ts (take_turn t s)) w' \<and>
    writer_ok (sent_on (m_broker (fst (take_turn t s))) i) w' \<and> prefix goal (sent_on (m_broker (fst (take_turn t s))) i)"
proof -
  obtain m ws where s: "s = (m, ws)" by (cases s)
  have ext: "prefix (sent_on (m_broker m) i) (sent_on (m_broker (fst (take_turn t s))) i)"
    using turn_extends [OF assms(2)] s extends_prefix by simp
  then have goal: "prefix goal (sent_on (m_broker (fst (take_turn t s))) i)"
    using assms(5) s prefix_order.trans by simp
  show ?thesis
  proof (cases "\<exists>ev. t = Socket_Turn i ev \<and> open_on (m_broker m) i")
    case True
    then obtain ev where ev: "t = Socket_Turn i ev" "open_on (m_broker m) i" by blast
    let ?sent = "sent_on (m_broker m) i"
    have turn: "take_turn t s = (m, ws(i := Socket (writer_step ?sent ev w)))"
      using assms(3) ev by (simp add: s open_on_def sent_on_def)
    have "on_course goal (left + progress i ts (take_turn t s)) (writer_step ?sent ev w)"
      by (rule on_course_step) (use assms(1,3-6) ev s turn in \<open>simp_all add: ac_simps\<close>)
    moreover have "writer_ok ?sent (writer_step ?sent ev w)" using assms(4) s by (simp add: writer_ok_step)
    ultimately show ?thesis using goal turn by simp
  next
    case False
    then have "snd (take_turn t s) i = Socket w \<and> progress i (t # ts) s = progress i ts (take_turn t s)"
      using assms(3) by (cases t) (auto simp: s split: transport.split)
    then show ?thesis using assms(1,4) goal socket.extended [OF _ ext] s by simp
  qed
qed

lemma on_course_played:
  assumes "on_course goal (left + progress i ts s) w" and "played verify ts s" and "snd s i = Socket w" and "unbroken i ts"
    and "writer_ok (sent_on (m_broker (fst s)) i) w" and "prefix goal (sent_on (m_broker (fst s)) i)"
  shows "\<exists>w'. snd (fold take_turn ts s) i = Socket w' \<and> on_course goal left w' \<and>
    writer_ok (sent_on (m_broker (fst (fold take_turn ts s))) i) w'"
  using assms
proof (induction ts arbitrary: s w)
  case (Cons t ts)
  have "\<exists>w'. snd (take_turn t s) i = Socket w' \<and> on_course goal (left + progress i ts (take_turn t s)) w' \<and>
    writer_ok (sent_on (m_broker (fst (take_turn t s))) i) w' \<and> prefix goal (sent_on (m_broker (fst (take_turn t s))) i)"
    by (rule on_course_turn [where t = t, OF Cons.prems(1)]) (use Cons.prems in \<open>auto simp: unbroken_def\<close>)
  with Cons.IH [of "take_turn t s"] Cons.prems(2,4) show ?case by (auto simp: unbroken_def)
qed simp

lemma writer_on_course:
  assumes "writer_ok sent w" and "prefix goal sent" and "wr_stage w \<notin> {Closing, Terminated}" and "unwritten goal w \<le> left"
  shows "on_course goal left w"
proof (cases "wr_taken w \<le> length goal")
  case False
  then have "prefix goal (take (wr_taken w - 1) sent)"
    using assms(2) by (auto simp: prefix_def)
  then have "prefix (concat goal) (concat (take (wr_taken w - 1) sent))" by (auto simp: prefix_def)
  moreover have "prefix (concat (take (wr_taken w - 1) sent)) (concat (take (wr_taken w) sent))"
    by (metis append_take_drop_id concat_append diff_le_self min.absorb1 prefixI take_take)
  ultimately show ?thesis
    using assms(1,3) by (auto simp: on_course_def writer_ok_def intro: prefix_order.trans split: stage.splits)
qed (use assms in \<open>simp add: on_course_def\<close>)

text \<open>With nothing left of them, the buffers are out.\<close>

lemma on_course_done:
  assumes "on_course goal 0 w" and "writer_ok sent w" and "prefix goal sent"
  shows "prefix (concat goal) (wr_out w)"
proof (rule ccontr)
  assume not_out: "\<not> prefix (concat goal) (wr_out w)"
  with assms(1) have w: "wr_taken w \<le> length goal" "wr_stage w \<notin> {Closing, Terminated}" "unwritten goal w = 0"
    by (auto simp: on_course_def)
  then have "wr_stage w = Receiving" by (auto simp: unwritten_def split: stage.splits)
  moreover have "drop (wr_taken w) goal = []" using w(3) by (cases "drop (wr_taken w) goal") (auto simp: unwritten_def)
  then have "take (wr_taken w) sent = goal" using w(1) assms(3) by (auto simp: prefix_def)
  ultimately show False using assms(2) not_out by (simp add: writer_ok_def)
qed

section \<open>What the client reads\<close>

abbreviation bye :: packet where
  "bye \<equiv> Disconnect \<lparr>d_reason_code = 0, d_properties = disconnect_properties_default\<rparr>"

abbreviation takes_lock :: "machine \<Rightarrow> bool" where
  "takes_lock m \<equiv> m_threads m ! 0 = idle Main_Task \<and>
     can_act (set_thread 0 \<lparr>th_actions = [PushAll disconnect_all], th_control = Main_Task\<rparr> (m_broker m) m) 0"

lemma shutting_down_serves:
  assumes "takes_lock m"
  shows "serves_to verify (m, ws) (shutting_down m, ws)"
proof -
  let ?m = "set_thread 0 \<lparr>th_actions = [PushAll disconnect_all], th_control = Main_Task\<rparr> (m_broker m) m"
  have k: "0 < length (m_threads m)" using assms by (auto simp: can_act_def set_thread_def)
  have "machine_step verify m ?m" using machine_step.shutdown [OF k] assms by simp
  moreover obtain pushes b where p: "perform (PushAll disconnect_all) (m_broker m) = (pushes, b)" by fastforce
  have "machine_step verify ?m (shutting_down m)"
    using machine_step.act [of ?m 0 "PushAll disconnect_all" "[]" Main_Task pushes b verify] assms k p
    by (simp add: shutting_down_def del: perform.simps)
  ultimately have "runs_to verify m (shutting_down m)" by (meson runs_refl runs_step)
  then show ?thesis by (rule runs_serves)
qed

lemma bye_sent:
  assumes "takes_lock m" and "broker_ok (m_broker m)" and "live (m_broker m) c i"
    and "played verify sending (shutting_down m, ws)"
  defines "s1 \<equiv> fold take_turn sending (shutting_down m, ws)"
  assumes "th_actions (m_threads (fst s1) ! 0) = []" and "open_on (m_broker (fst s1)) i"
  shows "\<exists>before later. sent_on (m_broker (fst s1)) i = before @ disconnect_all # later \<and>
    prefix (sent_on (m_broker m) i) before"
proof -
  have k: "0 < length (m_threads m)" using assms(1) by (auto simp: can_act_def set_thread_def)
  have i: "i < length (b_heap (m_broker m))" using live_ok [OF assms(2,3)] by simp
  have "(c, i) \<in> set (b_sessions (m_broker m))" using assms(3) by (simp add: live_def map_of_SomeD)
  then have "bye_due (length (sent_on (m_broker m) i)) i (shutting_down m)"
    using k by (force simp: bye_due_def shutting_down_def)
  moreover have "m_broker (shutting_down m) = m_broker m" by (simp add: shutting_down_def)
  ultimately have "bye_due (length (sent_on (m_broker m) i)) i (fst s1)"
    using bye_played [OF assms(4), of _ i] i by (simp add: s1_def)
  with assms(6,7) have "disconnect_all \<in> set (drop (length (sent_on (m_broker m) i)) (sent_on (m_broker (fst s1)) i))"
    by (simp add: bye_due_def)
  then obtain before later where
    split: "drop (length (sent_on (m_broker m) i)) (sent_on (m_broker (fst s1)) i) = before @ disconnect_all # later"
    by (meson split_list)
  from serves_runs [of verify "shutting_down m" ws "fst s1" "snd s1"] played_serves [OF assms(4)]
  have "runs_to verify (shutting_down m) (fst s1)" by (simp add: s1_def)
  then have "extends (m_broker (shutting_down m)) (m_broker (fst s1))" by (rule runs_extends)
  then have "prefix (sent_on (m_broker m) i) (sent_on (m_broker (fst s1)) i)"
    using extends_prefix by (simp add: shutting_down_def)
  with split show ?thesis
    by (intro exI [of _ "sent_on (m_broker m) i @ before"] exI [of _ later]) (auto simp: prefix_def)
qed

text \<open>The turns that \<open>main_end\<close> plays, when the last one in time is known.\<close>

lemma main_end_plays:
  assumes "\<forall>(time, t) \<in> set soon. time < 500" and "late = [] \<or> 500 \<le> fst (hd late)"
  shows "main_end registered sending (soon @ late) (m, ws) =
    (\<not> registered, fold take_turn (map snd soon) (fold take_turn sending (shutting_down m, ws)))"
proof -
  have "takeWhile (\<lambda>(time, t). time < 500) late = []" using assms(2) by (cases late) auto
  then have "takeWhile (\<lambda>(time, t). time < 500) (soon @ late) = soon"
    using assms(1) by (simp add: takeWhile_append2 case_prod_beta)
  then show ?thesis by (simp add: main_end_def Let_def)
qed

text \<open>When DISCONNECT is due and sent, it stands between packets on the channel, also of a later state.\<close>

lemma bye_on_channel:
  assumes "wire_ok b" and "i < length (b_heap b)" and "sent_on b i = before @ disconnect_all # later"
    and "\<And>buf. buf \<in> set (cs_sent (session_at b i)) \<Longrightarrow> length buf + 2 ^ 17 \<le> 2 ^ 28"
  shows "\<exists>ps qs. list_all wf_packet (ps @ bye # qs) \<and> sent_on b i = map encode_packet (ps @ bye # qs) \<and>
    before = map encode_packet ps"
proof -
  obtain all where all: "list_all wf_packet all" "sent_on b i = map encode_packet all"
    using channel_packets [OF assms(1,2,4)] assms(2) by (auto simp: sent_on_def)
  with assms(3) obtain ps p qs where split: "all = ps @ p # qs" "before = map encode_packet ps" "encode_packet p = disconnect_all"
    by (auto simp: map_eq_append_conv map_eq_Cons_conv)
  have "wf_packet p" "encode_packet p = encode_packet bye" using all(1) split by (simp_all add: disconnect_all_def)
  with packet_roundtrip [of p "[]"] packet_roundtrip [OF small_packets_wf(5), of "[]"] have "p = bye" by simp
  with all split(1,2) show ?thesis by blast
qed

text \<open>A client that is handed the encoding of the first packets reads them.\<close>

lemma reads_goal:
  assumes "all = ps @ p # qs" and "prefix (concat (map encode_packet (ps @ [p]))) out"
    and "out = concat (map encode_packet (take k all)) @ rest" and "k \<le> length all"
    and "if k < length all then strict_prefix rest (encode_packet (all ! k)) else rest = []"
  shows "length ps < k"
proof (rule ccontr)
  assume k: "\<not> length ps < k"
  then have "k < length all" "length rest < length (encode_packet (all ! k))"
    using assms(5) by (auto simp: assms(1) dest: prefix_length_less split: if_splits)
  then have "length out < length (concat (map encode_packet (take (Suc k) all)))"
    by (simp add: assms(3) take_Suc_conv_app_nth)
  moreover have "take (Suc k) all = take (Suc k) (ps @ [p])" using k by (cases "k = length ps") (simp_all add: assms(1))
  then have "concat (map encode_packet (ps @ [p])) =
      concat (map encode_packet (take (Suc k) all)) @ concat (map encode_packet (drop (Suc k) (ps @ [p])))"
    by (metis append_take_drop_id concat_append map_append)
  then have "length (concat (map encode_packet (take (Suc k) all))) \<le> length (concat (map encode_packet (ps @ [p])))"
    by (metis le_add1 length_append)
  ultimately show False using prefix_length_le [OF assms(2)] by simp
qed

text \<open>
  C15: a graceful shutdown reaches the clients in time, or not at all. Let \<open>main\<close>, in any reachable
  state, find a session over TCP or TLS in the map when it gets the lock of the map, with its channel
  still open when \<open>graceful_shutdown\<close> returns; the other threads and the writers go on all the while
  and in the half second that follows. Then the channel carries every packet sent on it until then,
  DISCONNECT with reason 0, and perhaps packets of other threads; when the process exits, the client
  can read exactly the first \<open>k\<close> of these packets; and the DISCONNECT is among them when in the first
  500 milliseconds of the sleep the writer, whose socket takes bytes in whatever portions and without
  a failure, gets done what is left up to the DISCONNECT, counted in bytes and three for each buffer.
  Nothing that would happen later counts.
\<close>

theorem shutdown_reaches_client:
  fixes m :: machine and ws :: "nat \<Rightarrow> transport" and i :: nat and sending :: "turn list"
  defines "s1 \<equiv> fold take_turn sending (shutting_down m, ws)"
  assumes "database_ok db" and "fresh_transports ws0"
    and "serves_to verify (first_machine (start_broker parse credentials oks db env), ws0) (m, ws)"
    and "takes_lock m" and "live (m_broker m) c i"
    and "played verify (sending @ map snd (soon @ late)) (shutting_down m, ws)"
    and "th_actions (m_threads (fst s1) ! 0) = []" and "open_on (m_broker (fst s1)) i" and "snd s1 i = Socket w1"
    and "\<forall>(time, t) \<in> set soon. time < 500" and "late = [] \<or> 500 \<le> fst (hd late)"
    and "main_end registered sending (soon @ late) (m, ws) = (logged, m', ws')" and "ws' i = Socket w"
    and "\<And>buf. buf \<in> set (cs_sent (session_at (m_broker m') i)) \<Longrightarrow> length buf + 2 ^ 17 \<le> 2 ^ 28"
  shows "\<exists>ps qs k rest. list_all wf_packet (ps @ bye # qs) \<and> prefix (sent_on (m_broker m) i) (map encode_packet ps) \<and>
    cs_sent (session_at (m_broker m') i) = map encode_packet (ps @ bye # qs) \<and>
    client_loop [] (wr_out w) = Waiting (take k (ps @ bye # qs)) rest \<and> k \<le> length (ps @ bye # qs) \<and>
    (wr_stage w1 \<notin> {Closing, Terminated} \<and> unbroken i (map snd soon) \<and>
      unwritten (map encode_packet (ps @ [bye])) w1 \<le> progress i (map snd soon) s1 \<longrightarrow> length ps < k) \<and>
    main_end registered sending (soon @ late) (m, ws) = main_end registered sending soon (m, ws)"
proof -
  let ?soon = "map snd soon" and ?start = "(first_machine (start_broker parse credentials oks db env), ws0)"
  define s2 where "s2 = fold take_turn ?soon s1"
  have s2: "s2 = (m', ws')" and same: "main_end registered sending (soon @ late) (m, ws) = main_end registered sending soon (m, ws)"
    using assms(13) main_end_plays [OF assms(11,12)] main_end_plays [OF assms(11), of "[]"] by (simp_all add: s1_def s2_def)
  have played: "played verify sending (shutting_down m, ws)" "played verify ?soon s1"
    using assms(7) by (simp_all add: played_append s1_def)
  have to1: "serves_to verify ?start s1"
    using assms(4) shutting_down_serves [OF assms(5), of verify ws] played_serves [OF played(1)]
    unfolding s1_def by (blast intro: serves_trans)
  then have to2: "serves_to verify ?start (m', ws')"
    using played_serves [OF played(2)] unfolding s2 [symmetric] s2_def by (blast intro: serves_trans)
  have ok: "broker_ok (m_broker m)" "wire_ok (m_broker m')"
    using start_runs_ok [OF serves_runs [OF assms(4)] assms(2)] start_runs_ok [OF serves_runs [OF to2] assms(2)]
    by (simp_all add: machine_ok_def sound_def)
  have w: "writer_ok (sent_on (m_broker (fst s1)) i) w1" "writer_ok (sent_on (m_broker m') i) w"
    using serves_to_ok [of verify _ ws0 "fst s1" "snd s1" i] to1 serves_to_ok [OF to2 assms(3), of i] assms(3,10,14)
    by (simp_all add: transport_ok_def)
  have ext: "extends (m_broker (fst s1)) (m_broker m')"
    using runs_extends [OF serves_runs, of verify "fst s1" "snd s1" m' ws'] played_serves [OF played(2)] s2 by (simp add: s2_def)
  then have i: "i < length (b_heap (m_broker m'))" using assms(9) by (simp add: extends_def open_on_def)
  obtain before later where sent: "sent_on (m_broker (fst s1)) i = before @ disconnect_all # later"
    and before: "prefix (sent_on (m_broker m) i) before"
    using bye_sent [OF assms(5) ok(1) assms(6) played(1)] assms(8,9) unfolding s1_def by blast
  obtain more' where more': "sent_on (m_broker m') i = sent_on (m_broker (fst s1)) i @ more'"
    using extends_prefix [OF ext, of i] by (auto simp: prefix_def)
  from bye_on_channel [OF ok(2) i _ assms(15), of before "later @ more'"] obtain ps qs where
    all: "list_all wf_packet (ps @ bye # qs)" "sent_on (m_broker m') i = map encode_packet (ps @ bye # qs)"
      "before = map encode_packet ps" using sent more' by auto
  let ?goal = "map encode_packet (ps @ [bye])"
  have goal: "prefix ?goal (sent_on (m_broker (fst s1)) i)" by (simp add: sent all(3) disconnect_all_def)
  have "prefix (wr_out w) (concat (map encode_packet (ps @ bye # qs)))"
    using socket.puts [OF w(2)] all(2) by (metis append_take_drop_id concat_append prefixI prefix_order.trans)
  from client_prefix [OF all(1) this] obtain k rest where k:
    "client_loop [] (wr_out w) = Waiting (take k (ps @ bye # qs)) rest"
    "wr_out w = concat (map encode_packet (take k (ps @ bye # qs))) @ rest" "k \<le> length (ps @ bye # qs)"
    "if k < length (ps @ bye # qs) then strict_prefix rest (encode_packet ((ps @ bye # qs) ! k)) else rest = []" by blast
  have "length ps < k" if "wr_stage w1 \<notin> {Closing, Terminated}" "unbroken i ?soon" "unwritten ?goal w1 \<le> progress i ?soon s1"
  proof (rule reads_goal [OF refl _ k(2-4)])
    have "on_course ?goal (0 + progress i ?soon s1) w1" by (rule writer_on_course [OF w(1) goal that(1)]) (use that(3) in simp)
    from on_course_played [OF this played(2) assms(10) that(2) w(1) goal] s2 assms(14)
    have "on_course ?goal 0 w" by (simp add: s2_def)
    then show "prefix (concat ?goal) (wr_out w)" by (rule on_course_done [OF _ w(2)]) (simp add: all(2))
  qed
  with all before k(1,3) i same show ?thesis
    by (intro exI [of _ ps] exI [of _ qs] exI [of _ k] exI [of _ rest]) (auto simp: sent_on_def)
qed

text \<open>
  One client over TCP that has read nothing yet: \<open>main\<close> sends DISCONNECT, and the writer has six turns
  in the next six milliseconds.
\<close>

lemma connected_sessions: "b_sessions (m_broker (machine_of (connected_system verify))) = [(lit ''a'', 0)]"
  using connect_bytes_accepted(2) [of verify] connect_bytes_decode [of "[]"]
  by (auto simp: machine_of_fields connected_system_def handshake_def Let_def alloc_session_def reply_def register_session_def
      sample_connect_def new_session_def session_at_def new_broker_def on_session_def spawn_def split: if_splits)

definition bye_schedule :: "(nat \<times> turn) list" where
  "bye_schedule =
     [(0, Socket_Turn 0 Next), (1, Socket_Turn 0 (Took (length (encode_packet (connack_packet 0))))), (2, Socket_Turn 0 Flushed),
      (3, Socket_Turn 0 Next), (4, Socket_Turn 0 (Took (length disconnect_all))), (5, Socket_Turn 0 Flushed)]"

theorem shutdown_reaches_client_witness:
  "\<exists>m sending m' ws' w rest. live (m_broker m) (lit ''a'') 0 \<and>
     main_end True sending (bye_schedule @ [(500, Socket_Turn 0 Next)]) (m, \<lambda>_. Socket new_writer) = (False, m', ws') \<and>
     ws' 0 = Socket w \<and> client_loop [] (wr_out w) = Waiting [connack_packet 0, bye] rest"
proof -
  let ?m = "machine_of (connected_system (\<lambda>_ _. False))" and ?buf = "encode_packet (connack_packet 0)"
  let ?ws = "\<lambda>_. Socket new_writer" and ?late = "[(500, Socket_Turn 0 Next)]"
  let ?m1 = "set_thread 0 \<lparr>th_actions = [Release Sessions_Read], th_control = Main_Task\<rparr>
      (on_session 0 (send_buf disconnect_all) (m_broker ?m)) ?m"
  let ?m2 = "set_thread 0 (idle Main_Task) (m_broker ?m1) ?m"
  let ?sending = "[Thread_Turn ?m1, Thread_Turn ?m2]"
  have len: "0 < length (m_threads ?m)" by (simp add: machine_of_fields)
  have start: "shutting_down ?m = set_thread 0 \<lparr>th_actions = [Push 0 disconnect_all, Release Sessions_Read],
      th_control = Main_Task\<rparr> (m_broker ?m) ?m"
    by (simp add: shutting_down_def connected_sessions)
  have act: "can_act (set_thread 0 \<lparr>th_actions = a # actions, th_control = Main_Task\<rparr> b ?m) 0" if "orderly (a # actions)" for a actions b
    using unlocked_can_act [OF unlocked_of len that] .
  have lock: "takes_lock ?m" by (rule conjI [OF machine_of_fields(5) act]) simp
  have steps: "machine_step v (shutting_down ?m) ?m1" "machine_step v ?m1 ?m2" for v
    unfolding start using len
      machine_step.act [OF act, of "Push 0 disconnect_all" "[Release Sessions_Read]" _ "Push 0 disconnect_all"]
      machine_step.act [OF act, of "Release Sessions_Read" "[]" _ "Release Sessions_Read"] by simp_all
  let ?b = "m_broker ?m1"
  have c: "0 < length (b_heap (m_broker ?m))" "cs_sent (session_at (m_broker ?m) 0) = [?buf]" "cs_receiver (session_at (m_broker ?m) 0)"
    using connected_channel(2) by auto
  then have b: "open_on ?b 0" "cs_sent (session_at ?b 0) = [?buf, disconnect_all]" "sent_on ?b 0 = [?buf, disconnect_all]"
    by (auto simp: open_on_def sent_on_def session_at_def send_buf_def on_session_def)
  have ne: "?buf \<noteq> []" "disconnect_all \<noteq> []" by (simp_all add: disconnect_all_def encode_packet_def split: prod.split)
  let ?w = "\<lparr>wr_stage = Receiving, wr_taken = Suc (Suc 0), wr_out = ?buf @ disconnect_all\<rparr>"
  let ?s1 = "(?m2, ?ws)" and ?soon = "map snd bye_schedule"
  have sending: "fold take_turn ?sending (shutting_down ?m, ?ws) = ?s1" by simp
  have grace: "fold take_turn ?soon ?s1 = (?m2, ?ws(0 := Socket ?w))" and
    progress: "progress 0 ?soon ?s1 = length ?buf + length disconnect_all + 6"
    using b ne by (simp_all add: bye_schedule_def new_writer_def writer_step_def writing_def unwritten_def)
  have in_time: "\<forall>(time, t) \<in> set bye_schedule. time < 500" by (simp add: bye_schedule_def)
  have main: "main_end True ?sending (bye_schedule @ ?late) (?m, ?ws) = (False, ?m2, ?ws(0 := Socket ?w))"
    using main_end_plays [OF in_time, of ?late True ?sending ?m ?ws] sending grace by simp
  have fresh: "fresh_transports ?ws" by (simp add: fresh_transports_def)
  have live: "live (m_broker ?m) (lit ''a'') 0" using connected_running(2) by (simp add: machine_of_fields)
  have played: "played v (?sending @ map snd (bye_schedule @ ?late)) (shutting_down ?m, ?ws)" for v
    using steps [of v] by (simp add: played_append bye_schedule_def)
  have bound: "length x + 2 ^ 17 \<le> 2 ^ 28" if "x \<in> set (cs_sent (session_at (m_broker ?m2) 0))" for x
  proof -
    have "length disconnect_all = 2"
      by (simp add: disconnect_all_def disconnect_properties_default_def disconnect_properties_body_def encode_disconnect_def encode_eval)
    moreover have "x = ?buf \<or> x = disconnect_all" using that b(2) by simp
    ultimately show ?thesis using connected_channel(3) by auto
  qed
  have "\<exists>ps qs k rest. list_all wf_packet (ps @ bye # qs) \<and> prefix (sent_on (m_broker ?m) 0) (map encode_packet ps) \<and>
    cs_sent (session_at (m_broker ?m2) 0) = map encode_packet (ps @ bye # qs) \<and>
    client_loop [] (wr_out ?w) = Waiting (take k (ps @ bye # qs)) rest \<and> k \<le> length (ps @ bye # qs) \<and>
    (wr_stage new_writer \<notin> {Closing, Terminated} \<and> unbroken 0 ?soon \<and>
      unwritten (map encode_packet (ps @ [bye])) new_writer \<le> progress 0 ?soon ?s1 \<longrightarrow> length ps < k) \<and>
    main_end True ?sending (bye_schedule @ ?late) (?m, ?ws) = main_end True ?sending bye_schedule (?m, ?ws)"
    by (rule shutdown_reaches_client [where sending = ?sending and ws = ?ws and m = ?m, unfolded sending,
          OF empty_database_ok fresh runs_serves [OF connected_channel(1)] lock live played _ _ _ in_time _ main])
      (use b(1) bound len in simp_all)
  then obtain ps qs k rest where ps: "list_all wf_packet (ps @ bye # qs)" "prefix (sent_on (m_broker ?m) 0) (map encode_packet ps)"
    "cs_sent (session_at (m_broker ?m2) 0) = map encode_packet (ps @ bye # qs)"
    "client_loop [] (wr_out ?w) = Waiting (take k (ps @ bye # qs)) rest"
    "unwritten (map encode_packet (ps @ [bye])) new_writer \<le> progress 0 ?soon ?s1 \<longrightarrow> length ps < k"
    by (auto simp: unbroken_def new_writer_def bye_schedule_def)
  have "[?buf, disconnect_all] = map encode_packet (ps @ bye # qs)" "prefix [?buf] (map encode_packet ps)"
    using ps(2,3) b(2) c by (simp_all add: sent_on_def)
  then obtain p where p: "ps = [p]" "qs = []" "encode_packet p = ?buf" by (cases ps) (auto simp: Cons_eq_append_conv)
  have wf: "wf_packet p" using ps(1) p(1) by simp
  from packet_roundtrip [OF wf, of "[]"] packet_roundtrip [OF small_packets_wf(2), of 0 "[]"] p(3)
  have "p = connack_packet 0" by simp
  moreover have "Suc 0 < k"
    using ps(5) progress by (simp add: p unwritten_def new_writer_def disconnect_all_def)
  ultimately have "client_loop [] (wr_out ?w) = Waiting [connack_packet 0, bye] rest"
    using ps(4) by (simp add: p)
  with live main show ?thesis by (intro exI conjI) (assumption | simp)+
qed

end
