(* ===== verification/End_To_End.thy ===== *)
theory End_To_End imports Serving begin

text \<open>
  From a publication to its readers: the router, the interleaved threads, the writers, the encoder and
  the client's decoder composed.
\<close>

text \<open>
  A buffer pushed on a channel that is still open later stands there between what was sent before and
  what was sent after.
\<close>

lemma pushed_position:
  assumes "pushes verify kept k m log m'" and "(j, buf) \<in> set log" and "j < length (b_heap (m_broker m))"
    and "open_on (m_broker m') j"
  shows "\<exists>n. length (sent_on (m_broker m) j) \<le> n \<and> n < length (sent_on (m_broker m') j) \<and> sent_on (m_broker m') j ! n = buf"
proof -
  from pushes_on_channels [OF assms(1,3,4)] obtain added where
    added: "sent_on (m_broker m') j = sent_on (m_broker m) j @ added" "subseq (pushes_on j log) added" by blast
  have "buf \<in> set (pushes_on j log)" using assms(2) by (force simp: pushes_on_def)
  with added(2) have "buf \<in> set added" by (auto elim: list_emb_set)
  then obtain n where "n < length added" "added ! n = buf" by (metis in_set_conv_nth)
  with added(1) show ?thesis by (intro exI [of _ "length (sent_on (m_broker m) j) + n"]) simp
qed

lemma delivered_logged:
  assumes "list_all2 (delivered (lookups kept b b') msg) subs logs" and "sub \<in> set subs"
    and "si_client_id sub \<in> kept" and "map_of (b_sessions b) (si_client_id sub) = Some j"
  shows "\<exists>pid. (pid = None \<longleftrightarrow> msg_qos msg = 0) \<and> (j, message_bytes msg sub pid) \<in> set (concat logs)"
proof -
  from assms(1,2) obtain log where "log \<in> set logs" "delivered (lookups kept b b') msg sub log"
    by (metis in_set_conv_nth list_all2_conv_all_nth)
  moreover from this assms(3,4) obtain pid where "pid = None \<longleftrightarrow> msg_qos msg = 0" "log = [(j, message_bytes msg sub pid)]"
    by (auto simp: delivered_def lookups_def)
  ultimately show ?thesis by (intro exI [of _ pid]) (auto intro: bexI [of _ log])
qed

section \<open>From the match to the channel\<close>

text \<open>
  Thread \<open>k\<close> is about to match a publication at \<open>m\<close> and has finished its packet at \<open>m'\<close>; all other
  threads go on as they like in between, but for the entries of the clients \<open>kept\<close> in the session map.
\<close>

definition publishes ::
  "(rstr \<Rightarrow> rstr \<Rightarrow> bool) \<Rightarrow> rstr set \<Rightarrow> nat \<Rightarrow> machine \<Rightarrow> message \<Rightarrow> machine \<Rightarrow> bool" where
  "publishes verify kept k m msg m' \<longleftrightarrow> can_act m k \<and>
     (\<exists>i pkt rc. th_actions (m_threads m ! k) = MatchTopic msg # acknowledge_actions i pkt rc) \<and>
     (\<exists>log. pushes verify kept k (moves m k) log m') \<and> th_actions (m_threads m' ! k) = []"

text \<open>A subscription without group that matches, of a client with a session that is in the map and stays there.\<close>

definition recipient :: "rstr set \<Rightarrow> broker \<Rightarrow> message \<Rightarrow> subscription_info \<Rightarrow> nat \<Rightarrow> bool" where
  "recipient kept b msg sub j \<longleftrightarrow> sub \<in># picked (segments (msg_topic msg)) None (table (b_router b)) \<and>
     map_of (b_sessions b) (si_client_id sub) = Some j \<and> si_client_id sub \<in> kept"

definition message_packet :: "message \<Rightarrow> subscription_info \<Rightarrow> u16 option \<Rightarrow> packet" where
  "message_packet msg sub pid =
     publish_packet (msg_topic msg) (msg_payload msg) (msg_qos msg) (msg_retain msg) pid (si_subscription_identifier sub)"

lemma publishes_runs: "publishes verify kept k m msg m' \<Longrightarrow> runs_to verify m m'"
  using runs_step [OF action_moves pushes_runs] unfolding publishes_def by blast

lemma published_position:
  assumes "database_ok db" and "runs_to verify (first_machine (start_broker parse credentials oks db env)) m"
    and "publishes verify kept k m msg m'" and "recipient kept (m_broker m) msg sub j" and "open_on (m_broker m') j"
  shows "\<exists>pid n. (pid = None \<longleftrightarrow> msg_qos msg = 0) \<and> sendable (message_packet msg sub pid) \<and>
    length (sent_on (m_broker m) j) \<le> n \<and> n < length (sent_on (m_broker m') j) \<and>
    sent_on (m_broker m') j ! n = encode_packet (message_packet msg sub pid)"
proof -
  from assms(3) obtain i pkt rc log where
    p: "can_act m k" "th_actions (m_threads m ! k) = MatchTopic msg # acknowledge_actions i pkt rc"
      "pushes verify kept k (moves m k) log m'" "th_actions (m_threads m' ! k) = []"
    unfolding publishes_def by blast
  from assms(4) have r: "sub \<in># picked (segments (msg_topic msg)) None (table (b_router (m_broker m)))"
    "map_of (b_sessions (m_broker m)) (si_client_id sub) = Some j" "si_client_id sub \<in> kept"
    by (simp_all add: recipient_def)
  from publication_log [OF assms(1,2) p] obtain direct chosen logs where
    log: "log = concat logs @ concat (map pushed (acknowledge_actions i pkt rc))"
      "list_all2 (delivered (lookups kept (m_broker m) (m_broker m')) msg) (direct @ chosen) logs"
      "mset direct = picked (segments (msg_topic msg)) None (table (b_router (m_broker m)))" by blast
  have "sub \<in> set (direct @ chosen)" using r(1) log(3) by (metis UnI1 set_append set_mset_mset)
  from delivered_logged [OF log(2) this r(3,2)] obtain pid where
    pid: "pid = None \<longleftrightarrow> msg_qos msg = 0" "(j, message_bytes msg sub pid) \<in> set log" using log(1) by auto
  note ok = start_runs_ok [OF assms(2,1)]
  then have sound: "broker_ok (m_broker m)" "wire_ok (m_broker m)" by (simp_all add: machine_ok_def sound_def)
  have b: "m_broker (moves m k) = m_broker m" using p(2) by (simp add: moves_def Let_def)
  with live_ok [OF sound(1)] r(2) have "j < length (b_heap (m_broker (moves m k)))" by (simp add: live_def)
  from pushed_position [OF p(3) pid(2) this assms(5)] obtain n where
    n: "length (sent_on (m_broker m) j) \<le> n" "n < length (sent_on (m_broker m') j)"
      "sent_on (m_broker m') j ! n = message_bytes msg sub pid" by (auto simp: b)
  have k: "k < length (m_threads m)" using p(1) by (simp add: can_act_def)
  have "message_ok msg" using thread_at [OF ok k] p(2) by (auto simp: thread_ok_def)
  moreover have "recipient_ok sub"
    using r(1) sound(2) by (auto simp: picked_def wire_ok_def identifiers_ok_def recipient_ok_def)
  ultimately have "sendable (message_packet msg sub pid)"
    unfolding message_packet_def using pid(1)
    by (intro sendable_publish) (auto simp: message_ok_def recipient_ok_def word_gt_0)
  moreover have "message_bytes msg sub pid = encode_packet (message_packet msg sub pid)"
    by (simp add: message_bytes_def publish_bytes_def message_packet_def)
  ultimately show ?thesis using pid(1) n by auto
qed

section \<open>From the channel to the client\<close>

text \<open>The writer of session \<open>j\<close> has written all that was sent and waits for the channel.\<close>

definition caught_up :: "broker \<Rightarrow> nat \<Rightarrow> transport \<Rightarrow> writer \<Rightarrow> bool" where
  "caught_up b j t w \<longleftrightarrow> t = Socket w \<and> wr_stage w = Receiving \<and> wr_taken w = length (cs_sent (session_at b j))"

text \<open>Its client then has every packet of the channel at its place.\<close>

lemma client_has_all:
  assumes "database_ok db" and "fresh_transports ws0"
    and "serves_to verify (first_machine (start_broker parse credentials oks db env), ws0) (m, ws)"
    and "open_on (m_broker m) j" and "caught_up (m_broker m) j (ws j) w"
    and "\<And>buf. buf \<in> set (cs_sent (session_at (m_broker m) j)) \<Longrightarrow> length buf + 2 ^ 17 \<le> 2 ^ 28"
    and "concat chunks = wr_out w"
  shows "\<exists>ps. foldl (feed client_loop) (Waiting [] []) chunks = Waiting ps [] \<and>
    length ps = length (sent_on (m_broker m) j) \<and>
    (\<forall>n p. n < length ps \<longrightarrow> sendable p \<longrightarrow> sent_on (m_broker m) j ! n = encode_packet p \<longrightarrow> ps ! n = p)"
proof -
  let ?sent = "cs_sent (session_at (m_broker m) j)"
  from assms(4) have j: "j < length (b_heap (m_broker m))" and sent: "sent_on (m_broker m) j = ?sent"
    by (simp_all add: open_on_def sent_on_def)
  from assms(5) have w: "ws j = Socket w" "wr_stage w = Receiving" "wr_taken w = length ?sent" by (simp_all add: caught_up_def)
  from socket_client_reads [OF assms(1-3) j w(1) assms(7,6)] w(2,3) obtain ps where
    ps: "list_all wf_packet ps" "?sent = map encode_packet ps" "foldl (feed client_loop) (Waiting [] []) chunks = Waiting ps []"
    by auto
  have "ps ! n = p" if n: "n < length ps" and p: "sendable p" "?sent ! n = encode_packet p" for n p
  proof -
    have bytes: "encode_packet (ps ! n) = encode_packet p" using ps(2) n p(2) by (simp add: nth_map)
    have "?sent ! n \<in> set ?sent" using ps(2) n by simp
    with assms(6) p have "wf_packet p" by (metis sendable_short)
    moreover have "wf_packet (ps ! n)" using ps(1) n by (simp add: list_all_length)
    ultimately show ?thesis
      using bytes packet_roundtrip [of "ps ! n" "[]"] packet_roundtrip [of p "[]"] by simp
  qed
  with ps show ?thesis unfolding sent by (intro exI [of _ ps]) simp
qed

text \<open>A position on a channel that stays open stays what it is.\<close>

lemma later_position:
  assumes "serves_to verify (m, ws) (m', ws')" and "n < length (sent_on (m_broker m) j)"
  shows "n < length (sent_on (m_broker m') j)" and "sent_on (m_broker m') j ! n = sent_on (m_broker m) j ! n"
  using extends_prefix [OF runs_extends [OF serves_runs [OF assms(1)]], of j] assms(2)
  by (auto simp: prefix_def nth_append)

lemma still_open:
  assumes "serves_to verify (m, ws) (m', ws')" and "open_on (m_broker m') j" and "j < length (b_heap (m_broker m))"
  shows "open_on (m_broker m) j"
  using runs_extends [OF serves_runs [OF assms(1)]] assms(2,3) by (simp add: extends_def)

lemma recipient_opened:
  assumes "database_ok db" and "runs_to verify (first_machine (start_broker parse credentials oks db env)) m"
    and "publishes verify kept k m msg m'" and "recipient kept (m_broker m) msg sub j"
    and "serves_to verify (m', ws1) (m'', ws)" and "open_on (m_broker m'') j"
  shows "open_on (m_broker m') j"
proof (rule still_open [OF assms(5,6)])
  from start_runs_ok [OF assms(2,1)] have "broker_ok (m_broker m)" by (simp add: machine_ok_def sound_def)
  with live_ok [of "m_broker m" "si_client_id sub" j] assms(4) have "j < length (b_heap (m_broker m))"
    by (simp add: recipient_def live_def)
  moreover from assms(3) have "extends (m_broker m) (m_broker m')"
    using step_extends [OF action_moves [of m k]] pushes_extends extends_trans unfolding publishes_def by meson
  ultimately show "j < length (b_heap (m_broker m'))" by (simp add: extends_def)
qed

section \<open>Properties\<close>

text \<open>
  C1: a published message is read by its subscribers, at its place. A thread matches a publication
  while others run, and all threads and writers go on as they like. Take a subscription without group
  whose filter matches, whose client has a session in the map, over TCP or TLS, and keeps it there
  until that thread is done, and which is still open when its writer has nothing left to do. The
  client decodes its stream, in whatever chunks it arrives, and finds the PUBLISH with topic, payload,
  QoS and retain flag of the publication, the identifier of the subscription, and a packet identifier
  exactly at QoS above 0; it stands behind every packet sent to the client before the match and before
  every packet sent to it after the thread was done, so that publications are read in their order.
\<close>

theorem published_message_is_read:
  assumes "database_ok db" and "runs_to verify (first_machine (start_broker parse credentials oks db env)) m"
    and "publishes verify kept k m msg m'" and "recipient kept (m_broker m) msg sub j"
    and "fresh_transports ws0"
    and "serves_to verify (first_machine (start_broker parse credentials oks db env), ws0) (m', ws1)"
    and "serves_to verify (m', ws1) (m'', ws)" and "open_on (m_broker m'') j"
    and "caught_up (m_broker m'') j (ws j) w"
    and "\<And>buf. buf \<in> set (cs_sent (session_at (m_broker m'') j)) \<Longrightarrow> length buf + 2 ^ 17 \<le> 2 ^ 28"
    and "concat chunks = wr_out w"
  shows "\<exists>ps pid n. foldl (feed client_loop) (Waiting [] []) chunks = Waiting ps [] \<and>
    (pid = None \<longleftrightarrow> msg_qos msg = 0) \<and>
    length (sent_on (m_broker m) j) \<le> n \<and> n < length (sent_on (m_broker m') j) \<and> n < length ps \<and>
    ps ! n = publish_packet (msg_topic msg) (msg_payload msg) (msg_qos msg) (msg_retain msg) pid (si_subscription_identifier sub)"
proof -
  from published_position [OF assms(1-4) recipient_opened [OF assms(1-4,7,8)]] obtain pid n where
    n: "pid = None \<longleftrightarrow> msg_qos msg = 0" "sendable (message_packet msg sub pid)" "length (sent_on (m_broker m) j) \<le> n"
      "n < length (sent_on (m_broker m') j)" "sent_on (m_broker m') j ! n = encode_packet (message_packet msg sub pid)"
    by blast
  from client_has_all [OF assms(1,5) serves_trans [OF assms(6,7)] assms(8-11)] obtain ps where
    ps: "foldl (feed client_loop) (Waiting [] []) chunks = Waiting ps []" "length ps = length (sent_on (m_broker m'') j)"
      "\<forall>n p. n < length ps \<longrightarrow> sendable p \<longrightarrow> sent_on (m_broker m'') j ! n = encode_packet p \<longrightarrow> ps ! n = p" by blast
  note later = later_position [OF assms(7) n(4)]
  have "n < length ps" using later(1) ps(2) by simp
  moreover from this ps(3) n(2,5) later(2) have "ps ! n = message_packet msg sub pid" by simp
  ultimately show ?thesis using n(1,3,4) ps(1) unfolding message_packet_def by blast
qed

text \<open>
  C2: publications are read in the order in which they were made. The first publication is matched and
  its thread finishes the packet; later, by the same or another thread, a second one is matched, and
  its thread finishes. A client over TCP or TLS that is a recipient of both, through subscriptions
  without group, and whose writer has nothing left to do, finds both PUBLISH packets in its stream,
  the first one before the second one, whatever else was sent to it.
\<close>

theorem publications_read_in_order:
  assumes "database_ok db" and "runs_to verify (first_machine (start_broker parse credentials oks db env)) m1"
    and "publishes verify kept1 k1 m1 msg1 m1'" and "recipient kept1 (m_broker m1) msg1 sub1 j"
    and "serves_to verify (m1', ws1) (m2, ws2)"
    and "publishes verify kept2 k2 m2 msg2 m2'" and "recipient kept2 (m_broker m2) msg2 sub2 j"
    and "fresh_transports ws0"
    and "serves_to verify (first_machine (start_broker parse credentials oks db env), ws0) (m2', ws2')"
    and "serves_to verify (m2', ws2') (m3, ws)" and "open_on (m_broker m3) j"
    and "caught_up (m_broker m3) j (ws j) w"
    and "\<And>buf. buf \<in> set (cs_sent (session_at (m_broker m3) j)) \<Longrightarrow> length buf + 2 ^ 17 \<le> 2 ^ 28"
    and "concat chunks = wr_out w"
  shows "\<exists>ps pid1 pid2 n1 n2. foldl (feed client_loop) (Waiting [] []) chunks = Waiting ps [] \<and>
    (pid1 = None \<longleftrightarrow> msg_qos msg1 = 0) \<and> (pid2 = None \<longleftrightarrow> msg_qos msg2 = 0) \<and> n1 < n2 \<and> n2 < length ps \<and>
    ps ! n1 = message_packet msg1 sub1 pid1 \<and> ps ! n2 = message_packet msg2 sub2 pid2"
proof -
  note r2 = runs_trans [OF runs_trans [OF assms(2) publishes_runs [OF assms(3)]] serves_runs [OF assms(5)]]
  note r22 = publishes_runs [OF assms(6)]
  have s2: "serves_to verify (m2, ws2) (m2', ws2)" by (rule runs_serves [OF r22])
  have s3: "serves_to verify (m2', ws2) (m3, ws2)" by (rule runs_serves [OF serves_runs [OF assms(10)]])
  note on = serves_trans [OF assms(5) serves_trans [OF s2 s3]]
  from published_position [OF assms(1-4) recipient_opened [OF assms(1-4) on assms(11)]] obtain pid1 n1 where
    n1: "sendable (message_packet msg1 sub1 pid1)" "n1 < length (sent_on (m_broker m1') j)"
      "sent_on (m_broker m1') j ! n1 = encode_packet (message_packet msg1 sub1 pid1)" "pid1 = None \<longleftrightarrow> msg_qos msg1 = 0" by blast
  from published_position [OF assms(1) r2 assms(6,7) recipient_opened [OF assms(1) r2 assms(6,7,10,11)]] obtain pid2 n2 where
    n2: "sendable (message_packet msg2 sub2 pid2)" "length (sent_on (m_broker m2) j) \<le> n2"
      "n2 < length (sent_on (m_broker m2') j)" "sent_on (m_broker m2') j ! n2 = encode_packet (message_packet msg2 sub2 pid2)" "pid2 = None \<longleftrightarrow> msg_qos msg2 = 0"
    by blast
  from client_has_all [OF assms(1,8) serves_trans [OF assms(9,10)] assms(11-14)] obtain ps where
    ps: "foldl (feed client_loop) (Waiting [] []) chunks = Waiting ps []" "length ps = length (sent_on (m_broker m3) j)"
      "\<And>n p. n < length ps \<Longrightarrow> sendable p \<Longrightarrow> sent_on (m_broker m3) j ! n = encode_packet p \<Longrightarrow> ps ! n = p" by blast
  note later1 = later_position [OF on n1(2)] and later2 = later_position [OF assms(10) n2(3)]
  have "n1 < n2" using later_position(1) [OF assms(5) n1(2)] n2(2) by simp
  moreover have "n2 < length ps" "ps ! n2 = message_packet msg2 sub2 pid2" using later2 ps(2,3) n2(1,4) by simp_all
  moreover have "ps ! n1 = message_packet msg1 sub1 pid1" using later1 ps(2,3) n1(1,3) by simp
  ultimately show ?thesis using ps(1) n1(4) n2(5) by blast
qed

section \<open>A run\<close>

text \<open>
  The subscribed client publishes to its own filter, once and twice, and its writer writes all that is
  on its channel.
\<close>

lemma sample_publishes:
  assumes "subscriber_state sent b"
  shows "\<exists>b'. subscriber_state (sent @ [encode_packet (delivered_publish x)]) b' \<and>
    publishes verify kept 2 (reading_at verify [MatchTopic (sample_message x)] (Decode 0 []) b) (sample_message x)
      (reading_at verify [] (Decode 0 []) b')"
proof -
  have "th_actions (m_threads (reading_at verify [MatchTopic (sample_message x)] (Decode 0 []) b) ! 2) =
      MatchTopic (sample_message x) # acknowledge_actions 0 (pending_publish x) 0" by (simp add: sample_acknowledged)
  moreover have "can_act (reading_at verify [MatchTopic (sample_message x)] (Decode 0 []) b) 2"
    by (rule reading_at_can_act) simp
  ultimately show ?thesis
    using publishing_machine [OF assms, of x verify kept] unfolding publishes_def by force
qed

lemma sample_recipient: "subscriber_state sent b \<Longrightarrow> recipient UNIV b (sample_message x) sample_entry 0"
  by (simp add: recipient_def sample_picked) (simp add: subscriber_state_def sample_entry_def)

lemma subscriber_channel:
  assumes "subscriber_state sent b"
  shows "cs_sent (session_at b 0) = sent" and "sent_on b 0 = sent" and "open_on b 0"
  using assms by (auto simp: subscriber_state_def session_at_def sent_on_def open_on_def)

lemma waits_again:
  "runs_to verify (reading_at verify [] (Decode 0 []) b) (reading_at verify [] (Await 0 []) b)"
proof -
  have "decode_packet [] = Err Incomplete" by (simp add: decode_packet_def)
  with next_packet_step [OF subscriber_threads [of verify], of verify "Decode 0 []" b] show ?thesis
    by (auto simp: reading_at_def runs_to_def)
qed

definition writes :: "bytes list \<Rightarrow> socket_event list" where
  "writes bufs = concat (map (\<lambda>buf. [Next, Took (length buf), Flushed]) bufs)"

lemma fold_writes:
  assumes "[] \<notin> set bufs" and "n \<le> length bufs"
  shows "fold (writer_step bufs) (writes (take n bufs)) new_writer =
    \<lparr>wr_stage = Receiving, wr_taken = n, wr_out = concat (take n bufs)\<rparr>"
  using assms(2)
proof (induction n)
  case 0
  show ?case by (simp add: writes_def new_writer_def)
next
  case (Suc n)
  then have "take (Suc n) bufs = take n bufs @ [bufs ! n]" "bufs ! n \<noteq> []"
    using assms(1) by (auto simp: take_Suc_conv_app_nth) (metis Suc_le_lessD nth_mem)
  with Suc show ?case by (simp add: writes_def writer_step_def writing_def)
qed

lemma sample_writer:
  assumes "subscriber_state (map encode_packet ps) b"
  defines "w \<equiv> fold (writer_step (map encode_packet ps)) (writes (map encode_packet ps)) new_writer"
  shows "serves_to verify (reading_at verify actions control b, \<lambda>_. Socket new_writer)
      (reading_at verify actions control b, (\<lambda>_. Socket new_writer)(0 := Socket w))"
    and "caught_up (m_broker (reading_at verify actions control b)) 0 (((\<lambda>_. Socket new_writer)(0 := Socket w)) 0) w" and "wr_out w = concat (map encode_packet ps)"
proof -
  note c = subscriber_channel [OF assms(1)]
  have "[] \<notin> set (map encode_packet ps)" by (auto simp: encode_packet_def split: prod.splits)
  from fold_writes [OF this, of "length ps"]
  have w: "w = \<lparr>wr_stage = Receiving, wr_taken = length ps, wr_out = concat (map encode_packet ps)\<rparr>"
    by (simp add: w_def)
  show "serves_to verify (reading_at verify actions control b, \<lambda>_. Socket new_writer)
      (reading_at verify actions control b, (\<lambda>_. Socket new_writer)(0 := Socket w))"
    using runs_then_writes [of verify _ "reading_at verify actions control b" 0 "\<lambda>_. Socket new_writer" new_writer] c
    by (simp add: runs_to_def w_def)
  show "caught_up (m_broker (reading_at verify actions control b)) 0 (((\<lambda>_. Socket new_writer)(0 := Socket w)) 0) w" "wr_out w = concat (map encode_packet ps)"
    using c(1) by (simp_all add: caught_up_def w)
qed

lemma delivered_publish_length: "length (encode_packet (delivered_publish x)) + 2 ^ 17 \<le> 2 ^ 28"
  by (simp add: delivered_publish_def publish_packet_def publish_properties_default_def publish_properties_body_def
      encode_publish_def encode_eval)

lemma sample_packet: "message_packet (sample_message x) sample_entry None = delivered_publish x"
  by (simp add: message_packet_def sample_message_def sample_entry_def delivered_publish_def)

lemmas sample_lengths = connected_channel(3) suback_sample_length delivered_publish_length

lemma sample_fresh: "fresh_transports (\<lambda>_. Socket new_writer)"
  by (simp add: fresh_transports_def)

theorem published_message_is_read_witness:
  "\<exists>ps n. foldl (feed client_loop) (Waiting [] [])
     [encode_packet (connack_packet 0) @ encode_packet suback_sample, encode_packet (delivered_publish 7)] = Waiting ps [] \<and>
   2 \<le> n \<and> n < length ps \<and> ps ! n = delivered_publish 7"
proof -
  let ?v = "\<lambda>_ _. False" and ?ws = "\<lambda>_ :: nat. Socket new_writer"
  let ?sent = "[connack_packet 0, suback_sample, delivered_publish 7]"
  obtain b where r: "runs_to ?v (machine_of (subscribed_system ?v)) (reading_at ?v [MatchTopic (sample_message 7)] (Decode 0 []) b)"
    and b: "subscriber_state [encode_packet (connack_packet 0), encode_packet suback_sample] b"
    using matching_machine [OF subscribed_start(1)] subscribed_start(2) by metis
  let ?m = "reading_at ?v [MatchTopic (sample_message 7)] (Decode 0 []) b"
  from sample_publishes [OF b, of 7] obtain b' where
    b': "subscriber_state (map encode_packet ?sent) b'"
    and p: "publishes ?v UNIV 2 ?m (sample_message 7) (reading_at ?v [] (Decode 0 []) b')" by auto
  let ?m' = "reading_at ?v [] (Decode 0 []) b'"
  note w = sample_writer(1,2) [OF b', of ?v "[]" "Decode 0 []"] sample_writer(3) [OF b']
  have first: "runs_to ?v (first_machine (start_broker (\<lambda>_. None) open_credentials all_ok empty_database (\<lambda>_. None))) ?m"
    by (rule runs_trans [OF subscribed_runs r])
  have rec: "recipient UNIV (m_broker ?m) (sample_message 7) sample_entry 0" using sample_recipient [OF b] by simp
  have s1: "serves_to ?v (first_machine (start_broker (\<lambda>_. None) open_credentials all_ok empty_database (\<lambda>_. None)), ?ws) (?m', ?ws)"
    by (rule runs_serves [OF runs_trans [OF first publishes_runs [OF p]]])
  have op: "open_on (m_broker ?m') 0" using subscriber_channel(3) [OF b'] by simp
  have lengths: "length buf + 2 ^ 17 \<le> 2 ^ 28" if "buf \<in> set (cs_sent (session_at (m_broker ?m') 0))" for buf
    using that sample_lengths subscriber_channel(1) [OF b'] by auto
  have chunks: "concat [encode_packet (connack_packet 0) @ encode_packet suback_sample, encode_packet (delivered_publish 7)] =
      wr_out (fold (writer_step (map encode_packet ?sent)) (writes (map encode_packet ?sent)) new_writer)"
    unfolding w(3) by simp
  have two: "length (sent_on (m_broker ?m) 0) = 2" using subscriber_channel(2) [OF b] by simp
  obtain ps pid n where "foldl (feed client_loop) (Waiting [] [])
      [encode_packet (connack_packet 0) @ encode_packet suback_sample, encode_packet (delivered_publish 7)] = Waiting ps []"
    "pid = None \<longleftrightarrow> msg_qos (sample_message 7) = 0" "2 \<le> n" "n < length ps" "ps ! n = message_packet (sample_message 7) sample_entry pid"
    using published_message_is_read
      [OF empty_database_ok first p rec sample_fresh s1 w(1) op w(2) lengths chunks, unfolded two, folded message_packet_def] by auto
  moreover have "msg_qos (sample_message 7) = 0" by (simp add: sample_message_def)
  ultimately show ?thesis using sample_packet by metis
qed

theorem publications_read_in_order_witness:
  "\<exists>ps n1 n2. foldl (feed client_loop) (Waiting [] [])
     (map encode_packet [connack_packet 0, suback_sample, delivered_publish 7, delivered_publish 8]) = Waiting ps [] \<and>
   n1 < n2 \<and> n2 < length ps \<and> ps ! n1 = delivered_publish 7 \<and> ps ! n2 = delivered_publish 8"
proof -
  let ?v = "\<lambda>_ _. False" and ?ws = "\<lambda>_ :: nat. Socket new_writer"
  let ?sent = "[connack_packet 0, suback_sample, delivered_publish 7, delivered_publish 8]"
  let ?match = "\<lambda>x. reading_at ?v [MatchTopic (sample_message x)] (Decode 0 [])"
  obtain b1 where r: "runs_to ?v (machine_of (subscribed_system ?v)) (?match 7 b1)"
    and b1: "subscriber_state [encode_packet (connack_packet 0), encode_packet suback_sample] b1"
    using matching_machine [OF subscribed_start(1)] subscribed_start(2) by metis
  from sample_publishes [OF b1, of 7] obtain b1' where
    b1': "subscriber_state (map encode_packet [connack_packet 0, suback_sample, delivered_publish 7]) b1'"
    and p1: "publishes ?v UNIV 2 (?match 7 b1) (sample_message 7) (reading_at ?v [] (Decode 0 []) b1')" by auto
  from matching_machine [OF b1', of ?v 8] obtain b2 where
    r2: "runs_to ?v (reading_at ?v [] (Await 0 []) b1') (?match 8 b2)"
    and b2: "subscriber_state (map encode_packet [connack_packet 0, suback_sample, delivered_publish 7]) b2" by blast
  from sample_publishes [OF b2, of 8] obtain b2' where b2': "subscriber_state (map encode_packet ?sent) b2'"
    and p2: "publishes ?v UNIV 2 (?match 8 b2) (sample_message 8) (reading_at ?v [] (Decode 0 []) b2')" by auto
  let ?m' = "reading_at ?v [] (Decode 0 []) b2'"
  note w = sample_writer(1,2) [OF b2', of ?v "[]" "Decode 0 []"] sample_writer(3) [OF b2']
  have first: "runs_to ?v (first_machine (start_broker (\<lambda>_. None) open_credentials all_ok empty_database (\<lambda>_. None))) (?match 7 b1)"
    by (rule runs_trans [OF subscribed_runs r])
  note between = runs_trans [OF waits_again r2]
  note all = runs_trans [OF runs_trans [OF first publishes_runs [OF p1]] runs_trans [OF between publishes_runs [OF p2]]]
  have rec: "recipient UNIV (m_broker (?match 7 b1)) (sample_message 7) sample_entry 0"
    "recipient UNIV (m_broker (?match 8 b2)) (sample_message 8) sample_entry 0"
    using sample_recipient [OF b1] sample_recipient [OF b2] by simp_all
  have op: "open_on (m_broker ?m') 0" using subscriber_channel(3) [OF b2'] by simp
  have lengths: "length buf + 2 ^ 17 \<le> 2 ^ 28" if "buf \<in> set (cs_sent (session_at (m_broker ?m') 0))" for buf
    using that sample_lengths subscriber_channel(1) [OF b2'] by auto
  note chunks = w(3) [symmetric]
  have q: "msg_qos (sample_message x) = 0" for x by (simp add: sample_message_def)
  obtain ps pid1 pid2 n1 n2 where "foldl (feed client_loop) (Waiting [] []) (map encode_packet ?sent) = Waiting ps []"
    "pid1 = None" "pid2 = None" "n1 < n2" "n2 < length ps" "ps ! n1 = message_packet (sample_message 7) sample_entry pid1"
    "ps ! n2 = message_packet (sample_message 8) sample_entry pid2"
    using publications_read_in_order [OF empty_database_ok first p1 rec(1) runs_serves [OF between] p2 rec(2) sample_fresh
        runs_serves [OF all] w(1) op w(2) lengths chunks] by (auto simp: q)
  then show ?thesis using sample_packet by metis
qed

end
