(* ===== verification/Unsupported.thy ===== *)
theory Unsupported imports Connection_Properties begin

text \<open>
  Packet types that the decoder of \<open>src/codec.rs\<close> does not know: PUBREC, PUBREL, PUBCOMP, UNSUBSCRIBE,
  UNSUBACK and AUTH. What they do to the connection that receives them, and to a subscriber of a
  message at QoS 2.
\<close>

definition frame :: "u8 \<Rightarrow> bytes \<Rightarrow> bytes" where
  "frame header payload = header # encode_varint (of_nat (length payload)) @ payload"

definition unsupported :: "u8 \<Rightarrow> bool" where
  "unsupported header \<longleftrightarrow> drop_bit 4 header \<notin> {1, 2, 3, 4, 8, 9, 12, 13, 14}"

lemma decode_unsupported:
  assumes "unsupported header" and "length payload < 2 ^ 28"
  shows "decode_packet (frame header payload @ rest) = Err MalformedPacket"
  using assms split_frame_encode [OF assms(2), of header rest]
  by (simp add: decode_packet_split frame_def unsupported_def decode_payload_def)

text \<open>A whole frame of such a type ends the connection with an error, and the session leaves the map.\<close>

theorem unsupported_packet_ends_connection:
  assumes "broker_ok b" and "live b c i" and "unsupported header" and "length payload < 2 ^ 28"
  shows "\<exists>b'. connection_event verify (Received (frame header payload @ rest)) (Running i []) b =
      (Done (Some (CodecFailure MalformedPacket)), b') \<and> \<not> live b' c j \<and> \<not> cs_receiver (session_at b' i)"
proof -
  let ?b = "on_session i (update_activity (b_clock b)) b"
  have "drain i ?b (frame header payload @ rest) = Failed (CodecFailure MalformedPacket) ?b"
    using decode_unsupported [OF assms(3,4), of rest] by (subst drain.simps) simp
  then have e: "connection_event verify (Received (frame header payload @ rest)) (Running i []) b =
      (Done (Some (CodecFailure MalformedPacket)), cleanup i ?b)" by simp
  have "i < length (b_heap b)" "cs_client_id (session_at b i) = c" using live_ok [OF assms(1,2)] by simp_all
  with connection_ended [OF assms(1) _ e] e show ?thesis by blast
qed

text \<open>UNSUBSCRIBE of the filter \<open>a\<close>, as MQTT writes it.\<close>

definition unsubscribe_frame :: bytes where
  "unsubscribe_frame = frame 0xA2 (write_u16 1 @ [0] @ write_str (lit ''a''))"

theorem unsupported_packet_ends_connection_witness:
  "\<exists>b'. connection_event (\<lambda>_ _. False) (Received unsubscribe_frame) (Running 0 []) demo_broker =
      (Done (Some (CodecFailure MalformedPacket)), b') \<and> \<not> live b' (lit ''c'') 0"
proof -
  have "unsupported 0xA2" by (simp add: unsupported_def)
  moreover have "length (write_u16 1 @ [0] @ write_str (lit ''a'')) < 2 ^ 28" by simp
  ultimately show ?thesis
    using unsupported_packet_ends_connection [OF demo_broker_facts(1,2), of "0xA2" _ "\<lambda>_ _. False" "[]" 0]
    unfolding unsubscribe_frame_def append_Nil2 by blast
qed

text \<open>The PUBREC with which a receiver has to answer a PUBLISH at QoS 2.\<close>

definition pubrec_frame :: "u16 \<Rightarrow> bytes" where
  "pubrec_frame packet_id = frame 0x50 (write_u16 packet_id)"

lemma deliver_qos2:
  assumes "cs_receiver s"
  shows "\<exists>pid. pid \<noteq> 0 \<and> cs_sent (deliver now topic payload 2 retain sid s) =
    cs_sent s @ [encode_packet (publish_packet topic payload 2 retain (Some pid) sid)]"
proof -
  obtain pid s' where g: "get_next_packet_id s = (pid, s')" by (cases "get_next_packet_id s")
  then have "cs_receiver s' = cs_receiver s" "cs_sent s' = cs_sent s" using get_next_fields by blast+
  with g next_packet_id(2) [OF g] assms show ?thesis
    by (intro exI [of _ pid]) (simp add: deliver_def session_publish_def Let_def send_buf_def add_in_flight_def)
qed

text \<open>
  C25: a message at QoS 2 costs a subscriber its connection. A publication at QoS 2 is delivered to a
  connected subscriber at QoS 2, with a packet identifier; the receiver has to answer with PUBREC for
  that identifier, and this answer ends its connection as malformed: afterwards the session map has no
  session of the client, and its channel is closed.
\<close>

theorem qos2_receiver_disconnected:
  fixes c topic :: rstr and payload :: bytes and retain :: bool and sid :: "u32 option"
  assumes "broker_ok b" and "live b c i" and "cs_receiver (session_at b i)"
  defines "b1 \<equiv> send_publish_to_client c topic payload 2 retain sid b"
  shows "\<exists>pid b2. cs_sent (session_at b1 i) =
      cs_sent (session_at b i) @ [encode_packet (publish_packet topic payload 2 retain (Some pid) sid)] \<and>
    connection_event verify (Received (pubrec_frame pid)) (Running i []) b1 =
      (Done (Some (CodecFailure MalformedPacket)), b2) \<and>
    (\<forall>j. \<not> live b2 c j) \<and> \<not> cs_receiver (session_at b2 i)"
proof -
  note spec = send_publish_spec [OF assms(1), where c = c and topic = topic and payload = payload and qos = 2 and
      retain = retain and sid = sid, folded b1_def]
  from spec(8) [OF assms(2)] deliver_qos2 [OF assms(3)] obtain pid where
    "cs_sent (session_at b1 i) = cs_sent (session_at b i) @ [encode_packet (publish_packet topic payload 2 retain (Some pid) sid)]"
    by fastforce
  moreover have "live b1 c i" using assms(2) spec(2) by (simp add: live_def)
  from unsupported_packet_ends_connection [OF spec(1) this, of "0x50" "write_u16 pid" verify "[]"]
  have "\<exists>b2. connection_event verify (Received (pubrec_frame pid)) (Running i []) b1 =
      (Done (Some (CodecFailure MalformedPacket)), b2) \<and> \<not> live b2 c j \<and> \<not> cs_receiver (session_at b2 i)" for j
    by (simp add: unsupported_def pubrec_frame_def)
  ultimately show ?thesis by (metis prod.inject)
qed

theorem qos2_receiver_disconnected_witness:
  "\<exists>pid b2. connection_event (\<lambda>_ _. False) (Received (pubrec_frame pid)) (Running 0 [])
      (send_publish_to_client (lit ''c'') (lit ''a'') [1] 2 False None demo_broker) =
      (Done (Some (CodecFailure MalformedPacket)), b2) \<and> \<not> live b2 (lit ''c'') 0"
  using qos2_receiver_disconnected [OF demo_broker_facts(1-3)] by blast

end
