(* ===== verification/Unit_Tests.thy ===== *)
theory Unit_Tests imports Codec_Properties Router_Match Auth begin

text \<open>
  The repository's own unit tests, of \<open>src/codec.rs\<close>, \<open>src/router.rs\<close> and \<open>src/config.rs\<close>, run on the
  model: a check of the definitions that is independent of the theorems about them. The test of
  Argon2 is about the library and is left out.
\<close>

section \<open>The codec\<close>

text \<open>What each test of the codec asserts of its packet.\<close>

definition assert_roundtrip :: "packet \<Rightarrow> bool" where
  "assert_roundtrip pkt =
     (let buf = encode_packet pkt in
      case decode_packet buf of Ok (decoded, bytes_read) \<Rightarrow> bytes_read = length buf \<and> decoded = pkt | _ \<Rightarrow> False)"

definition test_connect_packet_parsing :: bool where
  \<open>test_connect_packet_parsing = assert_roundtrip (Connect
     \<lparr>c_client_id = lit ''pipistrelle_client'', c_keep_alive = 60, c_clean_start = True,
      c_username = Some (lit ''admin''), c_password = Some (lit ''secret123''),
      c_properties = connect_properties_default
        \<lparr>cp_session_expiry_interval := Some 3600, cp_receive_maximum := Some 100, cp_max_packet_size := Some 65536,
         cp_user_properties := [(lit ''env'', lit ''prod''), (lit ''region'', lit ''eu'')]\<rparr>\<rparr>)\<close>

definition test_connack_packet :: bool where
  \<open>test_connack_packet = assert_roundtrip (ConnAck
     \<lparr>ca_session_present = False, ca_reason_code = 0,
      ca_properties = connack_properties_default
        \<lparr>cap_assigned_client_identifier := Some (lit ''generated_id_123''), cap_topic_alias_maximum := Some 10\<rparr>\<rparr>)\<close>

definition test_publish_packet :: bool where
  \<open>test_publish_packet = assert_roundtrip (Publish
     \<lparr>p_dup = False, p_qos = 1, p_retain = False, p_topic = lit ''sensor/temp/orange_pi'', p_packet_id = Some 42,
      p_properties = publish_properties_default
        \<lparr>pp_content_type := Some (lit ''application/json''),
         pp_user_properties := [(lit ''device'', lit ''opi_zero3'')]\<rparr>,
      p_payload = lit ''{"temperature": 24.5}''\<rparr>)\<close>

definition test_subscribe_packet :: bool where
  \<open>test_subscribe_packet = assert_roundtrip (Packets.Subscribe
     \<lparr>sub_packet_id = 101, sub_properties = subscribe_properties_default\<lparr>sp_subscription_identifier := Some 5\<rparr>,
      sub_subscriptions =
        [\<lparr>s_topic_filter = lit ''sensor/+/cpu'', s_options = 1\<rparr>, \<lparr>s_topic_filter = lit ''alerts/#'', s_options = 2\<rparr>]\<rparr>)\<close>

definition test_ping_packets :: bool where
  "test_ping_packets \<longleftrightarrow> assert_roundtrip PingReq \<and> assert_roundtrip PingResp"

definition test_disconnect_packet :: bool where
  \<open>test_disconnect_packet = assert_roundtrip (Disconnect
     \<lparr>d_reason_code = 4,
      d_properties = disconnect_properties_default\<lparr>dp_reason_string := Some (lit ''shutting down node'')\<rparr>\<rparr>)\<close>

section \<open>The router\<close>

definition client_ids :: "subscription_info list \<Rightarrow> rstr list" where
  "client_ids subs = map si_client_id subs"

definition test_exact_matches :: bool where
  \<open>test_exact_matches \<longleftrightarrow>
     (let router = Router.subscribe (lit ''client2'') (lit ''sensor/humi'') 0 None
            (Router.subscribe (lit ''client1'') (lit ''sensor/temp'') 1 None empty_node) in
      client_ids (normal (match_topic (lit ''sensor/temp'') router)) = [lit ''client1''] \<and>
      client_ids (normal (match_topic (lit ''sensor/humi'') router)) = [lit ''client2''])\<close>

definition test_plus_wildcard :: bool where
  \<open>test_plus_wildcard \<longleftrightarrow>
     (let router = Router.subscribe (lit ''client1'') (lit ''sensor/+/cpu'') 1 None empty_node in
      client_ids (normal (match_topic (lit ''sensor/opi_zero3/cpu'') router)) = [lit ''client1''] \<and>
      normal (match_topic (lit ''sensor/opi_zero3/gpu/cpu'') router) = [])\<close>

definition test_hash_wildcard :: bool where
  \<open>test_hash_wildcard \<longleftrightarrow>
     (let router = Router.subscribe (lit ''client1'') (lit ''sensor/#'') 2 None empty_node in
      length (normal (match_topic (lit ''sensor/temp'') router)) = 1 \<and>
      length (normal (match_topic (lit ''sensor/humi/status/errors'') router)) = 1 \<and>
      length (normal (match_topic (lit ''sensor'') router)) = 1)\<close>

definition test_shared_subscriptions :: bool where
  \<open>test_shared_subscriptions \<longleftrightarrow>
     (let router = Router.subscribe (lit ''client3'') (lit ''job/+'') 0 None
            (Router.subscribe (lit ''client2'') (lit ''$share/workers/job/+'') 1 None
              (Router.subscribe (lit ''client1'') (lit ''$share/workers/job/+'') 1 None empty_node));
          res = match_topic (lit ''job/compile'') router in
      client_ids (normal res) = [lit ''client3''] \<and>
      (case map_of (shared res) (lit ''workers'') of
         None \<Rightarrow> False
       | Some shared_workers \<Rightarrow> length shared_workers = 2 \<and>
           lit ''client1'' \<in> set (client_ids shared_workers) \<and> lit ''client2'' \<in> set (client_ids shared_workers)))\<close>

definition test_unsubscribe :: bool where
  \<open>test_unsubscribe \<longleftrightarrow>
     (let router = Router.subscribe (lit ''client1'') (lit ''sensor/temp'') 1 None empty_node;
          (removed, router) = Router.unsubscribe (lit ''client1'') (lit ''sensor/temp'') router;
          res = match_topic (lit ''sensor/temp'') router;
          (removed_again, router) = Router.unsubscribe (lit ''client1'') (lit ''sensor/temp'') router in
      removed \<and> normal res = [] \<and> \<not> removed_again)\<close>

section \<open>The ACL\<close>

definition test_topic_matches_acl_filter :: bool where
  \<open>test_topic_matches_acl_filter \<longleftrightarrow>
     topic_matches_acl_filter (lit ''a/b/c'') (lit ''a/b/c'') \<and>
     \<not> topic_matches_acl_filter (lit ''a/b/c'') (lit ''a/b/d'') \<and>
     topic_matches_acl_filter (lit ''sensor/temperature'') (lit ''sensor/+'') \<and>
     topic_matches_acl_filter (lit ''sensor/temperature/cpu'') (lit ''sensor/+/cpu'') \<and>
     \<not> topic_matches_acl_filter (lit ''sensor/temperature/cpu'') (lit ''sensor/+'') \<and>
     topic_matches_acl_filter (lit ''sensor/temperature/cpu'') (lit ''sensor/#'') \<and>
     topic_matches_acl_filter (lit ''sensor'') (lit ''sensor/#'') \<and>
     topic_matches_acl_filter (lit ''a/b/c/d/e'') (lit ''#'')\<close>

section \<open>They pass\<close>

lemma router_tests_pass: "test_exact_matches" "test_plus_wildcard" "test_hash_wildcard" "test_shared_subscriptions" "test_unsubscribe"
  by code_simp+

lemma acl_test_passes: "test_topic_matches_acl_filter"
  by code_simp

lemma assert_roundtrip_wf: "wf_packet pkt \<Longrightarrow> assert_roundtrip pkt"
  using packet_roundtrip [of pkt "[]"] by (simp add: assert_roundtrip_def)

text \<open>What evaluates the well-formedness of a packet.\<close>

lemmas wf_eval = wf_packet_def str_ok_def bytes_ok_def user_properties_ok_def pair_ok_def utf8_valid_ascii encode_eval
  wf_connect_def wf_publish_def wf_subscribe_def wf_connect_properties_def wf_connack_properties_def
  wf_publish_properties_def wf_subscribe_properties_def wf_disconnect_properties_def
  connect_properties_default_def connack_properties_default_def subscribe_properties_default_def
  disconnect_properties_default_def connect_properties_body_def connack_properties_body_def
  subscribe_properties_body_def disconnect_properties_body_def encode_connack_def encode_subscribe_def
  encode_disconnect_def write_subscriptions.simps varint_ok_def

lemma codec_tests_pass:
  "test_connect_packet_parsing" "test_connack_packet" "test_publish_packet" "test_subscribe_packet"
  "test_ping_packets" "test_disconnect_packet"
  unfolding test_connect_packet_parsing_def test_connack_packet_def test_publish_packet_def test_subscribe_packet_def
    test_ping_packets_def test_disconnect_packet_def
  by (intro conjI assert_roundtrip_wf; simp add: wf_eval)+

end
