(* ===== verification/Spec2Isabelle.thy ===== *)
theory Spec2Isabelle imports Scrape Shutdown End_To_End Unsupported Unit_Tests begin

text \<open>
  Pipistrelle: a verification development of an MQTT v5 broker written in Rust.

  The program. A client connects over TCP, TLS or WebSocket; \<open>handle_connection\<close> of \<open>src/main.rs\<close>
  reads its CONNECT, authenticates it (\<open>src/config.rs\<close>), registers a session (\<open>src/session.rs\<close>) and
  then takes packets off a read buffer with the decoder of \<open>src/codec.rs\<close> and handles them against
  the shared \<open>BrokerState\<close>: subscriptions go to the trie of \<open>src/router.rs\<close>, publications are matched
  by it and written, through the sessions' channels, to the recipients. Sessions, subscriptions and
  messages in flight are saved to SQLite (\<open>src/persistence.rs\<close>) by spawned tasks and restored at the
  start. \<open>src/bridge.rs\<close> connects to a remote broker, \<open>src/websocket.rs\<close> makes a byte stream of
  WebSocket messages, \<open>src/metrics.rs\<close> answers scrapes, \<open>src/tls.rs\<close> writes certificates.

  The theories, in their order, and what they model.

  Prelude: machine integers, byte strings, outcomes (\<open>Ok\<close>, \<open>Err\<close> and \<open>Panic\<close>, which no caller can
  match on), association lists as the model of \<open>HashMap\<close>.

  Utf8, Primitives, Varint, Field_Codec, Property_Records, Packets (\<open>src/codec.rs\<close>): the cursor
  functions, the variable byte integer, the seven property sections, every packet type,
  \<open>decode_packet\<close> and \<open>encode_packet\<close>. Codec proves the round trip, soundness of what is decoded
  and where panics come from; Codec_Properties states the properties.

  Topics, Router, Router_Table, Router_Match (\<open>src/router.rs\<close>): the trie of subscriptions with
  \<open>subscribe\<close>, \<open>unsubscribe\<close> and \<open>match_topic\<close>; its abstraction is a flat table of entries (path, group,
  subscriber), a multiset. The locale \<open>subscription_table\<close> is the contract of the router, which the
  trie is proved to meet and the later theories use.

  Auth (\<open>src/config.rs\<close>): loading the configuration, authentication, the ACL. The ACL matcher is
  proved to be the router's relation of filter and topic, which makes precise where the check of a
  subscription is sound and where it is not.

  Session, Broker, Delivery, Broker_Properties (\<open>src/session.rs\<close>): a session (identifiers, messages
  in flight, the buffers sent on its channel), \<open>BrokerState\<close> with every operation, and who receives a
  publication in which bytes. An \<open>Arc<ClientSession>\<close> is an index into a store of sessions, so that two
  connections of one client id are two sessions; a spawned future is an element of \<open>b_tasks\<close>.

  Persistence, Recovery (\<open>src/persistence.rs\<close> and the restart): the statements over three keyed
  tables, tasks run in order, and what a restart, a disconnect and a takeover keep and lose.

  Packet_Stream: the loop over a read buffer, as a locale over decoder, handler and loop, with
  termination, independence of the chunking and order; interpreted on the loops of \<open>src/main.rs\<close>
  and \<open>src/bridge.rs\<close>. Connection, Connection_Laws, Connection_Properties (\<open>src/main.rs\<close>): the
  handler of each packet, the handshake, a connection driven by what its socket and timers give;
  Unsupported: what the packet types that the decoder does not know do to a connection.
  Bridge, Bridge_Task (\<open>src/bridge.rs\<close>): the way to the remote broker with its failures, the packets
  that open the connection, its loop, and the reconnections with their back-off.

  Numbers, Startup (\<open>src/main.rs\<close>, \<open>src/bridge.rs\<close>): ports, command line, settings, the first state.
  System: all connections, the bridge and the shared state as a step relation with reachable states,
  each packet handled in one piece; Access and Wire: its invariants on who gets in and is subscribed,
  and on what is written.

  Actions, Interleaving, Concurrency, Concurrency_Properties (\<open>src/session.rs\<close>, \<open>src/main.rs\<close>): the same
  handlers cut into atomic actions (a \<open>fetch_add\<close>, an access under a lock, a \<open>send\<close>, a spawn), with the
  guards that are held over several of them; all threads as a machine that interleaves their actions
  wherever the locks allow it. Run without interruption the actions are the handlers, so the machine
  reaches every state of System; the invariants are proved of the machine. Interleaved_Delivery
  follows one publication through the machine, with the other threads as an environment.

  WebSocket, Metrics, Certificates (\<open>src/websocket.rs\<close>, \<open>src/metrics.rs\<close>, \<open>src/tls.rs\<close>): the adapter as
  a byte stream, the answer to a scrape, the pair of files in a tree of directories. A path of the
  command line is the place that the operating system resolves it to (\<open>wd_place\<close> of Main_Program).

  Writer, Serving (\<open>src/main.rs\<close>): the writer task of a connection over a socket and over the
  adapter, with the locale \<open>channel_writer\<close> as the contract of both, and a client's reader; the
  machine together with all writers, and what arrives at the clients. End_To_End composes router,
  threads, writers and codec: a published message is read by its subscribers, and two in their order.

  Main_Program, Shutdown (\<open>src/main.rs\<close>, \<open>src/metrics.rs\<close>, \<open>src/persistence.rs\<close>): \<open>main\<close> from its first
  line to the last listener with every error and panic, the accept loops as steps of the machine,
  and the graceful shutdown among the other threads, with the sleep of 500 milliseconds after it and
  the exit, up to what the clients read: a schedule of turns of threads and writers, those of the
  sleep with their times, of which the ones that come too late do not happen. Scrape: the loads of a
  scrape between steps of the threads, and what its numbers count.

  Unit_Tests: the repository's own tests of the codec, the router and the ACL, which the model passes.

  What is shown. The codec: decoding undoes encoding on every packet the format can carry, decoded
  packets are such packets, a verdict depends on one frame only, a proper prefix is incomplete, and
  only a CONNECT with a Will can panic. The router: refinement of the table, an invariant, pruning.
  Authentication is fail-closed, up to the whole system; under every interleaving each subscription
  belongs to a session that logged in and whose user may read the filter, or was restored. A
  publication reaches exactly the recipients of the table, in order and in bytes that decode, also
  when other threads run between its actions; a client reads exactly the packets sent on its
  channel, in order, whatever its socket takes at a time and whether it is a WebSocket or not, and
  DISCONNECT at a shutdown when its writer gets that far before the exit; so a subscriber decodes
  from its own socket what was published, each publication at its place in their order. The locks
  exclude what they should, no schedule of the threads deadlocks, and every schedule ends its work.
  The read loops end and do not depend on how the network cuts the stream. The remote broker of the
  bridge changes nothing but messages. A started broker has its listeners on different ports. The
  places of a shared group are served in turn. Subscriptions survive a restart or a crash when the
  tasks about one row run in the order of their spawn. The theorems that state a defect (a clean-up
  that removes another connection's session, a filter that escapes the ACL, a frame that stops its
  connection, and others) are proved of the same definitions.

  Bounds. \<open>usize\<close> counters have 64 bits. No definition uses fuel: recursions are structural or have a
  measure (the bytes left in a buffer, the levels left of a filter, the answers left of a stream, the
  ranks of the actions left, the bytes a writer has left); \<open>turns\<close> of Packet_Stream counts
  the turns of a loop only to state that half the buffer's length and one are enough. A PUBLISH is taken to fit its four-byte length when the payload leaves
  \<open>2 ^ 17\<close> bytes of \<open>2 ^ 28\<close>.

  Parameters: the Argon2 library and the JSON parser, the PEM parser, rustls and the certificate
  generator, the success of each database statement and file operation, the time, what the network
  delivers and takes, which ports can be bound at the moment of each bind, and the WebSocket stream.

  Not modelled. The TLS and WebSocket handshakes and the signal (each answers that it succeeded or
  failed), timers (a time-out is an event; only the sleep of the shutdown has a length), logging, and
  SQLite itself. A writer may stop at any time, as its receiver does in the machine, and the abort of a
  writer takes effect at once. An action is atomic, as its lock or atomic instruction makes
  it; the locks inside a session and inside the router are held for one action and do not appear.
  A \<open>HashMap\<close> iterates in the order of its association list, and statements about an
  iteration are up to order. The Python client scripts and the container files are not part of the
  broker. Of the Rust sources, what no definition models is imports, the text of error messages,
  logging and the constructors of empty values; nothing that changes the state is left out.
\<close>

end
